theory Spec2Isabelle
  imports Main "HOL-Library.Multiset" "HOL-Library.Monad_Syntax"
begin

section \<open>Lock manager: lock modes, requests and queues\<close>

text \<open>
  The lock manager of \<^verbatim>\<open>concurrency/lock_manager.cpp\<close>. A request queue is a
  \<^verbatim>\<open>std::list<std::shared_ptr<LockRequest>>\<close>; the field \<open>ref\<close> of a request stands
  for the address of the shared object, which is what \<^verbatim>\<open>request.get() == lock_request.get()\<close>
  compares.
\<close>

datatype LockMode =
  SHARED | EXCLUSIVE | INTENTION_SHARED | INTENTION_EXCLUSIVE | SHARED_INTENTION_EXCLUSIVE

record LockRequest =
  ref :: nat
  txn_id :: int
  lock_mode :: LockMode
  oid :: nat
  rid :: "(int \<times> nat) option"
  granted :: bool

text \<open>
  The \<^verbatim>\<open>switch (lock_request->lock_mode_)\<close> inside the loop of \<^verbatim>\<open>GrantLock\<close>: for the
  mode of the request asking (first argument) and the mode of an earlier request of the
  queue (second argument), whether the loop body executes \<^verbatim>\<open>return false\<close>.
\<close>

fun grant_switch_fails :: "LockMode \<Rightarrow> LockMode \<Rightarrow> bool" where
  "grant_switch_fails SHARED m =
     (m = INTENTION_EXCLUSIVE \<or> m = SHARED_INTENTION_EXCLUSIVE \<or> m = EXCLUSIVE)"
| "grant_switch_fails EXCLUSIVE m = True"
| "grant_switch_fails INTENTION_SHARED m = (m = EXCLUSIVE)"
| "grant_switch_fails INTENTION_EXCLUSIVE m =
     (m = SHARED \<or> m = SHARED_INTENTION_EXCLUSIVE \<or> m = EXCLUSIVE)"
| "grant_switch_fails SHARED_INTENTION_EXCLUSIVE m = (m \<noteq> INTENTION_SHARED)"

text \<open>
  \<^verbatim>\<open>LockManager::GrantLock\<close>: walk the queue from its front; stop with \<open>True\<close> at the
  request itself, with \<open>False\<close> at an earlier request that is not granted or whose mode
  the switch rejects; \<open>True\<close> when the queue is exhausted.
\<close>

fun GrantLock :: "LockRequest \<Rightarrow> LockRequest list \<Rightarrow> bool" where
  "GrantLock lock_request [] = True"
| "GrantLock lock_request (request # rest) =
     (if ref request = ref lock_request then True
      else if \<not> granted request then False
      else if grant_switch_fails (lock_mode lock_request) (lock_mode request) then False
      else GrantLock lock_request rest)"

text \<open>
  The compatibility matrix as the specification prints it (rows: held mode, columns:
  requested mode).
\<close>

fun compatible :: "LockMode \<Rightarrow> LockMode \<Rightarrow> bool" where
  "compatible INTENTION_SHARED req = (req \<noteq> EXCLUSIVE)"
| "compatible INTENTION_EXCLUSIVE req = (req = INTENTION_SHARED \<or> req = INTENTION_EXCLUSIVE)"
| "compatible SHARED req = (req = INTENTION_SHARED \<or> req = SHARED)"
| "compatible SHARED_INTENTION_EXCLUSIVE req = (req = INTENTION_SHARED)"
| "compatible EXCLUSIVE req = False"

text \<open>The requests that stand before the request with address \<open>a\<close> in the queue.\<close>

definition earlier :: "nat \<Rightarrow> LockRequest list \<Rightarrow> LockRequest list" where
  "earlier a queue = takeWhile (\<lambda>q. ref q \<noteq> a) queue"

text \<open>
  The grant condition in the words of the specification: the request is compatible with
  every granted request of the queue and with every waiter that stands before it.
\<close>

definition spec_grantable :: "LockRequest \<Rightarrow> LockRequest list \<Rightarrow> bool" where
  "spec_grantable r queue =
     ((\<forall>g \<in> set queue. granted g \<and> ref g \<noteq> ref r \<longrightarrow> compatible (lock_mode g) (lock_mode r)) \<and>
      (\<forall>w \<in> set (earlier (ref r) queue). \<not> granted w \<longrightarrow> compatible (lock_mode w) (lock_mode r)))"

definition mk_request :: "nat \<Rightarrow> int \<Rightarrow> LockMode \<Rightarrow> bool \<Rightarrow> LockRequest" where
  "mk_request a t m g =
     \<lparr>ref = a, txn_id = t, lock_mode = m, oid = 0, rid = None, granted = g\<rparr>"

subsection \<open>Transactions and unlocking\<close>

datatype TransactionState = GROWING | SHRINKING | COMMITTED | ABORTED

datatype IsolationLevel = READ_UNCOMMITTED | REPEATABLE_READ | READ_COMMITTED

datatype AbortReason =
  LOCK_ON_SHRINKING | UPGRADE_CONFLICT | LOCK_SHARED_ON_READ_UNCOMMITTED
| TABLE_LOCK_NOT_PRESENT | ATTEMPTED_INTENTION_LOCK_ON_ROW
| TABLE_UNLOCKED_BEFORE_UNLOCKING_ROWS | INCOMPATIBLE_UPGRADE
| ATTEMPTED_UNLOCK_BUT_NO_LOCK_HELD

type_synonym RID = "int \<times> nat"

text \<open>
  A transaction as the lock manager uses it: identifier, state, isolation level, the five
  table lock sets and the two row lock sets (maps from table oid to a set of RIDs).
\<close>

record Transaction =
  txn_ident :: int
  state :: TransactionState
  isolation_level :: IsolationLevel
  s_table_lock_set :: "nat set"
  x_table_lock_set :: "nat set"
  is_table_lock_set :: "nat set"
  ix_table_lock_set :: "nat set"
  six_table_lock_set :: "nat set"
  s_row_lock_set :: "nat \<rightharpoonup> RID set"
  x_row_lock_set :: "nat \<rightharpoonup> RID set"

record LockRequestQueue =
  request_queue :: "LockRequest list"
  upgrading :: int

record LockManager =
  table_lock_map :: "nat \<rightharpoonup> LockRequestQueue"
  row_lock_map :: "RID \<rightharpoonup> LockRequestQueue"

text \<open>
  The result of a lock-manager call: \<open>Inl reason\<close> when the call leaves through
  \<^verbatim>\<open>AbortTransaction\<close> (which has set the state to ABORTED before throwing), \<open>Inr b\<close>
  when it returns \<open>b\<close>; together with the lock manager and the transaction afterwards.
\<close>

type_synonym lock_result = "(AbortReason + bool) \<times> LockManager \<times> Transaction"

definition AbortTransaction :: "LockManager \<Rightarrow> Transaction \<Rightarrow> AbortReason \<Rightarrow> lock_result" where
  "AbortTransaction lm txn abort_reason = (Inl abort_reason, lm, txn\<lparr>state := ABORTED\<rparr>)"

text \<open>The lock set of a transaction that \<^verbatim>\<open>UpdateTableLockSet\<close> selects for a mode.\<close>

fun table_lock_set :: "Transaction \<Rightarrow> LockMode \<Rightarrow> nat set" where
  "table_lock_set txn SHARED = s_table_lock_set txn"
| "table_lock_set txn EXCLUSIVE = x_table_lock_set txn"
| "table_lock_set txn INTENTION_SHARED = is_table_lock_set txn"
| "table_lock_set txn INTENTION_EXCLUSIVE = ix_table_lock_set txn"
| "table_lock_set txn SHARED_INTENTION_EXCLUSIVE = six_table_lock_set txn"

fun UpdateTableLockSet :: "Transaction \<Rightarrow> LockMode \<Rightarrow> nat \<Rightarrow> bool \<Rightarrow> Transaction" where
  "UpdateTableLockSet txn SHARED t_oid ins =
     txn\<lparr>s_table_lock_set :=
       (if ins then s_table_lock_set txn \<union> {t_oid} else s_table_lock_set txn - {t_oid})\<rparr>"
| "UpdateTableLockSet txn EXCLUSIVE t_oid ins =
     txn\<lparr>x_table_lock_set :=
       (if ins then x_table_lock_set txn \<union> {t_oid} else x_table_lock_set txn - {t_oid})\<rparr>"
| "UpdateTableLockSet txn INTENTION_SHARED t_oid ins =
     txn\<lparr>is_table_lock_set :=
       (if ins then is_table_lock_set txn \<union> {t_oid} else is_table_lock_set txn - {t_oid})\<rparr>"
| "UpdateTableLockSet txn INTENTION_EXCLUSIVE t_oid ins =
     txn\<lparr>ix_table_lock_set :=
       (if ins then ix_table_lock_set txn \<union> {t_oid} else ix_table_lock_set txn - {t_oid})\<rparr>"
| "UpdateTableLockSet txn SHARED_INTENTION_EXCLUSIVE t_oid ins =
     txn\<lparr>six_table_lock_set :=
       (if ins then six_table_lock_set txn \<union> {t_oid} else six_table_lock_set txn - {t_oid})\<rparr>"

text \<open>
  \<^verbatim>\<open>(*lock_set)[oid]\<close> on an \<^verbatim>\<open>unordered_map\<close> creates an empty set when the key is
  missing; \<open>row_set_at\<close> reads the set that is there after that.
\<close>

definition row_set_at :: "(nat \<rightharpoonup> RID set) \<Rightarrow> nat \<Rightarrow> RID set" where
  "row_set_at m t_oid = (case m t_oid of None \<Rightarrow> {} | Some s \<Rightarrow> s)"

definition UpdateRowLockSet :: "Transaction \<Rightarrow> LockRequest \<Rightarrow> bool \<Rightarrow> Transaction" where
  "UpdateRowLockSet txn lock_request ins =
     (case lock_mode lock_request of
        INTENTION_SHARED \<Rightarrow> txn
      | INTENTION_EXCLUSIVE \<Rightarrow> txn
      | SHARED_INTENTION_EXCLUSIVE \<Rightarrow> txn
      | SHARED \<Rightarrow>
          (case rid lock_request of
             None \<Rightarrow> txn
           | Some r \<Rightarrow> txn\<lparr>s_row_lock_set := (s_row_lock_set txn)(oid lock_request \<mapsto>
               (if ins then row_set_at (s_row_lock_set txn) (oid lock_request) \<union> {r}
                else row_set_at (s_row_lock_set txn) (oid lock_request) - {r}))\<rparr>)
      | EXCLUSIVE \<Rightarrow>
          (case rid lock_request of
             None \<Rightarrow> txn
           | Some r \<Rightarrow> txn\<lparr>x_row_lock_set := (x_row_lock_set txn)(oid lock_request \<mapsto>
               (if ins then row_set_at (x_row_lock_set txn) (oid lock_request) \<union> {r}
                else row_set_at (x_row_lock_set txn) (oid lock_request) - {r}))\<rparr>))"

text \<open>\<^verbatim>\<open>std::list::remove\<close> of a shared pointer: every element with that address goes.\<close>

definition queue_remove :: "LockRequest \<Rightarrow> LockRequest list \<Rightarrow> LockRequest list" where
  "queue_remove r rs = filter (\<lambda>q. ref q \<noteq> ref r) rs"

text \<open>
  The condition under which the unlock paths consider moving the transaction to
  SHRINKING, and the guarded assignment that follows it.
\<close>

definition shrink_on_unlock :: "IsolationLevel \<Rightarrow> LockMode \<Rightarrow> bool" where
  "shrink_on_unlock lvl m =
     ((lvl = REPEATABLE_READ \<and> (m = SHARED \<or> m = EXCLUSIVE)) \<or>
      (lvl = READ_COMMITTED \<and> m = EXCLUSIVE) \<or>
      (lvl = READ_UNCOMMITTED \<and> m = EXCLUSIVE))"

definition unlock_set_state :: "Transaction \<Rightarrow> LockMode \<Rightarrow> Transaction" where
  "unlock_set_state txn m =
     (if shrink_on_unlock (isolation_level txn) m then
        (if state txn \<noteq> COMMITTED \<and> state txn \<noteq> ABORTED then txn\<lparr>state := SHRINKING\<rparr>
         else txn)
      else txn)"

text \<open>The first granted request of the transaction in a queue, as the unlock loops find it.\<close>

definition held_request :: "Transaction \<Rightarrow> LockRequest list \<Rightarrow> LockRequest option" where
  "held_request txn rs = find (\<lambda>q. txn_id q = txn_ident txn \<and> granted q) rs"

definition UnlockTable :: "LockManager \<Rightarrow> Transaction \<Rightarrow> nat \<Rightarrow> lock_result" where
  "UnlockTable lm txn table_oid =
     (case table_lock_map lm table_oid of
        None \<Rightarrow> AbortTransaction lm txn ATTEMPTED_UNLOCK_BUT_NO_LOCK_HELD
      | Some lock_request_queue \<Rightarrow>
          if (s_row_lock_set txn table_oid \<noteq> None \<and> row_set_at (s_row_lock_set txn) table_oid \<noteq> {}) \<or>
             (x_row_lock_set txn table_oid \<noteq> None \<and> row_set_at (x_row_lock_set txn) table_oid \<noteq> {})
          then AbortTransaction lm txn TABLE_UNLOCKED_BEFORE_UNLOCKING_ROWS
          else
            (case held_request txn (request_queue lock_request_queue) of
               None \<Rightarrow> AbortTransaction lm txn ATTEMPTED_UNLOCK_BUT_NO_LOCK_HELD
             | Some lock_request \<Rightarrow>
                 (Inr True,
                  lm\<lparr>table_lock_map := (table_lock_map lm)(table_oid \<mapsto>
                       lock_request_queue\<lparr>request_queue :=
                         queue_remove lock_request (request_queue lock_request_queue)\<rparr>)\<rparr>,
                  UpdateTableLockSet (unlock_set_state txn (lock_mode lock_request))
                    (lock_mode lock_request) (oid lock_request) False)))"

definition UnlockRow :: "LockManager \<Rightarrow> Transaction \<Rightarrow> nat \<Rightarrow> RID \<Rightarrow> lock_result" where
  "UnlockRow lm txn table_oid row =
     (case row_lock_map lm row of
        None \<Rightarrow> AbortTransaction lm txn ATTEMPTED_UNLOCK_BUT_NO_LOCK_HELD
      | Some lock_request_queue \<Rightarrow>
          (case held_request txn (request_queue lock_request_queue) of
             None \<Rightarrow> AbortTransaction lm txn ATTEMPTED_UNLOCK_BUT_NO_LOCK_HELD
           | Some lock_request \<Rightarrow>
               (Inr True,
                lm\<lparr>row_lock_map := (row_lock_map lm)(row \<mapsto>
                     lock_request_queue\<lparr>request_queue :=
                       queue_remove lock_request (request_queue lock_request_queue)\<rparr>)\<rparr>,
                UpdateRowLockSet (unlock_set_state txn (lock_mode lock_request)) lock_request False)))"

text \<open>The requests of a table queue and of a row queue (empty when there is no queue).\<close>

definition table_queue :: "LockManager \<Rightarrow> nat \<Rightarrow> LockRequest list" where
  "table_queue lm table_oid =
     (case table_lock_map lm table_oid of None \<Rightarrow> [] | Some q \<Rightarrow> request_queue q)"

definition row_queue :: "LockManager \<Rightarrow> RID \<Rightarrow> LockRequest list" where
  "row_queue lm row = (case row_lock_map lm row of None \<Rightarrow> [] | Some q \<Rightarrow> request_queue q)"

definition mk_txn :: "int \<Rightarrow> TransactionState \<Rightarrow> IsolationLevel \<Rightarrow> Transaction" where
  "mk_txn t st lvl =
     \<lparr>txn_ident = t, state = st, isolation_level = lvl, s_table_lock_set = {},
      x_table_lock_set = {}, is_table_lock_set = {}, ix_table_lock_set = {},
      six_table_lock_set = {}, s_row_lock_set = Map.empty, x_row_lock_set = Map.empty\<rparr>"

definition mk_row_request :: "nat \<Rightarrow> int \<Rightarrow> LockMode \<Rightarrow> nat \<Rightarrow> RID \<Rightarrow> bool \<Rightarrow> LockRequest" where
  "mk_row_request a t m table_oid row g =
     \<lparr>ref = a, txn_id = t, lock_mode = m, oid = table_oid, rid = Some row, granted = g\<rparr>"

definition one_queue_lm :: "nat \<Rightarrow> LockRequest list \<Rightarrow> RID \<Rightarrow> LockRequest list \<Rightarrow> LockManager" where
  "one_queue_lm table_oid trs row rrs =
     \<lparr>table_lock_map = [table_oid \<mapsto> \<lparr>request_queue = trs, upgrading = - 1\<rparr>],
      row_lock_map = [row \<mapsto> \<lparr>request_queue = rrs, upgrading = - 1\<rparr>]\<rparr>"

section \<open>Insert and delete executors\<close>

text \<open>
  The executors of \<^verbatim>\<open>execution/insert_executor.cpp\<close> and
  \<^verbatim>\<open>execution/delete_executor.cpp\<close>. The table heap, the indexes and the blocking
  calls of the lock manager are collaborators outside these files: they are the fields of
  \<open>Services\<close>, functions on the state they own. A lock call answers like the unlock
  calls above: \<open>Inl reason\<close> for a \<^verbatim>\<open>TransactionAbortException\<close>, \<open>Inr b\<close> for the
  returned flag.

  A call that \<^verbatim>\<open>Next\<close> makes inside its loop may also leave with an exception or
  never return: the child's \<^verbatim>\<open>Next\<close> (a sequential scan throws when its row lock is
  refused), \<^verbatim>\<open>InsertEntry\<close> and \<^verbatim>\<open>DeleteEntry\<close> of an index (the B+ tree throws
  when the buffer pool is full, and its \<^verbatim>\<open>Remove\<close> can wait for a latch for ever) and
  \<^verbatim>\<open>LockRow\<close>, which blocks. Such a call has the result \<open>None\<close> when it never
  returns, and otherwise \<open>Inl\<close> of the exception or \<open>Inr\<close> of what it returns; an index
  call comes with the index as the call leaves it. The child executor is the list of the
  outcomes of its \<^verbatim>\<open>Next\<close> calls after its \<^verbatim>\<open>Init\<close>, up to the call that returns
  false: a row, an exception, or \<open>None\<close>. \<^verbatim>\<open>InsertTuple\<close> and \<^verbatim>\<open>MarkDelete\<close> of the
  table heap report a failure by the flag they return: \<open>None\<close> is \<open>false\<close>, and
  \<open>Some\<close> is \<open>true\<close> with the heap afterwards (and the \<^verbatim>\<open>RID\<close> that
  \<^verbatim>\<open>InsertTuple\<close> writes).
\<close>

datatype Value = INTEGER int | VARCHAR string | NULL_VALUE

type_synonym Tuple = "Value list"

datatype ExecError =
  ExecutionException string | TransactionAbortException AbortReason | OtherException string

type_synonym child_result = "(ExecError + Tuple \<times> RID) option"

record ('h, 'ix) Services =
  LockTable :: "LockManager \<Rightarrow> Transaction \<Rightarrow> LockMode \<Rightarrow> nat \<Rightarrow> lock_result"
  LockRow :: "LockManager \<Rightarrow> Transaction \<Rightarrow> LockMode \<Rightarrow> nat \<Rightarrow> RID \<Rightarrow> lock_result option"
  InsertTuple :: "Tuple \<Rightarrow> 'h \<Rightarrow> (RID \<times> 'h) option"
  MarkDelete :: "RID \<Rightarrow> 'h \<Rightarrow> 'h option"
  InsertEntry :: "Tuple \<Rightarrow> RID \<Rightarrow> 'ix \<Rightarrow> ((ExecError + unit) \<times> 'ix) option"
  DeleteEntry :: "Tuple \<Rightarrow> RID \<Rightarrow> 'ix \<Rightarrow> ((ExecError + unit) \<times> 'ix) option"

record ('h, 'ix) ExecutorContext =
  ctx_txn :: Transaction
  ctx_lock_manager :: LockManager
  ctx_table_oid :: nat
  ctx_table :: 'h
  ctx_indexes :: "'ix list"

record ChildExecutor =
  child_rows :: "child_result list"
  child_rest :: "child_result list"

definition child_Init :: "ChildExecutor \<Rightarrow> ChildExecutor" where
  "child_Init c = c\<lparr>child_rest := child_rows c\<rparr>"

text \<open>A child all of whose \<^verbatim>\<open>Next\<close> calls return: the rows it yields.\<close>

definition yields :: "(Tuple \<times> RID) list \<Rightarrow> child_result list" where
  "yields rows = map (\<lambda>row. Some (Inr row)) rows"

record ('h, 'ix) InsertExecutor =
  ins_ctx :: "('h, 'ix) ExecutorContext"
  ins_child :: ChildExecutor
  first_flag :: bool

record ('h, 'ix) DeleteExecutor =
  del_ctx :: "('h, 'ix) ExecutorContext"
  del_child :: ChildExecutor
  deleted_flag :: bool

text \<open>\<^verbatim>\<open>InsertExecutor::Init\<close>: initialise the child, set \<^verbatim>\<open>first_\<close>. Nothing else.\<close>

definition InsertExecutor_Init ::
  "('h, 'ix) Services \<Rightarrow> ('h, 'ix) InsertExecutor \<Rightarrow> ExecError + ('h, 'ix) InsertExecutor" where
  "InsertExecutor_Init sv ex = Inr (ex\<lparr>ins_child := child_Init (ins_child ex), first_flag := True\<rparr>)"

text \<open>
  The loop over the indexes of the table, for one row: the indexes before the one whose
  call raises have the entry, those after it are untouched.
\<close>

fun insert_entries ::
  "('h, 'ix) Services \<Rightarrow> Tuple \<Rightarrow> RID \<Rightarrow> 'ix list \<Rightarrow> ((ExecError + unit) \<times> 'ix list) option" where
  "insert_entries sv child_tuple r [] = Some (Inr (), [])"
| "insert_entries sv child_tuple r (ix # ixs) =
     (case InsertEntry sv child_tuple r ix of
        None \<Rightarrow> None
      | Some (Inl e, ix') \<Rightarrow> Some (Inl e, ix' # ixs)
      | Some (Inr u, ix') \<Rightarrow>
          (case insert_entries sv child_tuple r ixs of
             None \<Rightarrow> None
           | Some (res, ixs') \<Rightarrow> Some (res, ix' # ixs')))"


text \<open>
  The \<^verbatim>\<open>while (child_executor_->Next(...))\<close> loop of \<^verbatim>\<open>InsertExecutor::Next\<close> over the
  outcomes the child still has: \<open>None\<close> when a call never returns, otherwise the exception
  that ends the loop or the count, with what is left of the child, the heap and the
  indexes.
\<close>

fun insert_rows ::
  "('h, 'ix) Services \<Rightarrow> child_result list \<Rightarrow> int \<Rightarrow> 'h \<Rightarrow> 'ix list \<Rightarrow>
     ((ExecError + int) \<times> child_result list \<times> 'h \<times> 'ix list) option" where
  "insert_rows sv [] cnt heap ixs = Some (Inr cnt, [], heap, ixs)"
| "insert_rows sv (None # rest) cnt heap ixs = None"
| "insert_rows sv (Some (Inl e) # rest) cnt heap ixs = Some (Inl e, rest, heap, ixs)"
| "insert_rows sv (Some (Inr (child_tuple, r)) # rest) cnt heap ixs =
     (case InsertTuple sv child_tuple heap of
        None \<Rightarrow> insert_rows sv rest cnt heap ixs
      | Some (r', heap') \<Rightarrow>
          (case insert_entries sv child_tuple r' ixs of
             None \<Rightarrow> None
           | Some (Inl e, ixs') \<Rightarrow> Some (Inl e, rest, heap', ixs')
           | Some (Inr u, ixs') \<Rightarrow> insert_rows sv rest (cnt + 1) heap' ixs'))"

text \<open>
  \<^verbatim>\<open>InsertExecutor::Next\<close>: \<open>None\<close> when the call never returns, otherwise the exception
  or the returned flag with the emitted tuple (\<open>Inr None\<close> is \<open>false\<close>), and the executor
  afterwards. \<^verbatim>\<open>first_\<close> is cleared before the loop.
\<close>

definition InsertExecutor_Next ::
  "('h, 'ix) Services \<Rightarrow> ('h, 'ix) InsertExecutor \<Rightarrow>
     ((ExecError + Tuple option) \<times> ('h, 'ix) InsertExecutor) option" where
  "InsertExecutor_Next sv ex =
     (if \<not> first_flag ex then Some (Inr None, ex)
      else
        (case insert_rows sv (child_rest (ins_child ex)) 0
                (ctx_table (ins_ctx ex)) (ctx_indexes (ins_ctx ex)) of
           None \<Rightarrow> None
         | Some (res, rest, heap, ixs) \<Rightarrow>
             Some (case res of Inl e \<Rightarrow> Inl e | Inr cnt \<Rightarrow> Inr (Some [INTEGER cnt]),
                   ex\<lparr>first_flag := False,
                      ins_child := (ins_child ex)\<lparr>child_rest := rest\<rparr>,
                      ins_ctx := (ins_ctx ex)\<lparr>ctx_table := heap, ctx_indexes := ixs\<rparr>\<rparr>)))"

text \<open>
  \<^verbatim>\<open>DeleteExecutor::Init\<close>: initialise the child, clear \<^verbatim>\<open>deleted_\<close>, lock the table
  in INTENTION_EXCLUSIVE mode; a \<open>false\<close> from \<^verbatim>\<open>LockTable\<close> becomes an
  \<^verbatim>\<open>ExecutionException\<close>, an abort thrown inside it passes through.
\<close>

definition DeleteExecutor_Init ::
  "('h, 'ix) Services \<Rightarrow> ('h, 'ix) DeleteExecutor \<Rightarrow>
     (ExecError + unit) \<times> ('h, 'ix) DeleteExecutor" where
  "DeleteExecutor_Init sv ex =
     (let ex1 = ex\<lparr>del_child := child_Init (del_child ex), deleted_flag := False\<rparr>;
          ctx = del_ctx ex1
      in case LockTable sv (ctx_lock_manager ctx) (ctx_txn ctx) INTENTION_EXCLUSIVE (ctx_table_oid ctx) of
           (res, lm, txn) \<Rightarrow>
             (let ex2 = ex1\<lparr>del_ctx := ctx\<lparr>ctx_lock_manager := lm, ctx_txn := txn\<rparr>\<rparr>
              in case res of
                   Inl reason \<Rightarrow> (Inl (TransactionAbortException reason), ex2)
                 | Inr False \<Rightarrow> (Inl (ExecutionException ''Delete Executor: failed to lock table''), ex2)
                 | Inr True \<Rightarrow> (Inr (), ex2)))"







text \<open>
  Concrete collaborators for evaluation: a heap that is the list of its rows with their
  delete marks, an index that is a list of entries and whose calls return, and a lock
  manager whose calls all answer \<open>granted\<close>.
\<close>

definition list_services :: "bool \<Rightarrow> ((Tuple \<times> bool) list, (Tuple \<times> RID) list) Services" where
  "list_services granted_answer =
     \<lparr>LockTable = (\<lambda>lm txn m t. (Inr granted_answer, lm, txn)),
      LockRow = (\<lambda>lm txn m t r. Some (Inr granted_answer, lm, txn)),
      InsertTuple = (\<lambda>tup heap. Some ((0, length heap), heap @ [(tup, False)])),
      MarkDelete = (\<lambda>r heap.
         if snd r < length heap \<and> \<not> snd (heap ! snd r)
         then Some (heap[snd r := (fst (heap ! snd r), True)]) else None),
      InsertEntry = (\<lambda>tup r ix. Some (Inr (), ix @ [(tup, r)])),
      DeleteEntry = (\<lambda>tup r ix. Some (Inr (), filter (\<lambda>e. e \<noteq> (tup, r)) ix))\<rparr>"

definition list_context ::
  "(Tuple \<times> bool) list \<Rightarrow> ((Tuple \<times> bool) list, (Tuple \<times> RID) list) ExecutorContext" where
  "list_context heap =
     \<lparr>ctx_txn = mk_txn 7 GROWING REPEATABLE_READ,
      ctx_lock_manager = \<lparr>table_lock_map = Map.empty, row_lock_map = Map.empty\<rparr>,
      ctx_table_oid = 5, ctx_table = heap, ctx_indexes = [[]]\<rparr>"

definition list_insert_executor ::
  "(Tuple \<times> RID) list \<Rightarrow> ((Tuple \<times> bool) list, (Tuple \<times> RID) list) InsertExecutor" where
  "list_insert_executor rows =
     \<lparr>ins_ctx = list_context [], ins_child = \<lparr>child_rows = yields rows, child_rest = []\<rparr>,
      first_flag = False\<rparr>"

definition list_delete_executor ::
  "(Tuple \<times> bool) list \<Rightarrow> (Tuple \<times> RID) list \<Rightarrow>
     ((Tuple \<times> bool) list, (Tuple \<times> RID) list) DeleteExecutor" where
  "list_delete_executor heap rows =
     \<lparr>del_ctx = list_context heap, del_child = \<lparr>child_rows = yields rows, child_rest = []\<rparr>,
      deleted_flag = False\<rparr>"


section \<open>LRU-K replacer\<close>

text \<open>
  Modelled from the spec: the class \<^verbatim>\<open>Frame\<close> of \<^verbatim>\<open>buffer/lru_k_replacer.h\<close> is not
  among the sources. Per frame the replacer keeps the timestamps of the last up to \<open>k\<close>
  accesses (oldest first, the oldest dropped when a \<open>k+1\<close>-th arrives), a validity bit and
  an evictable bit. \<open>Full\<close> says that \<open>k\<close> accesses are recorded; \<open>Timestamp\<close> is the
  oldest retained timestamp, which for a full frame is the timestamp of the \<open>k\<close>-th most
  recent access (the C++ would read the front of an empty container where the model
  answers 0; no valid frame has an empty history).
\<close>

record Frame =
  history :: "nat list"
  cap_k :: nat
  valid :: bool
  evictable :: bool

definition Frame_new :: "nat \<Rightarrow> Frame" where
  "Frame_new k = \<lparr>history = [], cap_k = k, valid = False, evictable = False\<rparr>"

definition Full :: "Frame \<Rightarrow> bool" where
  "Full fr = (length (history fr) = cap_k fr)"

definition Timestamp :: "Frame \<Rightarrow> nat" where
  "Timestamp fr = (case history fr of [] \<Rightarrow> 0 | t # _ \<Rightarrow> t)"

definition Access :: "Frame \<Rightarrow> nat \<Rightarrow> Frame" where
  "Access fr ts =
     (if Full fr then fr\<lparr>history := tl (history fr) @ [ts]\<rparr>
      else fr\<lparr>history := history fr @ [ts]\<rparr>)"

definition Reset :: "Frame \<Rightarrow> Frame" where
  "Reset fr = fr\<lparr>history := [], valid := False, evictable := False\<rparr>"

text \<open>
  The replacer of \<^verbatim>\<open>buffer/lru_k_replacer.cpp\<close>. Frame ids are natural numbers (the
  code never passes a negative one); the result \<open>None\<close> of \<open>Evict\<close>'s scan is the
  \<^verbatim>\<open>-1\<close> of the code. Timestamps and \<^verbatim>\<open>curr_size_\<close> are \<^verbatim>\<open>size_t\<close> in the code;
  the model counts without the wrap-around at \<open>2^64\<close>.
\<close>

record LRUKReplacer =
  replacer_size :: nat
  k_param :: nat
  frames :: "Frame list"
  current_timestamp :: nat
  curr_size :: int

definition LRUKReplacer_new :: "nat \<Rightarrow> nat \<Rightarrow> LRUKReplacer" where
  "LRUKReplacer_new num_frames k =
     \<lparr>replacer_size = num_frames, k_param = k,
      frames = replicate (num_frames + 1) (Frame_new k),
      current_timestamp = 0, curr_size = 0\<rparr>"

text \<open>The lambda \<^verbatim>\<open>frame_cmp\<close> of \<^verbatim>\<open>Evict\<close>.\<close>

definition frame_cmp :: "Frame \<Rightarrow> Frame \<Rightarrow> bool" where
  "frame_cmp a b = (if Full a = Full b then Timestamp a < Timestamp b else \<not> Full a)"

text \<open>One iteration of the \<^verbatim>\<open>for\<close> loop of \<^verbatim>\<open>Evict\<close>, and the loop.\<close>

definition evict_step :: "Frame list \<Rightarrow> nat \<Rightarrow> nat option \<Rightarrow> nat option" where
  "evict_step fs i frame_id =
     (if \<not> evictable (fs ! i) then frame_id
      else (case frame_id of
              None \<Rightarrow> Some i
            | Some b \<Rightarrow> if frame_cmp (fs ! i) (fs ! b) then Some i else Some b))"

definition evict_scan :: "LRUKReplacer \<Rightarrow> nat option" where
  "evict_scan r = fold (evict_step (frames r)) [0..<replacer_size r] None"

definition Evict :: "LRUKReplacer \<Rightarrow> nat option \<times> LRUKReplacer" where
  "Evict r =
     (case evict_scan r of
        None \<Rightarrow> (None, r)
      | Some f \<Rightarrow> (Some f, r\<lparr>frames := (frames r)[f := Reset (frames r ! f)],
                             curr_size := curr_size r - 1\<rparr>))"

text \<open>
  \<^verbatim>\<open>RecordAccess\<close>, \<^verbatim>\<open>SetEvictable\<close> and \<^verbatim>\<open>Remove\<close>; \<open>None\<close> is a failed
  \<^verbatim>\<open>BUSTUB_ASSERT\<close>.
\<close>

definition RecordAccess :: "LRUKReplacer \<Rightarrow> nat \<Rightarrow> LRUKReplacer option" where
  "RecordAccess r frame_id =
     (if \<not> frame_id < replacer_size r then None
      else
        (let fr = frames r ! frame_id;
             fr1 = (if \<not> valid fr then fr\<lparr>valid := True, evictable := True\<rparr> else fr);
             sz = (if \<not> valid fr then curr_size r + 1 else curr_size r)
         in Some (r\<lparr>frames := (frames r)[frame_id := Access fr1 (current_timestamp r)],
                    current_timestamp := current_timestamp r + 1,
                    curr_size := sz\<rparr>)))"

definition SetEvictable :: "LRUKReplacer \<Rightarrow> nat \<Rightarrow> bool \<Rightarrow> LRUKReplacer option" where
  "SetEvictable r frame_id set_evictable =
     (if \<not> frame_id < replacer_size r then None
      else
        (let fr = frames r ! frame_id
         in if \<not> valid fr then Some r
            else if evictable fr \<noteq> set_evictable
            then Some (r\<lparr>frames := (frames r)[frame_id := fr\<lparr>evictable := set_evictable\<rparr>],
                         curr_size := curr_size r + (if set_evictable then 1 else - 1)\<rparr>)
            else Some r))"

definition Remove :: "LRUKReplacer \<Rightarrow> nat \<Rightarrow> LRUKReplacer option" where
  "Remove r frame_id =
     (if frame_id \<ge> replacer_size r then Some r
      else
        (let fr = frames r ! frame_id
         in if \<not> valid fr then Some r
            else if \<not> evictable fr then None
            else Some (r\<lparr>frames := (frames r)[frame_id := Reset fr],
                         curr_size := curr_size r - 1\<rparr>)))"

definition Size :: "LRUKReplacer \<Rightarrow> int" where
  "Size r = curr_size r"

datatype replacer_op = OpRecordAccess nat | OpSetEvictable nat bool | OpRemove nat | OpEvict

fun replacer_apply :: "replacer_op \<Rightarrow> LRUKReplacer \<Rightarrow> LRUKReplacer option" where
  "replacer_apply (OpRecordAccess f) r = RecordAccess r f"
| "replacer_apply (OpSetEvictable f b) r = SetEvictable r f b"
| "replacer_apply (OpRemove f) r = Remove r f"
| "replacer_apply OpEvict r = Some (snd (Evict r))"

fun replacer_run :: "replacer_op list \<Rightarrow> LRUKReplacer \<Rightarrow> LRUKReplacer option" where
  "replacer_run [] r = Some r"
| "replacer_run (x # xs) r =
     (case replacer_apply x r of None \<Rightarrow> None | Some r' \<Rightarrow> replacer_run xs r')"

text \<open>
  The backward K-distance in the words of the specification: \<open>None\<close> stands for
  \<open>+\<infinity>\<close> (fewer than \<open>k\<close> accesses recorded), otherwise the current timestamp minus the
  timestamp of the \<open>k\<close>-th most recent access.
\<close>

definition backward_k_distance :: "nat \<Rightarrow> nat \<Rightarrow> Frame \<Rightarrow> nat option" where
  "backward_k_distance k now fr =
     (if length (history fr) < k then None
      else Some (now - rev (history fr) ! (k - 1)))"

text \<open>Order on distances with \<open>None\<close> as the largest element.\<close>

fun dist_le :: "nat option \<Rightarrow> nat option \<Rightarrow> bool" where
  "dist_le _ None = True"
| "dist_le None (Some _) = False"
| "dist_le (Some a) (Some b) = (a \<le> b)"

definition candidate :: "LRUKReplacer \<Rightarrow> nat \<Rightarrow> bool" where
  "candidate r i = (i < replacer_size r \<and> valid (frames r ! i) \<and> evictable (frames r ! i))"

definition has_candidate :: "LRUKReplacer \<Rightarrow> bool" where
  "has_candidate r = (\<exists>i \<in> set [0..<replacer_size r]. candidate r i)"

definition rdist :: "LRUKReplacer \<Rightarrow> nat \<Rightarrow> nat option" where
  "rdist r i = backward_k_distance (k_param r) (current_timestamp r) (frames r ! i)"

text \<open>The invariant of the replacer states that the operations produce.\<close>

definition frame_ok :: "nat \<Rightarrow> Frame \<Rightarrow> bool" where
  "frame_ok k fr =
     (cap_k fr = k \<and> length (history fr) \<le> k \<and>
      (evictable fr \<longrightarrow> valid fr) \<and> (valid fr \<longrightarrow> history fr \<noteq> []))"

definition replacer_inv :: "LRUKReplacer \<Rightarrow> bool" where
  "replacer_inv r =
     (0 < k_param r \<and> length (frames r) = replacer_size r + 1 \<and>
      (\<forall>fr \<in> set (frames r). frame_ok (k_param r) fr))"

definition fkey :: "Frame \<Rightarrow> bool \<times> nat" where
  "fkey fr = (Full fr, Timestamp fr)"

definition spec_example_ops :: "replacer_op list" where
  "spec_example_ops =
     [OpRecordAccess 1, OpRecordAccess 2, OpRecordAccess 3, OpRecordAccess 1, OpRecordAccess 2]"

section \<open>Buffer pool manager\<close>

text \<open>
  The buffer pool of \<^verbatim>\<open>buffer/buffer_pool_manager_instance.cpp\<close>. The page table (an
  \<^verbatim>\<open>ExtendibleHashTable<page_id_t, frame_id_t>\<close> used through \<^verbatim>\<open>Find\<close>,
  \<^verbatim>\<open>Insert\<close> and \<^verbatim>\<open>Remove\<close>) is the finite map it implements; the disk manager is
  the map from page ids to page contents; \<^verbatim>\<open>ResetMemory\<close> writes the zero of the
  content type. A returned \<^verbatim>\<open>Page *\<close> is the frame index, \<open>None\<close> the null pointer.
  The outer \<open>option\<close> of each operation is \<open>None\<close> when an assertion of the replacer
  fails.
\<close>

record 'd Page =
  page_id :: int
  pin_count :: int
  is_dirty :: bool
  page_data :: 'd

definition INVALID_PAGE_ID :: int where
  "INVALID_PAGE_ID = - 1"

record 'd BufferPoolManagerInstance =
  pool_size :: nat
  pages :: "'d Page list"
  page_table :: "int \<rightharpoonup> nat"
  replacer :: LRUKReplacer
  free_list :: "nat list"
  next_page_id :: int
  disk :: "int \<Rightarrow> 'd"

definition BufferPoolManagerInstance_new ::
  "nat \<Rightarrow> nat \<Rightarrow> (int \<Rightarrow> 'd) \<Rightarrow> ('d::zero) BufferPoolManagerInstance" where
  "BufferPoolManagerInstance_new n replacer_k dsk =
     \<lparr>pool_size = n,
      pages = replicate n \<lparr>page_id = INVALID_PAGE_ID, pin_count = 0, is_dirty = False, page_data = 0\<rparr>,
      page_table = Map.empty,
      replacer = LRUKReplacer_new n replacer_k,
      free_list = [0..<n],
      next_page_id = 0,
      disk = dsk\<rparr>"

text \<open>\<^verbatim>\<open>replacer_->RecordAccess(frame_id); replacer_->SetEvictable(frame_id, false);\<close>\<close>

definition touch_frame :: "LRUKReplacer \<Rightarrow> nat \<Rightarrow> LRUKReplacer option" where
  "touch_frame r frame_id =
     (case RecordAccess r frame_id of
        None \<Rightarrow> None
      | Some r1 \<Rightarrow> SetEvictable r1 frame_id False)"

definition NewPgImp ::
  "('d::zero) BufferPoolManagerInstance \<Rightarrow> ((int \<times> nat) option \<times> 'd BufferPoolManagerInstance) option" where
  "NewPgImp s =
     (case (if free_list s \<noteq> [] then Some (hd (free_list s), s\<lparr>free_list := tl (free_list s)\<rparr>)
            else (case Evict (replacer s) of
                    (Some frame_id, rp) \<Rightarrow>
                      (let page = pages s ! frame_id
                       in Some (frame_id,
                            s\<lparr>replacer := rp,
                              page_table := (page_table s)(page_id page := None),
                              disk := (if is_dirty page
                                       then (disk s)(page_id page := page_data page)
                                       else disk s)\<rparr>))
                  | (None, rp) \<Rightarrow> None)) of
        None \<Rightarrow> Some (None, s)
      | Some (frame_id, s1) \<Rightarrow>
          (let pid = next_page_id s1;
               page = \<lparr>page_id = pid, pin_count = 1, is_dirty = False, page_data = 0\<rparr>
           in case touch_frame (replacer s1) frame_id of
                None \<Rightarrow> None
              | Some rp \<Rightarrow>
                  Some (Some (pid, frame_id),
                        s1\<lparr>next_page_id := pid + 1,
                           pages := (pages s1)[frame_id := page],
                           page_table := (page_table s1)(pid \<mapsto> frame_id),
                           replacer := rp\<rparr>)))"

definition FetchPgImp ::
  "('d::zero) BufferPoolManagerInstance \<Rightarrow> int \<Rightarrow>
     (nat option \<times> 'd BufferPoolManagerInstance) option" where
  "FetchPgImp s pid =
     (case page_table s pid of
        Some frame_id \<Rightarrow>
          (let page = pages s ! frame_id
           in case touch_frame (replacer s) frame_id of
                None \<Rightarrow> None
              | Some rp \<Rightarrow>
                  Some (Some frame_id,
                        s\<lparr>pages := (pages s)[frame_id := page\<lparr>pin_count := pin_count page + 1\<rparr>],
                          replacer := rp\<rparr>))
      | None \<Rightarrow>
          (case (if free_list s \<noteq> [] then Some (hd (free_list s), s\<lparr>free_list := tl (free_list s)\<rparr>)
                 else (case Evict (replacer s) of
                         (Some frame_id, rp) \<Rightarrow>
                           (let page = pages s ! frame_id
                            in Some (frame_id,
                                 s\<lparr>replacer := rp,
                                   disk := (if is_dirty page
                                            then (disk s)(page_id page := page_data page)
                                            else disk s),
                                   page_table := (page_table s)(page_id page := None)\<rparr>))
                       | (None, rp) \<Rightarrow> None)) of
             None \<Rightarrow> Some (None, s)
           | Some (frame_id, s1) \<Rightarrow>
               (let page = \<lparr>page_id = pid, pin_count = 1, is_dirty = False, page_data = disk s1 pid\<rparr>
                in case touch_frame (replacer s1) frame_id of
                     None \<Rightarrow> None
                   | Some rp \<Rightarrow>
                       Some (Some frame_id,
                             s1\<lparr>pages := (pages s1)[frame_id := page],
                                page_table := (page_table s1)(pid \<mapsto> frame_id),
                                replacer := rp\<rparr>))))"

definition UnpinPgImp ::
  "'d BufferPoolManagerInstance \<Rightarrow> int \<Rightarrow> bool \<Rightarrow> (bool \<times> 'd BufferPoolManagerInstance) option" where
  "UnpinPgImp s pid dirty =
     (case page_table s pid of
        None \<Rightarrow> Some (False, s)
      | Some frame_id \<Rightarrow>
          (let page = pages s ! frame_id
           in if pin_count page = 0 then Some (False, s)
              else
                (case (if pin_count page - 1 = 0 then SetEvictable (replacer s) frame_id True
                       else Some (replacer s)) of
                   None \<Rightarrow> None
                 | Some rp \<Rightarrow>
                     Some (True,
                           s\<lparr>pages := (pages s)[frame_id :=
                                page\<lparr>pin_count := pin_count page - 1,
                                     is_dirty := (is_dirty page \<or> dirty)\<rparr>],
                             replacer := rp\<rparr>))))"

definition FlushPgImp ::
  "'d BufferPoolManagerInstance \<Rightarrow> int \<Rightarrow> (bool \<times> 'd BufferPoolManagerInstance) option" where
  "FlushPgImp s pid =
     (case page_table s pid of
        None \<Rightarrow> Some (False, s)
      | Some frame_id \<Rightarrow>
          Some (True,
                s\<lparr>disk := (disk s)(pid := page_data (pages s ! frame_id)),
                  pages := (pages s)[frame_id := (pages s ! frame_id)\<lparr>is_dirty := False\<rparr>]\<rparr>))"

fun flush_all_loop :: "'d Page list \<Rightarrow> (int \<Rightarrow> 'd) \<Rightarrow> 'd Page list \<times> (int \<Rightarrow> 'd)" where
  "flush_all_loop [] dsk = ([], dsk)"
| "flush_all_loop (page # rest) dsk =
     (if page_id page \<noteq> INVALID_PAGE_ID
      then (case flush_all_loop rest (dsk(page_id page := page_data page)) of
              (ps, dsk') \<Rightarrow> (page\<lparr>is_dirty := False\<rparr> # ps, dsk'))
      else (case flush_all_loop rest dsk of (ps, dsk') \<Rightarrow> (page # ps, dsk')))"

definition FlushAllPgsImp ::
  "'d BufferPoolManagerInstance \<Rightarrow> (unit \<times> 'd BufferPoolManagerInstance) option" where
  "FlushAllPgsImp s =
     (case flush_all_loop (pages s) (disk s) of
        (ps, dsk) \<Rightarrow> Some ((), s\<lparr>pages := ps, disk := dsk\<rparr>))"

definition DeletePgImp ::
  "('d::zero) BufferPoolManagerInstance \<Rightarrow> int \<Rightarrow> (bool \<times> 'd BufferPoolManagerInstance) option" where
  "DeletePgImp s pid =
     (case page_table s pid of
        None \<Rightarrow> Some (True, s)
      | Some frame_id \<Rightarrow>
          (let page = pages s ! frame_id
           in if pin_count page > 0 then Some (False, s)
              else
                (case Remove (replacer s) frame_id of
                   None \<Rightarrow> None
                 | Some rp \<Rightarrow>
                     Some (True,
                           s\<lparr>page_table := (page_table s)(pid := None),
                             replacer := rp,
                             free_list := free_list s @ [frame_id],
                             pages := (pages s)[frame_id :=
                                page\<lparr>page_data := 0, is_dirty := False,
                                     page_id := INVALID_PAGE_ID\<rparr>]\<rparr>))))"

datatype bpm_op =
  OpNewPage | OpFetchPage int | OpUnpinPage int bool | OpFlushPage int | OpFlushAll
| OpDeletePage int

fun bpm_apply ::
  "bpm_op \<Rightarrow> ('d::zero) BufferPoolManagerInstance \<Rightarrow> 'd BufferPoolManagerInstance option" where
  "bpm_apply OpNewPage s = map_option snd (NewPgImp s)"
| "bpm_apply (OpFetchPage pid) s = map_option snd (FetchPgImp s pid)"
| "bpm_apply (OpUnpinPage pid d) s = map_option snd (UnpinPgImp s pid d)"
| "bpm_apply (OpFlushPage pid) s = map_option snd (FlushPgImp s pid)"
| "bpm_apply OpFlushAll s = map_option snd (FlushAllPgsImp s)"
| "bpm_apply (OpDeletePage pid) s = map_option snd (DeletePgImp s pid)"

fun bpm_run ::
  "bpm_op list \<Rightarrow> ('d::zero) BufferPoolManagerInstance \<Rightarrow> 'd BufferPoolManagerInstance option" where
  "bpm_run [] s = Some s"
| "bpm_run (x # xs) s = (case bpm_apply x s of None \<Rightarrow> None | Some s' \<Rightarrow> bpm_run xs s')"

text \<open>\<open>n\<close> consecutive \<^verbatim>\<open>NewPage\<close> calls: for each, whether it returned a page.\<close>

fun new_pages :: "nat \<Rightarrow> ('d::zero) BufferPoolManagerInstance \<Rightarrow> bool list" where
  "new_pages 0 s = []"
| "new_pages (Suc n) s =
     (case NewPgImp s of
        None \<Rightarrow> []
      | Some (res, s') \<Rightarrow> (res \<noteq> None) # new_pages n s')"

text \<open>\<^verbatim>\<open>NewPage\<close> followed by \<^verbatim>\<open>UnpinPage\<close> of the page it returned, \<open>n\<close> times.\<close>

fun new_unpin_pages :: "nat \<Rightarrow> ('d::zero) BufferPoolManagerInstance \<Rightarrow> bool list" where
  "new_unpin_pages 0 s = []"
| "new_unpin_pages (Suc n) s =
     (case NewPgImp s of
        None \<Rightarrow> []
      | Some (None, s') \<Rightarrow> False # new_unpin_pages n s'
      | Some (Some (pid, f), s') \<Rightarrow>
          (case UnpinPgImp s' pid False of
             None \<Rightarrow> []
           | Some (b, s'') \<Rightarrow> True # new_unpin_pages n s''))"

definition all_pinned :: "'d BufferPoolManagerInstance \<Rightarrow> bool" where
  "all_pinned s = (\<forall>f \<in> set [0..<pool_size s]. 0 < pin_count (pages s ! f))"

text \<open>The invariant of the buffer pool states that the operations produce.\<close>

definition bpm_inv :: "'d BufferPoolManagerInstance \<Rightarrow> bool" where
  "bpm_inv s =
     (length (pages s) = pool_size s \<and>
      replacer_size (replacer s) = pool_size s \<and>
      length (frames (replacer s)) = pool_size s + 1 \<and>
      distinct (free_list s) \<and>
      (\<forall>f \<in> set (free_list s). f < pool_size s \<and> pin_count (pages s ! f) = 0) \<and>
      (\<forall>pid f. page_table s pid = Some f \<longrightarrow>
         f < pool_size s \<and> f \<notin> set (free_list s) \<and> page_id (pages s ! f) = pid) \<and>
      (\<forall>f < pool_size s. 0 \<le> pin_count (pages s ! f) \<and>
         (f \<notin> set (free_list s) \<longrightarrow>
            valid (frames (replacer s) ! f) \<and>
            (evictable (frames (replacer s) ! f) \<longleftrightarrow> pin_count (pages s ! f) = 0))))"

text \<open>The frames outside the free list all hold pinned pages.\<close>

definition used_pinned :: "'d BufferPoolManagerInstance \<Rightarrow> bool" where
  "used_pinned s = (\<forall>f<pool_size s. f \<notin> set (free_list s) \<longrightarrow> 0 < pin_count (pages s ! f))"

unbundle bit_operations_syntax

section \<open>Extendible hash table\<close>

text \<open>
  The table of \<^verbatim>\<open>container/hash/extendible_hash_table.cpp\<close>. The directory is a vector
  of shared pointers to buckets: several slots may point to one bucket, so the model keeps
  the buckets in a store (a list indexed by address; \<^verbatim>\<open>make_shared\<close> appends) and the
  directory holds addresses. \<^verbatim>\<open>std::hash<K>\<close> is the parameter \<open>h\<close>. The shifts are
  on \<^verbatim>\<open>int\<close> and \<^verbatim>\<open>unsigned long long\<close> in the code; the model computes on natural
  numbers, that is, below the depth at which \<^verbatim>\<open>1 << global_depth_\<close> overflows.
  The inline members \<^verbatim>\<open>IsFull\<close>, \<^verbatim>\<open>GetDepth\<close> and \<^verbatim>\<open>GetItems\<close> of the bucket are
  in the header: a bucket is full when its list holds \<^verbatim>\<open>size_\<close> entries.
\<close>

record ('k, 'v) Bucket =
  bucket_cap :: nat
  bucket_depth :: nat
  bucket_items :: "('k \<times> 'v) list"

record ('k, 'v) ExtendibleHashTable =
  global_depth :: nat
  bucket_size :: nat
  num_buckets :: nat
  dir :: "nat list"
  store :: "('k, 'v) Bucket list"

definition Bucket_new :: "nat \<Rightarrow> nat \<Rightarrow> ('k, 'v) Bucket" where
  "Bucket_new array_size d = \<lparr>bucket_cap = array_size, bucket_depth = d, bucket_items = []\<rparr>"

definition ExtendibleHashTable_new :: "nat \<Rightarrow> ('k, 'v) ExtendibleHashTable" where
  "ExtendibleHashTable_new sz =
     \<lparr>global_depth = 0, bucket_size = sz, num_buckets = 1, dir = [0],
      store = [Bucket_new sz 0]\<rparr>"

definition Bucket_IsFull :: "('k, 'v) Bucket \<Rightarrow> bool" where
  "Bucket_IsFull b = (length (bucket_items b) = bucket_cap b)"

definition Bucket_Find :: "('k, 'v) Bucket \<Rightarrow> 'k \<Rightarrow> 'v option" where
  "Bucket_Find b key = map_of (bucket_items b) key"

text \<open>\<^verbatim>\<open>Bucket::Remove\<close>: erase the first entry with the key.\<close>

fun remove_first :: "'k \<Rightarrow> ('k \<times> 'v) list \<Rightarrow> ('k \<times> 'v) list" where
  "remove_first key [] = []"
| "remove_first key (p # ps) = (if fst p = key then ps else p # remove_first key ps)"

definition Bucket_Remove :: "('k, 'v) Bucket \<Rightarrow> 'k \<Rightarrow> bool \<times> ('k, 'v) Bucket" where
  "Bucket_Remove b key =
     (if key \<in> fst ` set (bucket_items b)
      then (True, b\<lparr>bucket_items := remove_first key (bucket_items b)\<rparr>)
      else (False, b))"

text \<open>\<^verbatim>\<open>Bucket::Insert\<close>: overwrite the first entry with the key, else append when not full.\<close>

fun update_first :: "'k \<Rightarrow> 'v \<Rightarrow> ('k \<times> 'v) list \<Rightarrow> ('k \<times> 'v) list" where
  "update_first key val [] = []"
| "update_first key val (p # ps) =
     (if fst p = key then (key, val) # ps else p # update_first key val ps)"

definition Bucket_Insert :: "('k, 'v) Bucket \<Rightarrow> 'k \<Rightarrow> 'v \<Rightarrow> bool \<times> ('k, 'v) Bucket" where
  "Bucket_Insert b key val =
     (if key \<in> fst ` set (bucket_items b)
      then (True, b\<lparr>bucket_items := update_first key val (bucket_items b)\<rparr>)
      else if Bucket_IsFull b then (False, b)
      else (True, b\<lparr>bucket_items := bucket_items b @ [(key, val)]\<rparr>))"

definition IndexOf :: "('k \<Rightarrow> nat) \<Rightarrow> ('k, 'v) ExtendibleHashTable \<Rightarrow> 'k \<Rightarrow> nat" where
  "IndexOf h t key = h key AND (push_bit (global_depth t) 1 - 1)"

definition ExtendibleHashTable_Find :: "('k \<Rightarrow> nat) \<Rightarrow> ('k, 'v) ExtendibleHashTable \<Rightarrow> 'k \<Rightarrow> 'v option" where
  "ExtendibleHashTable_Find h t key = Bucket_Find (store t ! (dir t ! IndexOf h t key)) key"

definition ExtendibleHashTable_Remove ::
  "('k \<Rightarrow> nat) \<Rightarrow> ('k, 'v) ExtendibleHashTable \<Rightarrow> 'k \<Rightarrow> bool \<times> ('k, 'v) ExtendibleHashTable" where
  "ExtendibleHashTable_Remove h t key =
     (let a = dir t ! IndexOf h t key
      in case Bucket_Remove (store t ! a) key of
           (res, b) \<Rightarrow> (res, t\<lparr>store := (store t)[a := b]\<rparr>))"

text \<open>\<^verbatim>\<open>RedistributeBucket\<close>: re-insert the entries of the bucket that was split.\<close>

fun redistribute ::
  "('k \<Rightarrow> nat) \<Rightarrow> ('k \<times> 'v) list \<Rightarrow> ('k, 'v) ExtendibleHashTable \<Rightarrow> ('k, 'v) ExtendibleHashTable" where
  "redistribute h [] t = t"
| "redistribute h ((key, val) # rest) t =
     (let a = dir t ! IndexOf h t key
      in redistribute h rest (t\<lparr>store := (store t)[a := snd (Bucket_Insert (store t ! a) key val)]\<rparr>))"

definition RedistributeBucket ::
  "('k \<Rightarrow> nat) \<Rightarrow> ('k, 'v) ExtendibleHashTable \<Rightarrow> nat \<Rightarrow> ('k, 'v) ExtendibleHashTable" where
  "RedistributeBucket h t a = redistribute h (bucket_items (store t ! a)) t"

text \<open>The directory doubling of \<^verbatim>\<open>Insert\<close> (lines 93 to 99).\<close>

definition grow_dir :: "('k, 'v) ExtendibleHashTable \<Rightarrow> ('k, 'v) ExtendibleHashTable" where
  "grow_dir t =
     (let g = global_depth t + 1
      in t\<lparr>global_depth := g,
           dir := map (\<lambda>i. dir t ! (i AND (push_bit (g - 1) 1 - 1))) [0..<push_bit g 1]\<rparr>)"

text \<open>The loop that points the slots of the split bucket to the two new buckets.\<close>

definition repoint :: "nat \<Rightarrow> nat \<Rightarrow> nat \<Rightarrow> nat \<Rightarrow> nat \<Rightarrow> nat list \<Rightarrow> nat list" where
  "repoint n old_depth msk bucket0 bucket1 d =
     fold (\<lambda>i d. d[push_bit old_depth i OR msk := (if i AND 1 = 1 then bucket1 else bucket0)])
       [0..<n] d"

text \<open>One pass of the \<^verbatim>\<open>while (true)\<close> body after the bucket refused the entry.\<close>

definition split_bucket ::
  "('k \<Rightarrow> nat) \<Rightarrow> ('k, 'v) ExtendibleHashTable \<Rightarrow> nat \<Rightarrow> ('k, 'v) ExtendibleHashTable" where
  "split_bucket h t index =
     (let old_depth = bucket_depth (store t ! (dir t ! index));
          t1 = (if old_depth = global_depth t then grow_dir t else t);
          old_bucket = dir t1 ! index;
          bucket0 = length (store t1);
          bucket1 = length (store t1) + 1;
          msk = index AND (push_bit old_depth 1 - 1);
          t2 = t1\<lparr>store := store t1 @ [Bucket_new (bucket_size t1) (old_depth + 1),
                                         Bucket_new (bucket_size t1) (old_depth + 1)],
                  dir := repoint (push_bit (global_depth t1 - old_depth) 1) old_depth msk
                           bucket0 bucket1 (dir t1)\<rparr>;
          t3 = RedistributeBucket h t2 old_bucket
      in t3\<lparr>num_buckets := num_buckets t3 + 1\<rparr>)"

text \<open>
  \<^verbatim>\<open>Insert\<close>: the loop may split again and again (it does so forever when more entries
  than a bucket holds share one hash value), so the model counts the passes: \<open>None\<close> when
  the given number of passes does not suffice.
\<close>

fun ExtendibleHashTable_Insert ::
  "nat \<Rightarrow> ('k \<Rightarrow> nat) \<Rightarrow> ('k, 'v) ExtendibleHashTable \<Rightarrow> 'k \<Rightarrow> 'v \<Rightarrow>
     ('k, 'v) ExtendibleHashTable option" where
  "ExtendibleHashTable_Insert 0 h t key val = None"
| "ExtendibleHashTable_Insert (Suc fuel) h t key val =
     (let index = IndexOf h t key;
          a = dir t ! index
      in case Bucket_Insert (store t ! a) key val of
           (True, b) \<Rightarrow> Some (t\<lparr>store := (store t)[a := b]\<rparr>)
         | (False, b) \<Rightarrow> ExtendibleHashTable_Insert fuel h (split_bucket h t index) key val)"

datatype ('k, 'v) table_op = TableInsert 'k 'v | TableRemove 'k | TableFind 'k

fun table_apply ::
  "nat \<Rightarrow> ('k \<Rightarrow> nat) \<Rightarrow> ('k, 'v) table_op \<Rightarrow> ('k, 'v) ExtendibleHashTable \<Rightarrow>
     ('k, 'v) ExtendibleHashTable option" where
  "table_apply fuel h (TableInsert key val) t = ExtendibleHashTable_Insert fuel h t key val"
| "table_apply fuel h (TableRemove key) t = Some (snd (ExtendibleHashTable_Remove h t key))"
| "table_apply fuel h (TableFind key) t = (case ExtendibleHashTable_Find h t key of _ \<Rightarrow> Some t)"

fun table_run ::
  "nat \<Rightarrow> ('k \<Rightarrow> nat) \<Rightarrow> ('k, 'v) table_op list \<Rightarrow> ('k, 'v) ExtendibleHashTable \<Rightarrow>
     ('k, 'v) ExtendibleHashTable option" where
  "table_run fuel h [] t = Some t"
| "table_run fuel h (x # xs) t =
     (case table_apply fuel h x t of None \<Rightarrow> None | Some t' \<Rightarrow> table_run fuel h xs t')"

text \<open>
  The directory invariant of the claim: every slot holds the address of a bucket whose
  local depth is at most the global depth, and two slots hold the same address exactly when
  they agree on the low \<open>local depth\<close> bits (so the low bits of any slot of a bucket are
  the stamp of the bucket).
\<close>

definition GetLocalDepth :: "('k, 'v) ExtendibleHashTable \<Rightarrow> nat \<Rightarrow> nat" where
  "GetLocalDepth t dir_index = bucket_depth (store t ! (dir t ! dir_index))"

definition slot_ok :: "('k, 'v) ExtendibleHashTable \<Rightarrow> nat \<Rightarrow> bool" where
  "slot_ok t i =
     (dir t ! i < length (store t) \<and> GetLocalDepth t i \<le> global_depth t \<and>
      (\<forall>j \<in> set [0..<length (dir t)].
         (dir t ! j = dir t ! i) =
         (j AND (push_bit (GetLocalDepth t i) 1 - 1) = i AND (push_bit (GetLocalDepth t i) 1 - 1))))"

definition dir_inv :: "('k, 'v) ExtendibleHashTable \<Rightarrow> bool" where
  "dir_inv t =
     (length (dir t) = push_bit (global_depth t) 1 \<and>
      (\<forall>i \<in> set [0..<length (dir t)]. slot_ok t i))"

text \<open>The invariant on the bare data: global depth, directory, local depths by address.\<close>

definition dinv :: "nat \<Rightarrow> nat list \<Rightarrow> nat list \<Rightarrow> bool" where
  "dinv g d ls =
     (length d = 2 ^ g \<and>
      (\<forall>i<2 ^ g. d ! i < length ls \<and> ls ! (d ! i) \<le> g \<and>
         (\<forall>j<2 ^ g. (d ! j = d ! i) = (j mod 2 ^ (ls ! (d ! i)) = i mod 2 ^ (ls ! (d ! i))))))"

definition example_ops :: "(nat, nat) table_op list" where
  "example_ops =
     [TableInsert 1 10, TableInsert 2 20, TableInsert 3 30, TableInsert 4 40, TableInsert 5 50, TableInsert 9 0,
      TableFind 3, TableRemove 1, TableInsert 13 0, TableInsert 8 0]"

section \<open>Sort and TopN executors\<close>

text \<open>
  The executors of \<^verbatim>\<open>execution/sort_executor.cpp\<close> and
  \<^verbatim>\<open>execution/topn_executor.cpp\<close>. A tuple is any value of type \<open>'t\<close>; an order-by key
  is a direction and an expression, and \<^verbatim>\<open>Evaluate\<close> of the expression on a tuple is a
  function \<open>'t \<Rightarrow> 'v\<close>. The three comparisons of the type system (\<^verbatim>\<open>CompareEquals\<close>,
  \<^verbatim>\<open>CompareLessThan\<close>, \<^verbatim>\<open>CompareGreaterThan\<close>, each answering a \<^verbatim>\<open>CmpBool\<close>) are
  outside the sources and are the fields of \<open>ValueOps\<close>.
\<close>

datatype CmpBool = CmpFalse | CmpTrue | CmpNull

datatype OrderByType = INVALID | DEFAULT | ASC | DESC

record 'v ValueOps =
  CompareEquals :: "'v \<Rightarrow> 'v \<Rightarrow> CmpBool"
  CompareLessThan :: "'v \<Rightarrow> 'v \<Rightarrow> CmpBool"
  CompareGreaterThan :: "'v \<Rightarrow> 'v \<Rightarrow> CmpBool"

text \<open>The comparison lambda that both executors pass to the standard library.\<close>

fun tuple_cmp :: "'v ValueOps \<Rightarrow> (OrderByType \<times> ('t \<Rightarrow> 'v)) list \<Rightarrow> 't \<Rightarrow> 't \<Rightarrow> bool" where
  "tuple_cmp ops [] a b = False"
| "tuple_cmp ops (order_key # rest) a b =
     (let va = snd order_key a; vb = snd order_key b
      in if CompareEquals ops va vb \<noteq> CmpTrue
         then (if fst order_key = DESC then CompareGreaterThan ops va vb = CmpTrue
               else CompareLessThan ops va vb = CmpTrue)
         else tuple_cmp ops rest a b)"

subsection \<open>The standard library: \<^verbatim>\<open>std::sort\<close> and \<^verbatim>\<open>std::priority_queue\<close>\<close>

text \<open>
  \<^verbatim>\<open>std::sort\<close> as libstdc++ runs it on a range of at most 16 elements: insertion sort.
  Each element is moved to the front when it is less than the first one, and otherwise
  moved left past the elements it is less than (\<open>linear_insert\<close> works on the reversed
  sorted prefix). On a range without ties every correct sorting algorithm returns this
  result.
\<close>

fun linear_insert :: "('t \<Rightarrow> 't \<Rightarrow> bool) \<Rightarrow> 't \<Rightarrow> 't list \<Rightarrow> 't list" where
  "linear_insert cmp v [] = [v]"
| "linear_insert cmp v (e # es) =
     (if cmp v e then e # linear_insert cmp v es else v # e # es)"

fun insertion_sort :: "('t \<Rightarrow> 't \<Rightarrow> bool) \<Rightarrow> 't list \<Rightarrow> 't list \<Rightarrow> 't list" where
  "insertion_sort cmp sorted_part [] = sorted_part"
| "insertion_sort cmp sorted_part (v # rest) =
     (case sorted_part of
        [] \<Rightarrow> insertion_sort cmp [v] rest
      | first # _ \<Rightarrow>
          if cmp v first then insertion_sort cmp (v # sorted_part) rest
          else insertion_sort cmp (rev (linear_insert cmp v (rev sorted_part))) rest)"

definition std_sort :: "('t \<Rightarrow> 't \<Rightarrow> bool) \<Rightarrow> 't list \<Rightarrow> 't list" where
  "std_sort cmp xs = insertion_sort cmp [] xs"

text \<open>
  \<^verbatim>\<open>std::priority_queue\<close> over a vector: \<^verbatim>\<open>push\<close> is \<^verbatim>\<open>push_back\<close> and
  \<^verbatim>\<open>std::push_heap\<close>, \<^verbatim>\<open>pop\<close> is \<^verbatim>\<open>std::pop_heap\<close> and \<^verbatim>\<open>pop_back\<close>,
  \<^verbatim>\<open>top\<close> is \<^verbatim>\<open>front\<close>. The heap algorithms are those of libstdc++:
  \<^verbatim>\<open>__push_heap\<close> moves a hole up while the parent is less than the value;
  \<^verbatim>\<open>__adjust_heap\<close> moves the hole down to a leaf along the larger children and then
  pushes the value up from there.
\<close>

function push_heap_loop :: "('t \<Rightarrow> 't \<Rightarrow> bool) \<Rightarrow> 't list \<Rightarrow> nat \<Rightarrow> nat \<Rightarrow> 't \<Rightarrow> 't list" where
  "push_heap_loop cmp c holeIndex topIndex v =
     (if holeIndex > topIndex \<and> cmp (c ! ((holeIndex - 1) div 2)) v
      then push_heap_loop cmp (c[holeIndex := c ! ((holeIndex - 1) div 2)])
             ((holeIndex - 1) div 2) topIndex v
      else c[holeIndex := v])"
  by pat_completeness auto
termination
  by (relation "measure (\<lambda>(cmp, c, holeIndex, topIndex, v). holeIndex)") auto

declare push_heap_loop.simps [simp del]

definition push_heap :: "('t \<Rightarrow> 't \<Rightarrow> bool) \<Rightarrow> 't list \<Rightarrow> 't list" where
  "push_heap cmp c = push_heap_loop cmp c (length c - 1) 0 (c ! (length c - 1))"

function adjust_down :: "('t \<Rightarrow> 't \<Rightarrow> bool) \<Rightarrow> 't list \<Rightarrow> nat \<Rightarrow> nat \<Rightarrow> 't list \<times> nat" where
  "adjust_down cmp c secondChild len =
     (if secondChild < (len - 1) div 2
      then (let sc = 2 * (secondChild + 1);
                sc' = (if cmp (c ! sc) (c ! (sc - 1)) then sc - 1 else sc)
            in adjust_down cmp (c[secondChild := c ! sc']) sc' len)
      else (c, secondChild))"
  by pat_completeness auto
termination
  by (relation "measure (\<lambda>(cmp, c, secondChild, len). len - secondChild)") auto

declare adjust_down.simps [simp del]

definition adjust_heap :: "('t \<Rightarrow> 't \<Rightarrow> bool) \<Rightarrow> 't list \<Rightarrow> nat \<Rightarrow> nat \<Rightarrow> 't \<Rightarrow> 't list" where
  "adjust_heap cmp c holeIndex len v =
     (case adjust_down cmp c holeIndex len of
        (c1, secondChild) \<Rightarrow>
          if even len \<and> 2 \<le> len \<and> secondChild = (len - 2) div 2
          then push_heap_loop cmp (c1[secondChild := c1 ! (2 * (secondChild + 1) - 1)])
                 (2 * (secondChild + 1) - 1) holeIndex v
          else push_heap_loop cmp c1 secondChild holeIndex v)"

definition pop_heap :: "('t \<Rightarrow> 't \<Rightarrow> bool) \<Rightarrow> 't list \<Rightarrow> 't list" where
  "pop_heap cmp c =
     (if length c > 1
      then (let v = c ! (length c - 1)
            in adjust_heap cmp (c[length c - 1 := c ! 0]) 0 (length c - 1) v)
      else c)"

definition pq_push :: "('t \<Rightarrow> 't \<Rightarrow> bool) \<Rightarrow> 't list \<Rightarrow> 't \<Rightarrow> 't list" where
  "pq_push cmp q x = push_heap cmp (q @ [x])"

definition pq_pop :: "('t \<Rightarrow> 't \<Rightarrow> bool) \<Rightarrow> 't list \<Rightarrow> 't list" where
  "pq_pop cmp q = butlast (pop_heap cmp q)"

definition pq_top :: "'t list \<Rightarrow> 't" where
  "pq_top q = q ! 0"

subsection \<open>The executors\<close>

text \<open>\<^verbatim>\<open>SortExecutor::Init\<close>: drain the child, sort; \<^verbatim>\<open>Next\<close> then emits the vector in order.\<close>

definition SortExecutor_Init ::
  "'v ValueOps \<Rightarrow> (OrderByType \<times> ('t \<Rightarrow> 'v)) list \<Rightarrow> 't list \<Rightarrow> 't list" where
  "SortExecutor_Init ops order_bys child = std_sort (tuple_cmp ops order_bys) child"

text \<open>
  The first loop of \<^verbatim>\<open>TopNExecutor::Init\<close>: push each child tuple, pop when the queue
  holds more than \<open>N\<close>. \<open>topn_sizes\<close> lists the size of the queue after every push.
\<close>

fun topn_fill :: "('t \<Rightarrow> 't \<Rightarrow> bool) \<Rightarrow> nat \<Rightarrow> 't list \<Rightarrow> 't list \<Rightarrow> 't list" where
  "topn_fill cmp n q [] = q"
| "topn_fill cmp n q (tuple # rest) =
     (let q1 = pq_push cmp q tuple
      in topn_fill cmp n (if length q1 > n then pq_pop cmp q1 else q1) rest)"

fun topn_sizes :: "('t \<Rightarrow> 't \<Rightarrow> bool) \<Rightarrow> nat \<Rightarrow> 't list \<Rightarrow> 't list \<Rightarrow> nat list" where
  "topn_sizes cmp n q [] = []"
| "topn_sizes cmp n q (tuple # rest) =
     (let q1 = pq_push cmp q tuple
      in length q1 # topn_sizes cmp n (if length q1 > n then pq_pop cmp q1 else q1) rest)"

text \<open>The second loop: move the top to the output until the queue is empty.\<close>

function topn_drain :: "('t \<Rightarrow> 't \<Rightarrow> bool) \<Rightarrow> 't list \<Rightarrow> 't list \<Rightarrow> 't list" where
  "topn_drain cmp q tuples =
     (if q \<noteq> [] then topn_drain cmp (pq_pop cmp q) (tuples @ [pq_top q]) else tuples)"
  by pat_completeness auto
termination
proof (relation "measure (\<lambda>(cmp, q, tuples). length q)")
  show "wf (measure (\<lambda>(cmp, q, tuples). length q))" by simp
next
  fix cmp :: "'t \<Rightarrow> 't \<Rightarrow> bool" and q tuples :: "'t list"
  assume ne: "q \<noteq> []"
  have up: "length (push_heap_loop f c h t v) = length c" for f :: "'t \<Rightarrow> 't \<Rightarrow> bool" and c h t v
    by (induction f c h t v rule: push_heap_loop.induct)
       (subst push_heap_loop.simps, simp)
  have down: "length (fst (adjust_down f c s len)) = length c"
    for f :: "'t \<Rightarrow> 't \<Rightarrow> bool" and c s len
    by (induction f c s len rule: adjust_down.induct)
       (subst adjust_down.simps, simp add: Let_def)
  have "length (pq_pop cmp q) = length q - 1"
    by (simp add: pq_pop_def pop_heap_def adjust_heap_def Let_def up split: prod.splits)
       (metis fst_conv down length_list_update)
  with ne show "((cmp, pq_pop cmp q, tuples @ [pq_top q]), (cmp, q, tuples))
                  \<in> measure (\<lambda>(cmp, q, tuples). length q)"
    by simp
qed

declare topn_drain.simps [simp del]

text \<open>
  \<^verbatim>\<open>TopNExecutor::Init\<close>: fill, drain, reverse; \<^verbatim>\<open>Next\<close> then emits the vector in
  order.
\<close>

definition TopNExecutor_Init ::
  "'v ValueOps \<Rightarrow> (OrderByType \<times> ('t \<Rightarrow> 'v)) list \<Rightarrow> nat \<Rightarrow> 't list \<Rightarrow> 't list" where
  "TopNExecutor_Init ops order_bys n child =
     rev (topn_drain (tuple_cmp ops order_bys) (topn_fill (tuple_cmp ops order_bys) n [] child) [])"

definition TopNExecutor_heap_sizes ::
  "'v ValueOps \<Rightarrow> (OrderByType \<times> ('t \<Rightarrow> 'v)) list \<Rightarrow> nat \<Rightarrow> 't list \<Rightarrow> nat list" where
  "TopNExecutor_heap_sizes ops order_bys n child = topn_sizes (tuple_cmp ops order_bys) n [] child"

text \<open>Integer values for evaluation: a pair of columns, ordered by the first.\<close>

definition int_ops :: "int ValueOps" where
  "int_ops =
     \<lparr>CompareEquals = (\<lambda>a b. if a = b then CmpTrue else CmpFalse),
      CompareLessThan = (\<lambda>a b. if a < b then CmpTrue else CmpFalse),
      CompareGreaterThan = (\<lambda>a b. if a > b then CmpTrue else CmpFalse)\<rparr>"

text \<open>
  A comparison that is a strict linear order on a set of tuples: no two different tuples
  of the set tie.
\<close>

definition strict_linear_on :: "'t set \<Rightarrow> ('t \<Rightarrow> 't \<Rightarrow> bool) \<Rightarrow> bool" where
  "strict_linear_on S cmp =
     ((\<forall>a \<in> S. \<not> cmp a a) \<and>
      (\<forall>a \<in> S. \<forall>b \<in> S. \<forall>c \<in> S. cmp a b \<longrightarrow> cmp b c \<longrightarrow> cmp a c) \<and>
      (\<forall>a \<in> S. \<forall>b \<in> S. a \<noteq> b \<longrightarrow> cmp a b \<or> cmp b a))"

text \<open>The heap property on the first \<open>len\<close> elements, and the state of a hole moving up.\<close>

definition heap_ok :: "('t \<Rightarrow> 't \<Rightarrow> bool) \<Rightarrow> 't list \<Rightarrow> nat \<Rightarrow> bool" where
  "heap_ok cmp c len = (\<forall>i. 0 < i \<and> i < len \<longrightarrow> \<not> cmp (c ! ((i - 1) div 2)) (c ! i))"

definition up_inv :: "('t \<Rightarrow> 't \<Rightarrow> bool) \<Rightarrow> 't list \<Rightarrow> nat \<Rightarrow> nat \<Rightarrow> 't \<Rightarrow> bool" where
  "up_inv cmp c len hole v =
     (hole < len \<and>
      (\<forall>i. 0 < i \<and> i < len \<and> i \<noteq> hole \<longrightarrow> \<not> cmp (c ! ((i - 1) div 2)) (c ! i)) \<and>
      (\<forall>k. 0 < k \<and> k < len \<and> (k - 1) div 2 = hole \<longrightarrow>
          \<not> cmp v (c ! k) \<and> (0 < hole \<longrightarrow> \<not> cmp (c ! ((hole - 1) div 2)) (c ! k))))"

text \<open>
  The elements in play, a well-formed queue, and a collection of tuples (with their
  repetitions) that holds none above one that it leaves out.
\<close>

definition elems_in :: "'t list \<Rightarrow> nat \<Rightarrow> 't set \<Rightarrow> bool" where
  "elems_in c len S = (\<forall>i<len. c ! i \<in> S)"

definition pq_ok :: "'t set \<Rightarrow> ('t \<Rightarrow> 't \<Rightarrow> bool) \<Rightarrow> 't list \<Rightarrow> bool" where
  "pq_ok S cmp q = (heap_ok cmp q (length q) \<and> set q \<subseteq> S)"

definition low_mset :: "('t \<Rightarrow> 't \<Rightarrow> bool) \<Rightarrow> 't multiset \<Rightarrow> 't multiset \<Rightarrow> bool" where
  "low_mset cmp U A = (\<forall>a \<in># U - A. \<forall>b \<in># A. \<not> cmp a b)"

section \<open>B+ tree index\<close>

text \<open>
  The index of \<^verbatim>\<open>storage/index/b_plus_tree.cpp\<close> with its pages
  (\<^verbatim>\<open>b_plus_tree_leaf_page.cpp\<close>, \<^verbatim>\<open>b_plus_tree_internal_page.cpp\<close>) and its
  iterator (\<^verbatim>\<open>index_iterator.cpp\<close>), run by one thread. In the search, in
  \<^verbatim>\<open>Insert\<close> and in the iterator the latches and the transaction's page set only
  release what the same call has taken, so they are left out there; \<^verbatim>\<open>Remove\<close>
  latches a sibling while it holds the latches of its path, and is modelled with its
  latches, pins and page set.

  The tree reaches its pages through the buffer pool only. The pool is taken with
  enough frames, so it is a store from page ids to page contents: \<^verbatim>\<open>NewPage\<close>
  hands out the next page id, \<^verbatim>\<open>FetchPage\<close> returns the page last written
  under an id, and \<^verbatim>\<open>DeletePage\<close> drops it. Pointers to pages are page ids
  into this store, so two pointers to one page see each other's writes.

  A page keeps the entries below its size as a list. A read at or past the size, a failed
  \<^verbatim>\<open>BUSTUB_ASSERT\<close>, a fetch of a page that the store does not hold and a cast to
  the wrong page type are the result \<open>None\<close>. Keys are compared by the three-way
  comparator of a linear order.
\<close>

definition comparator :: "'k::linorder \<Rightarrow> 'k \<Rightarrow> int" where
  "comparator a b = (if a < b then - 1 else if a = b then 0 else 1)"

datatype ('k, 'v) BPlusTreePage =
    LeafPage (GetPageId: int) (GetParentPageId: int) (GetMaxSize: nat) (GetNextPageId: int)
      (leaf_array: "('k \<times> 'v) list")
  | InternalPage (GetPageId: int) (GetParentPageId: int) (GetMaxSize: nat)
      (internal_array: "('k \<times> int) list")

record ('k, 'v) BPlusTree =
  root_page_id :: int
  leaf_max_size :: nat
  internal_max_size :: nat
  tree_pages :: "int \<rightharpoonup> ('k, 'v) BPlusTreePage"
  tree_next_page_id :: int

subsection \<open>The page header\<close>

fun IsLeafPage :: "('k, 'v) BPlusTreePage \<Rightarrow> bool" where
  "IsLeafPage (LeafPage _ _ _ _ _) = True"
| "IsLeafPage (InternalPage _ _ _ _) = False"

fun GetSize :: "('k, 'v) BPlusTreePage \<Rightarrow> nat" where
  "GetSize (LeafPage _ _ _ _ arr) = length arr"
| "GetSize (InternalPage _ _ _ arr) = length arr"

fun SetParentPageId :: "int \<Rightarrow> ('k, 'v) BPlusTreePage \<Rightarrow> ('k, 'v) BPlusTreePage" where
  "SetParentPageId parent_id (LeafPage pid _ mx nx arr) = LeafPage pid parent_id mx nx arr"
| "SetParentPageId parent_id (InternalPage pid _ mx arr) = InternalPage pid parent_id mx arr"

text \<open>
  Modelled from the spec: \<^verbatim>\<open>b_plus_tree_page.cpp\<close> is not among the sources. The root
  is the page without a parent (the tree gives its root the parent
  \<^verbatim>\<open>INVALID_PAGE_ID\<close>), and a page's minimum size is half its maximum size,
  rounded up, for leaves and for internal pages.
\<close>

definition IsRootPage :: "('k, 'v) BPlusTreePage \<Rightarrow> bool" where
  "IsRootPage node = (GetParentPageId node = INVALID_PAGE_ID)"

definition GetMinSize :: "('k, 'v) BPlusTreePage \<Rightarrow> nat" where
  "GetMinSize node = (GetMaxSize node + 1) div 2"

fun keys_of :: "('k, 'v) BPlusTreePage \<Rightarrow> 'k list" where
  "keys_of (LeafPage _ _ _ _ arr) = map fst arr"
| "keys_of (InternalPage _ _ _ arr) = map fst arr"

text \<open>\<^verbatim>\<open>KeyAt\<close> and \<^verbatim>\<open>ValueAt\<close>, the same in both page classes.\<close>

definition in_range :: "('k, 'v) BPlusTreePage \<Rightarrow> int \<Rightarrow> bool" where
  "in_range node index = (0 \<le> index \<and> index < int (GetMaxSize node) \<and> index < int (GetSize node))"

definition KeyAt :: "('k, 'v) BPlusTreePage \<Rightarrow> int \<Rightarrow> 'k option" where
  "KeyAt node index = (if in_range node index then Some (keys_of node ! nat index) else None)"

definition Leaf_ValueAt :: "('k, 'v) BPlusTreePage \<Rightarrow> int \<Rightarrow> 'v option" where
  "Leaf_ValueAt node index =
     (case node of
        LeafPage _ _ _ _ arr \<Rightarrow> if in_range node index then Some (snd (arr ! nat index)) else None
      | InternalPage _ _ _ _ \<Rightarrow> None)"

definition Internal_ValueAt :: "('k, 'v) BPlusTreePage \<Rightarrow> int \<Rightarrow> int option" where
  "Internal_ValueAt node index =
     (case node of
        InternalPage _ _ _ arr \<Rightarrow> if in_range node index then Some (snd (arr ! nat index)) else None
      | LeafPage _ _ _ _ _ \<Rightarrow> None)"

text \<open>
  \<^verbatim>\<open>SetKeyAt\<close> asserts the index against the maximum size only; below the size it
  replaces a key, at or past the size it writes a slot that no entry occupies.
\<close>

fun SetKeyAt :: "int \<Rightarrow> 'k \<Rightarrow> ('k, 'v) BPlusTreePage \<Rightarrow> ('k, 'v) BPlusTreePage option" where
  "SetKeyAt index key (InternalPage pid par mx arr) =
     (if 0 \<le> index \<and> index < int mx
      then Some (InternalPage pid par mx
                   (if index < int (length arr) then arr[nat index := (key, snd (arr ! nat index))]
                    else arr))
      else None)"
| "SetKeyAt index key (LeafPage pid par mx nx arr) =
     (if 0 \<le> index \<and> index < int mx
      then Some (LeafPage pid par mx nx
                   (if index < int (length arr) then arr[nat index := (key, snd (arr ! nat index))]
                    else arr))
      else None)"

subsection \<open>The buffer pool as a page store\<close>

definition FetchPage :: "('k, 'v) BPlusTree \<Rightarrow> int \<Rightarrow> ('k, 'v) BPlusTreePage option" where
  "FetchPage t p_id = tree_pages t p_id"

definition put_page ::
  "int \<Rightarrow> ('k, 'v) BPlusTreePage \<Rightarrow> ('k, 'v) BPlusTree \<Rightarrow> ('k, 'v) BPlusTree" where
  "put_page p_id node t = t\<lparr>tree_pages := (tree_pages t)(p_id \<mapsto> node)\<rparr>"

definition NewPage :: "('k, 'v) BPlusTree \<Rightarrow> int \<times> ('k, 'v) BPlusTree" where
  "NewPage t = (tree_next_page_id t, t\<lparr>tree_next_page_id := tree_next_page_id t + 1\<rparr>)"

definition DeletePage :: "int \<Rightarrow> ('k, 'v) BPlusTree \<Rightarrow> ('k, 'v) BPlusTree" where
  "DeletePage p_id t = t\<lparr>tree_pages := (tree_pages t)(p_id := None)\<rparr>"

text \<open>Set the parent of the page with id \<open>p_id\<close>, through the store.\<close>

definition reparent :: "int \<Rightarrow> int \<Rightarrow> ('k, 'v) BPlusTree \<Rightarrow> ('k, 'v) BPlusTree option" where
  "reparent p_id parent_id t =
     do {
       page \<leftarrow> FetchPage t p_id;
       Some (put_page p_id (SetParentPageId parent_id page) t)
     }"

subsection \<open>Leaf pages\<close>

definition Leaf_Init :: "int \<Rightarrow> int \<Rightarrow> nat \<Rightarrow> ('k, 'v) BPlusTreePage" where
  "Leaf_Init p_id parent_id max_size = LeafPage p_id parent_id max_size INVALID_PAGE_ID []"

text \<open>
  \<^verbatim>\<open>Insert\<close> moves the entries from \<open>index\<close> on one slot up; \<^verbatim>\<open>Delete\<close> moves the
  entries after \<open>index\<close> one slot down. \<^verbatim>\<open>Delete\<close> lets \<open>index = size\<close> pass its
  assertion and then copies a range that ends before it starts, which is not modelled.
\<close>

definition array_Insert :: "nat \<Rightarrow> 'e \<Rightarrow> 'e list \<Rightarrow> 'e list" where
  "array_Insert index e arr = take index arr @ e # drop index arr"

definition array_Delete :: "nat \<Rightarrow> 'e list \<Rightarrow> 'e list" where
  "array_Delete index arr = take index arr @ drop (Suc index) arr"

fun Leaf_Insert :: "int \<Rightarrow> 'k \<Rightarrow> 'v \<Rightarrow> ('k, 'v) BPlusTreePage \<Rightarrow> ('k, 'v) BPlusTreePage option" where
  "Leaf_Insert index key v (LeafPage pid par mx nx arr) =
     (if 0 \<le> index \<and> index \<le> int (length arr) \<and> length arr \<noteq> mx
      then Some (LeafPage pid par mx nx (array_Insert (nat index) (key, v) arr))
      else None)"
| "Leaf_Insert index key v (InternalPage _ _ _ _) = None"

fun Leaf_Delete :: "int \<Rightarrow> ('k, 'v) BPlusTreePage \<Rightarrow> ('k, 'v) BPlusTreePage option" where
  "Leaf_Delete index (LeafPage pid par mx nx arr) =
     (if 0 \<le> index \<and> index < int (length arr)
      then Some (LeafPage pid par mx nx (array_Delete (nat index) arr))
      else None)"
| "Leaf_Delete index (InternalPage _ _ _ _) = None"

text \<open>
  The operations on two pages take the ids of both and work through the store, in the
  order of the source.
\<close>

definition Leaf_ShiftFrom :: "int \<Rightarrow> int \<Rightarrow> ('k, 'v) BPlusTree \<Rightarrow> ('k, 'v) BPlusTree option" where
  "Leaf_ShiftFrom this_id other_id t =
     do {
       this \<leftarrow> FetchPage t this_id;
       other_page \<leftarrow> FetchPage t other_id;
       key \<leftarrow> KeyAt other_page 0;
       v \<leftarrow> Leaf_ValueAt other_page 0;
       this1 \<leftarrow> Leaf_Insert (int (GetSize this)) key v this;
       let t1 = put_page this_id this1 t;
       other1 \<leftarrow> FetchPage t1 other_id;
       other2 \<leftarrow> Leaf_Delete 0 other1;
       Some (put_page other_id other2 t1)
     }"

definition Leaf_ShiftTo :: "int \<Rightarrow> int \<Rightarrow> ('k, 'v) BPlusTree \<Rightarrow> ('k, 'v) BPlusTree option" where
  "Leaf_ShiftTo this_id other_id t =
     do {
       this \<leftarrow> FetchPage t this_id;
       other_page \<leftarrow> FetchPage t other_id;
       key \<leftarrow> KeyAt this (int (GetSize this) - 1);
       v \<leftarrow> Leaf_ValueAt this (int (GetSize this) - 1);
       other1 \<leftarrow> Leaf_Insert 0 key v other_page;
       let t1 = put_page other_id other1 t;
       this1 \<leftarrow> FetchPage t1 this_id;
       this2 \<leftarrow> Leaf_Delete (int (GetSize this1) - 1) this1;
       Some (put_page this_id this2 t1)
     }"

fun Leaf_Split ::
  "('k, 'v) BPlusTreePage \<Rightarrow> ('k, 'v) BPlusTreePage \<Rightarrow>
   (('k, 'v) BPlusTreePage \<times> ('k, 'v) BPlusTreePage) option" where
  "Leaf_Split (LeafPage pid par mx nx arr) (LeafPage pid' par' mx' nx' arr') =
     Some (LeafPage pid par mx pid' (take (length arr div 2) arr),
           LeafPage pid' par' mx' nx (drop (length arr div 2) arr))"
| "Leaf_Split _ _ = None"

fun Leaf_Merge ::
  "('k, 'v) BPlusTreePage \<Rightarrow> ('k, 'v) BPlusTreePage \<Rightarrow> ('k, 'v) BPlusTreePage option" where
  "Leaf_Merge (LeafPage pid par mx nx arr) (LeafPage pid' par' mx' nx' arr') =
     Some (LeafPage pid par mx nx' (arr @ arr'))"
| "Leaf_Merge _ _ = None"

subsection \<open>Internal pages\<close>

definition Internal_Init :: "int \<Rightarrow> int \<Rightarrow> nat \<Rightarrow> ('k, 'v) BPlusTreePage" where
  "Internal_Init p_id parent_id max_size = InternalPage p_id parent_id max_size []"

fun Internal_Insert ::
  "int \<Rightarrow> 'k \<Rightarrow> int \<Rightarrow> ('k, 'v) BPlusTreePage \<Rightarrow> ('k, 'v) BPlusTreePage option" where
  "Internal_Insert index key v (InternalPage pid par mx arr) =
     (if 0 \<le> index \<and> index \<le> int (length arr) \<and> length arr \<noteq> mx
      then Some (InternalPage pid par mx (array_Insert (nat index) (key, v) arr))
      else None)"
| "Internal_Insert index key v (LeafPage _ _ _ _ _) = None"

fun Internal_Delete :: "int \<Rightarrow> ('k, 'v) BPlusTreePage \<Rightarrow> ('k, 'v) BPlusTreePage option" where
  "Internal_Delete index (InternalPage pid par mx arr) =
     (if 0 \<le> index \<and> index < int (length arr)
      then Some (InternalPage pid par mx (array_Delete (nat index) arr))
      else None)"
| "Internal_Delete index (LeafPage _ _ _ _ _) = None"

definition Internal_ShiftFrom ::
  "int \<Rightarrow> int \<Rightarrow> ('k, 'v) BPlusTree \<Rightarrow> ('k, 'v) BPlusTree option" where
  "Internal_ShiftFrom this_id other_id t =
     do {
       this \<leftarrow> FetchPage t this_id;
       other_page \<leftarrow> FetchPage t other_id;
       p_id \<leftarrow> Internal_ValueAt other_page 0;
       t1 \<leftarrow> reparent p_id (GetPageId this) t;
       this1 \<leftarrow> FetchPage t1 this_id;
       other1 \<leftarrow> FetchPage t1 other_id;
       key \<leftarrow> KeyAt other1 0;
       this2 \<leftarrow> Internal_Insert (int (GetSize this1)) key p_id this1;
       let t2 = put_page this_id this2 t1;
       other2 \<leftarrow> FetchPage t2 other_id;
       other3 \<leftarrow> Internal_Delete 0 other2;
       Some (put_page other_id other3 t2)
     }"

definition Internal_ShiftTo ::
  "int \<Rightarrow> int \<Rightarrow> ('k, 'v) BPlusTree \<Rightarrow> ('k, 'v) BPlusTree option" where
  "Internal_ShiftTo this_id other_id t =
     do {
       this \<leftarrow> FetchPage t this_id;
       other_page \<leftarrow> FetchPage t other_id;
       p_id \<leftarrow> Internal_ValueAt this (int (GetSize this) - 1);
       t1 \<leftarrow> reparent p_id (GetPageId other_page) t;
       this1 \<leftarrow> FetchPage t1 this_id;
       other1 \<leftarrow> FetchPage t1 other_id;
       key \<leftarrow> KeyAt this1 (int (GetSize this1) - 1);
       other2 \<leftarrow> Internal_Insert 0 key p_id other1;
       let t2 = put_page other_id other2 t1;
       this2 \<leftarrow> FetchPage t2 this_id;
       this3 \<leftarrow> Internal_Delete (int (GetSize this2) - 1) this2;
       Some (put_page this_id this3 t2)
     }"

text \<open>
  \<^verbatim>\<open>Split\<close> keeps the first \<open>size / 2 + 1\<close> entries, gives the rest to the other
  page and appends the entry \<open>(end_key, end_value)\<close> there.
\<close>

fun Internal_Split ::
  "('k, 'v) BPlusTreePage \<Rightarrow> ('k, 'v) BPlusTreePage \<Rightarrow> 'k \<Rightarrow> int \<Rightarrow>
   (('k, 'v) BPlusTreePage \<times> ('k, 'v) BPlusTreePage) option" where
  "Internal_Split (InternalPage pid par mx arr) (InternalPage pid' par' mx' arr') end_key end_value =
     (if length arr div 2 + 1 \<le> length arr
      then do {
             other1 \<leftarrow> Internal_Insert (int (length arr - length arr div 2 - 1)) end_key end_value
                        (InternalPage pid' par' mx' (drop (length arr div 2 + 1) arr));
             Some (InternalPage pid par mx (take (length arr div 2 + 1) arr), other1)
           }
      else None)"
| "Internal_Split _ _ _ _ = None"

text \<open>The loop that hands the children listed in a page to a new parent, slot by slot.\<close>

fun reparent_children ::
  "('k, 'v) BPlusTreePage \<Rightarrow> nat list \<Rightarrow> int \<Rightarrow> ('k, 'v) BPlusTree \<Rightarrow> ('k, 'v) BPlusTree option" where
  "reparent_children node [] parent_id t = Some t"
| "reparent_children node (i # rest) parent_id t =
     do {
       child_id \<leftarrow> Internal_ValueAt node (int i);
       t1 \<leftarrow> reparent child_id parent_id t;
       reparent_children node rest parent_id t1
     }"

text \<open>
  \<^verbatim>\<open>Merge\<close> reparents the other page's children, appends its entries and puts
  \<open>merge_key\<close> in the slot of the first appended entry.
\<close>

definition Internal_Merge ::
  "int \<Rightarrow> int \<Rightarrow> 'k \<Rightarrow> ('k, 'v) BPlusTree \<Rightarrow> ('k, 'v) BPlusTree option" where
  "Internal_Merge this_id other_id merge_key t =
     do {
       this \<leftarrow> FetchPage t this_id;
       other_page \<leftarrow> FetchPage t other_id;
       t1 \<leftarrow> reparent_children other_page [0 ..< GetSize other_page] (GetPageId this) t;
       this1 \<leftarrow> FetchPage t1 this_id;
       other1 \<leftarrow> FetchPage t1 other_id;
       (case (this1, other1) of
          (InternalPage pid par mx arr, InternalPage _ _ _ arr') \<Rightarrow>
            if length arr < mx
            then Some (put_page this_id
                         (InternalPage pid par mx
                            (arr @ (case arr' of [] \<Rightarrow> [] | e # es \<Rightarrow> (merge_key, snd e) # es))) t1)
            else None
        | _ \<Rightarrow> None)
     }"

definition Leaf_Merge_pages ::
  "int \<Rightarrow> int \<Rightarrow> ('k, 'v) BPlusTree \<Rightarrow> ('k, 'v) BPlusTree option" where
  "Leaf_Merge_pages this_id other_id t =
     do {
       this \<leftarrow> FetchPage t this_id;
       other_page \<leftarrow> FetchPage t other_id;
       this1 \<leftarrow> Leaf_Merge this other_page;
       Some (put_page this_id this1 t)
     }"

subsection \<open>The tree\<close>

text \<open>
  The constructor, with its two assertions. \<open>first_page_id\<close> is the id that the buffer
  pool hands out next.
\<close>

definition BPlusTree_new :: "nat \<Rightarrow> nat \<Rightarrow> int \<Rightarrow> ('k, 'v) BPlusTree option" where
  "BPlusTree_new leaf_max internal_max first_page_id =
     (if 2 \<le> leaf_max \<and> 3 \<le> internal_max
      then Some \<lparr>root_page_id = INVALID_PAGE_ID, leaf_max_size = leaf_max,
                  internal_max_size = internal_max, tree_pages = Map.empty,
                  tree_next_page_id = first_page_id\<rparr>
      else None)"

definition IsEmpty :: "('k, 'v) BPlusTree \<Rightarrow> bool" where
  "IsEmpty t = (root_page_id t = INVALID_PAGE_ID)"

text \<open>
  The binary search of \<^verbatim>\<open>GetPosOnInternalPage\<close> (from \<open>l = 1\<close>) and of
  \<^verbatim>\<open>GetPosOnLeafPage\<close> (from \<open>l = 0\<close>): the first position whose key is greater
  than \<open>key\<close>.
\<close>

function GetPos_loop :: "('k::linorder, 'v) BPlusTreePage \<Rightarrow> 'k \<Rightarrow> nat \<Rightarrow> nat \<Rightarrow> nat option" where
  "GetPos_loop page key l r =
     (if l < r
      then (case KeyAt page (int ((l + r) div 2)) of
              None \<Rightarrow> None
            | Some k \<Rightarrow>
                if comparator k key \<noteq> 1 then GetPos_loop page key ((l + r) div 2 + 1) r
                else GetPos_loop page key l ((l + r) div 2))
      else Some l)"
  by pat_completeness auto
termination
  by (relation "measure (\<lambda>(page, key, l, r). r - l)") auto

declare GetPos_loop.simps [simp del]

definition GetPosOnInternalPage :: "('k::linorder, 'v) BPlusTreePage \<Rightarrow> 'k \<Rightarrow> int option" where
  "GetPosOnInternalPage page key = map_option (\<lambda>l. int l - 1) (GetPos_loop page key 1 (GetSize page))"

definition GetPosOnLeafPage :: "('k::linorder, 'v) BPlusTreePage \<Rightarrow> 'k \<Rightarrow> int option" where
  "GetPosOnLeafPage page key = map_option (\<lambda>l. int l - 1) (GetPos_loop page key 0 (GetSize page))"

text \<open>
  \<^verbatim>\<open>FindLeaf\<close> with the normal boundary: descend from the root to a leaf. The three
  find types differ in their latches only.
\<close>

partial_function (option) FindLeaf_loop ::
  "('k::linorder, 'v) BPlusTree \<Rightarrow> 'k \<Rightarrow> int \<Rightarrow> int option" where
  "FindLeaf_loop t key p_id =
     do {
       node \<leftarrow> FetchPage t p_id;
       if IsLeafPage node then Some p_id
       else do {
         pos \<leftarrow> GetPosOnInternalPage node key;
         child_page_id \<leftarrow> Internal_ValueAt node pos;
         FindLeaf_loop t key child_page_id
       }
     }"

declare FindLeaf_loop.simps [code]

definition FindLeaf :: "'k::linorder \<Rightarrow> ('k, 'v) BPlusTree \<Rightarrow> int option" where
  "FindLeaf key t = FindLeaf_loop t key (root_page_id t)"

definition GetValue :: "'k::linorder \<Rightarrow> ('k, 'v) BPlusTree \<Rightarrow> 'v list option" where
  "GetValue key t =
     do {
       leaf_id \<leftarrow> FindLeaf key t;
       leaf \<leftarrow> FetchPage t leaf_id;
       pos \<leftarrow> GetPosOnLeafPage leaf key;
       if pos \<noteq> - 1
       then do {
              k \<leftarrow> KeyAt leaf pos;
              v \<leftarrow> Leaf_ValueAt leaf pos;
              Some (if comparator key k = 0 then [v] else [])
            }
       else Some []
     }"

subsection \<open>Insert\<close>

text \<open>
  \<^verbatim>\<open>InsertIntoParent\<close>. \<open>node_id\<close> and \<open>new_node_id\<close> are the two page pointers of the
  source.
\<close>

partial_function (option) InsertIntoParent ::
  "int \<Rightarrow> 'k::linorder \<Rightarrow> int \<Rightarrow> ('k, 'v) BPlusTree \<Rightarrow> ('k, 'v) BPlusTree option" where
  "InsertIntoParent node_id key new_node_id t =
     do {
       node \<leftarrow> FetchPage t node_id;
       new_node \<leftarrow> FetchPage t new_node_id;
       if IsRootPage node
       then do {
         let (new_root_id, t1) = NewPage t;
         let t2 = t1\<lparr>root_page_id := new_root_id\<rparr>;
         let new_root = Internal_Init new_root_id INVALID_PAGE_ID (internal_max_size t2);
         key0 \<leftarrow> KeyAt node 0;
         new_root1 \<leftarrow> Internal_Insert 0 key0 (GetPageId node) new_root;
         new_root2 \<leftarrow> Internal_Insert 1 key (GetPageId new_node) new_root1;
         let t3 = put_page new_root_id new_root2 t2;
         t4 \<leftarrow> reparent node_id new_root_id t3;
         reparent new_node_id new_root_id t4
       }
       else do {
         let parent_id = GetParentPageId node;
         parent_node \<leftarrow> FetchPage t parent_id;
         if IsLeafPage parent_node then None
         else if GetSize parent_node < GetMaxSize parent_node
         then do {
           pos \<leftarrow> GetPosOnInternalPage parent_node key;
           parent1 \<leftarrow> Internal_Insert (pos + 1) key (GetPageId new_node) parent_node;
           Some (put_page parent_id parent1 t)
         }
         else do {
           let (new_parent_page_id, t1) = NewPage t;
           let new_parent = Internal_Init new_parent_page_id (GetParentPageId parent_node)
                              (internal_max_size t1);
           last_key \<leftarrow> KeyAt parent_node (int (GetSize parent_node) - 1);
           (end_key, end_value, parent1) \<leftarrow>
             (if comparator key last_key = - 1
              then do {
                last_value \<leftarrow> Internal_ValueAt parent_node (int (GetSize parent_node) - 1);
                p1 \<leftarrow> Internal_Delete (int (GetSize parent_node) - 1) parent_node;
                pos \<leftarrow> GetPosOnInternalPage p1 key;
                p2 \<leftarrow> Internal_Insert (pos + 1) key (GetPageId new_node) p1;
                Some (last_key, last_value, p2)
              }
              else Some (key, GetPageId new_node, parent_node));
           (parent2, new_parent1) \<leftarrow> Internal_Split parent1 new_parent end_key end_value;
           let t2 = put_page new_parent_page_id new_parent1 (put_page parent_id parent2 t1);
           t3 \<leftarrow> reparent_children new_parent1 [0 ..< GetSize new_parent1] (GetPageId new_parent1) t2;
           new_parent2 \<leftarrow> FetchPage t3 new_parent_page_id;
           new_key \<leftarrow> KeyAt new_parent2 0;
           InsertIntoParent parent_id new_key new_parent_page_id t3
         }
       }
     }"

declare InsertIntoParent.simps [code]

text \<open>\<^verbatim>\<open>Insert\<close>: the result is the returned flag and the tree.\<close>

definition BPlusTree_Insert ::
  "'k::linorder \<Rightarrow> 'v \<Rightarrow> ('k, 'v) BPlusTree \<Rightarrow> (bool \<times> ('k, 'v) BPlusTree) option" where
  "BPlusTree_Insert key v t =
     (if IsEmpty t
      then do {
        let (new_root_id, t1) = NewPage t;
        let t2 = t1\<lparr>root_page_id := new_root_id\<rparr>;
        leaf \<leftarrow> Leaf_Insert 0 key v (Leaf_Init new_root_id INVALID_PAGE_ID (leaf_max_size t2));
        Some (True, put_page new_root_id leaf t2)
      }
      else do {
        leaf_id \<leftarrow> FindLeaf key t;
        leaf \<leftarrow> FetchPage t leaf_id;
        pos \<leftarrow> GetPosOnLeafPage leaf key;
        present \<leftarrow> (if pos \<noteq> - 1 then map_option (\<lambda>k. comparator key k = 0) (KeyAt leaf pos)
                    else Some False);
        if present then Some (False, t)
        else do {
          leaf1 \<leftarrow> Leaf_Insert (pos + 1) key v leaf;
          let t1 = put_page leaf_id leaf1 t;
          if GetSize leaf1 \<noteq> GetMaxSize leaf1 then Some (True, t1)
          else do {
            let (new_page_id, t2) = NewPage t1;
            let new_leaf = Leaf_Init new_page_id (GetParentPageId leaf1) (leaf_max_size t2);
            (leaf2, new_leaf1) \<leftarrow> Leaf_Split leaf1 new_leaf;
            let t3 = put_page new_page_id new_leaf1 (put_page leaf_id leaf2 t2);
            new_key \<leftarrow> KeyAt new_leaf1 0;
            t4 \<leftarrow> InsertIntoParent leaf_id new_key new_page_id t3;
            Some (True, t4)
          }
        }
      })"

subsection \<open>The iterator\<close>

text \<open>
  An iterator is the pair of \<^verbatim>\<open>leaf_\<close> (a page id, or \<open>None\<close> for the null pointer)
  and \<^verbatim>\<open>pos_\<close>.
\<close>

type_synonym IndexIterator = "int option \<times> int"

partial_function (option) Begin_loop :: "('k, 'v) BPlusTree \<Rightarrow> int \<Rightarrow> int option" where
  "Begin_loop t p_id =
     do {
       node \<leftarrow> FetchPage t p_id;
       if IsLeafPage node then Some p_id
       else if 0 < GetSize node
       then do {
         next_id \<leftarrow> Internal_ValueAt node 0;
         Begin_loop t next_id
       }
       else None
     }"

declare Begin_loop.simps [code]

definition BPlusTree_Begin :: "('k, 'v) BPlusTree \<Rightarrow> IndexIterator option" where
  "BPlusTree_Begin t =
     (if IsEmpty t then Some (None, 0)
      else map_option (\<lambda>leaf_id. (Some leaf_id, 0)) (Begin_loop t (root_page_id t)))"

definition IsEnd :: "IndexIterator \<Rightarrow> bool" where
  "IsEnd it = (fst it = None)"

text \<open>\<^verbatim>\<open>operator*\<close> and \<^verbatim>\<open>operator++\<close>.\<close>

definition deref :: "('k, 'v) BPlusTree \<Rightarrow> IndexIterator \<Rightarrow> ('k \<times> 'v) option" where
  "deref t it =
     do {
       leaf_id \<leftarrow> fst it;
       leaf \<leftarrow> FetchPage t leaf_id;
       key \<leftarrow> KeyAt leaf (snd it);
       v \<leftarrow> Leaf_ValueAt leaf (snd it);
       Some (key, v)
     }"

definition increment :: "('k, 'v) BPlusTree \<Rightarrow> IndexIterator \<Rightarrow> IndexIterator option" where
  "increment t it =
     (case fst it of
        None \<Rightarrow> Some it
      | Some leaf_id \<Rightarrow>
          do {
            leaf \<leftarrow> FetchPage t leaf_id;
            if snd it + 1 < int (GetSize leaf) then Some (Some leaf_id, snd it + 1)
            else if GetNextPageId leaf \<noteq> INVALID_PAGE_ID
            then do {
              _ \<leftarrow> FetchPage t (GetNextPageId leaf);
              Some (Some (GetNextPageId leaf), 0)
            }
            else Some (None, 0)
          })"

text \<open>The scan \<^verbatim>\<open>for (it = Begin(); !it.IsEnd(); ++it)\<close>, collecting \<^verbatim>\<open>*it\<close>.\<close>

partial_function (option) scan_loop ::
  "('k, 'v) BPlusTree \<Rightarrow> IndexIterator \<Rightarrow> ('k \<times> 'v) list \<Rightarrow> ('k \<times> 'v) list option" where
  "scan_loop t it visited =
     (if IsEnd it then Some visited
      else do {
        e \<leftarrow> deref t it;
        it1 \<leftarrow> increment t it;
        scan_loop t it1 (visited @ [e])
      })"

declare scan_loop.simps [code]

definition scan :: "('k, 'v) BPlusTree \<Rightarrow> ('k \<times> 'v) list option" where
  "scan t = do { it \<leftarrow> BPlusTree_Begin t; scan_loop t it [] }"

text \<open>Insert a list of entries, one call after the other, collecting the returned flags.\<close>

fun insert_all ::
  "('k::linorder \<times> 'v) list \<Rightarrow> ('k, 'v) BPlusTree \<Rightarrow> (bool list \<times> ('k, 'v) BPlusTree) option" where
  "insert_all [] t = Some ([], t)"
| "insert_all ((key, v) # rest) t =
     do {
       (ok, t1) \<leftarrow> BPlusTree_Insert key v t;
       (oks, t2) \<leftarrow> insert_all rest t1;
       Some (ok # oks, t2)
     }"

subsection \<open>Remove\<close>

text \<open>
  \<^verbatim>\<open>Remove\<close> latches the pages on its way down and the sibling it rebalances with,
  so it is modelled with what the thread holds: the tree's root latch, the write latches
  of pages, the pins of the buffer pool (one list entry per pin), the transaction's page
  set (\<open>None\<close> stands for the null pointer that marks the root latch) and its deleted
  page set. A write latch is a \<^verbatim>\<open>std::shared_mutex\<close>: locking one that the thread
  already holds does not return, and unlocking one that it does not hold is undefined;
  both are the result \<open>None\<close>.
\<close>

record ('k, 'v) RemoveState =
  rm_tree :: "('k, 'v) BPlusTree"
  rm_root_latch :: bool
  rm_latched :: "int list"
  rm_pinned :: "int list"
  rm_page_set :: "int option list"
  rm_deleted :: "int list"

definition at_rest :: "('k, 'v) BPlusTree \<Rightarrow> ('k, 'v) RemoveState" where
  "at_rest t =
     \<lparr>rm_tree = t, rm_root_latch = False, rm_latched = [], rm_pinned = [], rm_page_set = [],
      rm_deleted = []\<rparr>"

text \<open>
  The buffer pool with pins: \<^verbatim>\<open>FetchPage\<close> pins the page, \<^verbatim>\<open>UnpinPage\<close> takes one
  pin away when there is one, and \<^verbatim>\<open>DeletePage\<close> drops a page only when nothing
  pins it.
\<close>

definition pool_FetchPage ::
  "int \<Rightarrow> ('k, 'v) RemoveState \<Rightarrow> (('k, 'v) BPlusTreePage \<times> ('k, 'v) RemoveState) option" where
  "pool_FetchPage p_id s =
     (case FetchPage (rm_tree s) p_id of
        None \<Rightarrow> None
      | Some node \<Rightarrow> Some (node, s\<lparr>rm_pinned := p_id # rm_pinned s\<rparr>))"

definition pool_UnpinPage :: "int \<Rightarrow> ('k, 'v) RemoveState \<Rightarrow> ('k, 'v) RemoveState" where
  "pool_UnpinPage p_id s = s\<lparr>rm_pinned := remove1 p_id (rm_pinned s)\<rparr>"

definition pool_DeletePage :: "int \<Rightarrow> ('k, 'v) RemoveState \<Rightarrow> ('k, 'v) RemoveState" where
  "pool_DeletePage p_id s =
     (if p_id \<in> set (rm_pinned s) then s else s\<lparr>rm_tree := DeletePage p_id (rm_tree s)\<rparr>)"

definition WLatch :: "int \<Rightarrow> ('k, 'v) RemoveState \<Rightarrow> ('k, 'v) RemoveState option" where
  "WLatch p_id s =
     (if p_id \<in> set (rm_latched s) then None else Some (s\<lparr>rm_latched := p_id # rm_latched s\<rparr>))"

definition WUnlatch :: "int \<Rightarrow> ('k, 'v) RemoveState \<Rightarrow> ('k, 'v) RemoveState option" where
  "WUnlatch p_id s =
     (if p_id \<in> set (rm_latched s) then Some (s\<lparr>rm_latched := remove1 p_id (rm_latched s)\<rparr>)
      else None)"

definition set_tree :: "('k, 'v) BPlusTree \<Rightarrow> ('k, 'v) RemoveState \<Rightarrow> ('k, 'v) RemoveState" where
  "set_tree t s = s\<lparr>rm_tree := t\<rparr>"

definition AddIntoPageSet :: "int option \<Rightarrow> ('k, 'v) RemoveState \<Rightarrow> ('k, 'v) RemoveState" where
  "AddIntoPageSet page s = s\<lparr>rm_page_set := rm_page_set s @ [page]\<rparr>"

definition AddIntoDeletedPageSet :: "int \<Rightarrow> ('k, 'v) RemoveState \<Rightarrow> ('k, 'v) RemoveState" where
  "AddIntoDeletedPageSet p_id s = s\<lparr>rm_deleted := rm_deleted s @ [p_id]\<rparr>"

text \<open>
  \<^verbatim>\<open>ReleaseQueueLatch\<close>: empty the page set from the front; the null pointer unlocks
  the root latch, a page is unlatched and unpinned.
\<close>

fun release_loop ::
  "int option list \<Rightarrow> ('k, 'v) RemoveState \<Rightarrow> ('k, 'v) RemoveState option" where
  "release_loop [] s = Some s"
| "release_loop (None # rest) s =
     (if rm_root_latch s then release_loop rest (s\<lparr>rm_root_latch := False\<rparr>) else None)"
| "release_loop (Some p_id # rest) s =
     do {
       s1 \<leftarrow> WUnlatch p_id s;
       release_loop rest (pool_UnpinPage p_id s1)
     }"

definition ReleaseQueueLatch :: "('k, 'v) RemoveState \<Rightarrow> ('k, 'v) RemoveState option" where
  "ReleaseQueueLatch s = release_loop (rm_page_set s) (s\<lparr>rm_page_set := []\<rparr>)"

text \<open>
  \<^verbatim>\<open>FindLeaf\<close> with \<^verbatim>\<open>FindType::kDelete\<close>: every page on the way is pinned and
  write-latched; the pages above are released when the page reached cannot underflow
  (the root: more than two entries; another page: more than its minimum size).
\<close>

partial_function (option) FindLeaf_delete_loop ::
  "'k::linorder \<Rightarrow> int \<Rightarrow> ('k, 'v) RemoveState \<Rightarrow> (int \<times> ('k, 'v) RemoveState) option" where
  "FindLeaf_delete_loop key p_id s =
     do {
       node \<leftarrow> FetchPage (rm_tree s) p_id;
       if IsLeafPage node then Some (p_id, s)
       else do {
         pos \<leftarrow> GetPosOnInternalPage node key;
         child_page_id \<leftarrow> Internal_ValueAt node pos;
         (child_node, s1) \<leftarrow> pool_FetchPage child_page_id s;
         s2 \<leftarrow> WLatch child_page_id s1;
         let s3 = AddIntoPageSet (Some p_id) s2;
         s4 \<leftarrow> (if GetSize child_node > GetMinSize child_node then ReleaseQueueLatch s3
                else Some s3);
         FindLeaf_delete_loop key child_page_id s4
       }
     }"

declare FindLeaf_delete_loop.simps [code]

definition FindLeaf_delete ::
  "'k::linorder \<Rightarrow> ('k, 'v) RemoveState \<Rightarrow> (int \<times> ('k, 'v) RemoveState) option" where
  "FindLeaf_delete key s =
     do {
       (node, s1) \<leftarrow> pool_FetchPage (root_page_id (rm_tree s)) s;
       s2 \<leftarrow> WLatch (root_page_id (rm_tree s)) s1;
       s3 \<leftarrow> (if GetSize node > 2 then ReleaseQueueLatch s2 else Some s2);
       FindLeaf_delete_loop key (root_page_id (rm_tree s)) s3
     }"

text \<open>
  \<^verbatim>\<open>Redistribute\<close> moves one entry between two neighbours and sets the right
  neighbour's key in the parent. The internal \<^verbatim>\<open>ShiftFrom\<close>, \<^verbatim>\<open>ShiftTo\<close> and
  \<^verbatim>\<open>Merge\<close> fetch a child, set its parent and unpin it at once, which leaves the
  pins as they were.
\<close>

definition Redistribute ::
  "int \<Rightarrow> int \<Rightarrow> int \<Rightarrow> int \<Rightarrow> bool \<Rightarrow> ('k, 'v) BPlusTree \<Rightarrow> ('k, 'v) BPlusTree option" where
  "Redistribute left_id right_id parent_id right_pos from_previous t =
     do {
       left_node \<leftarrow> FetchPage t left_id;
       t1 \<leftarrow> (if IsLeafPage left_node
              then (if from_previous then Leaf_ShiftTo left_id right_id t
                    else Leaf_ShiftFrom left_id right_id t)
              else (if from_previous then Internal_ShiftTo left_id right_id t
                    else Internal_ShiftFrom left_id right_id t));
       right_node \<leftarrow> FetchPage t1 right_id;
       key \<leftarrow> KeyAt right_node 0;
       parent \<leftarrow> FetchPage t1 parent_id;
       parent1 \<leftarrow> SetKeyAt right_pos key parent;
       Some (put_page parent_id parent1 t1)
     }"

text \<open>
  \<^verbatim>\<open>CoalesceOrRedistribute\<close> and \<^verbatim>\<open>Coalesce\<close> call each other; they are the two
  branches of one recursive function, \<open>Inl node\<close> for the first and
  \<open>Inr (left, right, parent, pos)\<close> for the second. Both return the flag of the source.
  The node is found in its parent by the search for the node's first key, and the
  neighbour found there is write-latched.
\<close>

partial_function (option) rebalance ::
  "int + int \<times> int \<times> int \<times> int \<Rightarrow> ('k::linorder, 'v) RemoveState \<Rightarrow>
   (bool \<times> ('k, 'v) RemoveState) option" where
  "rebalance call s =
     (case call of
        Inl node_id \<Rightarrow>
          do {
            node \<leftarrow> FetchPage (rm_tree s) node_id;
            if IsRootPage node
            then (if \<not> IsLeafPage node \<and> GetSize node = 1
                  then do {
                    child_id \<leftarrow> Internal_ValueAt node 0;
                    (child, s1) \<leftarrow> pool_FetchPage child_id s;
                    t1 \<leftarrow> reparent child_id INVALID_PAGE_ID (rm_tree s1);
                    let s2 = set_tree (t1\<lparr>root_page_id := GetPageId child\<rparr>) s1;
                    s3 \<leftarrow> ReleaseQueueLatch (pool_UnpinPage (root_page_id (rm_tree s2)) s2);
                    Some (True, s3)
                  }
                  else if IsLeafPage node \<and> GetSize node = 0
                  then do {
                    s1 \<leftarrow> ReleaseQueueLatch
                           (set_tree ((rm_tree s)\<lparr>root_page_id := INVALID_PAGE_ID\<rparr>) s);
                    Some (True, s1)
                  }
                  else do {
                    s1 \<leftarrow> ReleaseQueueLatch s;
                    Some (False, s1)
                  })
            else if GetSize node \<ge> GetMinSize node
            then do {
              s1 \<leftarrow> ReleaseQueueLatch s;
              Some (False, s1)
            }
            else do {
              let parent_id = GetParentPageId node;
              (parent, s1) \<leftarrow> pool_FetchPage parent_id s;
              key0 \<leftarrow> KeyAt node 0;
              pos \<leftarrow> (if IsLeafPage parent then None else GetPosOnInternalPage parent key0);
              if pos > 0
              then do {
                neighbor_id \<leftarrow> Internal_ValueAt parent (pos - 1);
                (neighbor, s2) \<leftarrow> pool_FetchPage neighbor_id s1;
                s3 \<leftarrow> WLatch neighbor_id s2;
                if IsLeafPage neighbor \<noteq> IsLeafPage node then None
                else if GetSize neighbor > GetMinSize neighbor
                then do {
                  t1 \<leftarrow> Redistribute neighbor_id node_id parent_id pos True (rm_tree s3);
                  s4 \<leftarrow> ReleaseQueueLatch (set_tree t1 s3);
                  s5 \<leftarrow> WUnlatch neighbor_id (pool_UnpinPage (GetPageId parent) s4);
                  Some (False, pool_UnpinPage (GetPageId neighbor) s5)
                }
                else do {
                  (gone, s4) \<leftarrow> rebalance (Inr (neighbor_id, node_id, parent_id, pos)) s3;
                  let s5 = (if gone then AddIntoDeletedPageSet (GetPageId parent) s4 else s4);
                  s6 \<leftarrow> WUnlatch neighbor_id (pool_UnpinPage (GetPageId parent) s5);
                  Some (True, pool_UnpinPage (GetPageId neighbor) s6)
                }
              }
              else if pos \<noteq> int (GetSize parent) - 1
              then do {
                neighbor_id \<leftarrow> Internal_ValueAt parent (pos + 1);
                (neighbor, s2) \<leftarrow> pool_FetchPage neighbor_id s1;
                s3 \<leftarrow> WLatch neighbor_id s2;
                if IsLeafPage neighbor \<noteq> IsLeafPage node then None
                else if GetSize neighbor > GetMinSize neighbor
                then do {
                  t1 \<leftarrow> Redistribute node_id neighbor_id parent_id (pos + 1) False (rm_tree s3);
                  s4 \<leftarrow> ReleaseQueueLatch (set_tree t1 s3);
                  s5 \<leftarrow> WUnlatch neighbor_id (pool_UnpinPage (GetPageId parent) s4);
                  Some (False, pool_UnpinPage (GetPageId neighbor) s5)
                }
                else do {
                  (gone, s4) \<leftarrow> rebalance (Inr (node_id, neighbor_id, parent_id, pos + 1))
                                  (AddIntoDeletedPageSet (GetPageId neighbor) s3);
                  let s5 = (if gone then AddIntoDeletedPageSet (GetPageId parent) s4 else s4);
                  s6 \<leftarrow> WUnlatch neighbor_id (pool_UnpinPage (GetPageId parent) s5);
                  Some (False, pool_UnpinPage (GetPageId neighbor) s6)
                }
              }
              else Some (False, s1)
            }
          }
      | Inr (left_id, right_id, parent_id, pos) \<Rightarrow>
          do {
            right_node \<leftarrow> FetchPage (rm_tree s) right_id;
            parent \<leftarrow> FetchPage (rm_tree s) parent_id;
            t1 \<leftarrow> (if IsLeafPage right_node then Leaf_Merge_pages left_id right_id (rm_tree s)
                   else do {
                     merge_key \<leftarrow> KeyAt parent pos;
                     Internal_Merge left_id right_id merge_key (rm_tree s)
                   });
            parent1 \<leftarrow> FetchPage t1 parent_id;
            parent2 \<leftarrow> Internal_Delete pos parent1;
            rebalance (Inl parent_id) (set_tree (put_page parent_id parent2 t1) s)
          })"

declare rebalance.simps [code]

definition CoalesceOrRedistribute ::
  "int \<Rightarrow> ('k::linorder, 'v) RemoveState \<Rightarrow> (bool \<times> ('k, 'v) RemoveState) option" where
  "CoalesceOrRedistribute node_id s = rebalance (Inl node_id) s"

definition Coalesce ::
  "int \<Rightarrow> int \<Rightarrow> int \<Rightarrow> int \<Rightarrow> ('k::linorder, 'v) RemoveState \<Rightarrow>
   (bool \<times> ('k, 'v) RemoveState) option" where
  "Coalesce left_id right_id parent_id pos s = rebalance (Inr (left_id, right_id, parent_id, pos)) s"

text \<open>
  \<^verbatim>\<open>Remove\<close>, from the lock of the root latch to the loop that hands the deleted
  page set to \<^verbatim>\<open>DeletePage\<close>. The deleted page set is unordered; the loop drops
  every page of it that is not pinned, whatever the order.
\<close>

definition BPlusTree_Remove ::
  "'k::linorder \<Rightarrow> ('k, 'v) RemoveState \<Rightarrow> ('k, 'v) RemoveState option" where
  "BPlusTree_Remove key s =
     (if rm_root_latch s then None
      else do {
        let s0 = AddIntoPageSet None (s\<lparr>rm_root_latch := True\<rparr>);
        if IsEmpty (rm_tree s0) then ReleaseQueueLatch s0
        else do {
          (leaf_id, s1) \<leftarrow> FindLeaf_delete key s0;
          leaf \<leftarrow> FetchPage (rm_tree s1) leaf_id;
          pos \<leftarrow> GetPosOnLeafPage leaf key;
          present \<leftarrow> (if pos \<noteq> - 1 then map_option (\<lambda>k. comparator key k = 0) (KeyAt leaf pos)
                      else Some False);
          if \<not> present
          then do {
            s2 \<leftarrow> ReleaseQueueLatch s1;
            s3 \<leftarrow> WUnlatch leaf_id s2;
            Some (pool_UnpinPage leaf_id s3)
          }
          else do {
            leaf1 \<leftarrow> Leaf_Delete pos leaf;
            (gone, s2) \<leftarrow> CoalesceOrRedistribute leaf_id
                            (set_tree (put_page leaf_id leaf1 (rm_tree s1)) s1);
            let s3 = (if gone then AddIntoDeletedPageSet (GetPageId leaf1) s2 else s2);
            s4 \<leftarrow> WUnlatch leaf_id s3;
            let s5 = pool_UnpinPage leaf_id s4;
            Some ((fold pool_DeletePage (rm_deleted s5) s5)\<lparr>rm_deleted := []\<rparr>)
          }
        }
      })"

subsection \<open>The structural invariant\<close>

text \<open>
  The pages of the subtree of a page, \<open>h\<close> levels above the leaves: the leaves from left
  to right, and all pages below the top. It is \<open>None\<close> when a page is missing or a leaf is
  at another depth.
\<close>

fun subtree :: "nat \<Rightarrow> ('k, 'v) BPlusTree \<Rightarrow> int \<Rightarrow> (int list \<times> int list) option" where
  "subtree 0 t p_id =
     (case FetchPage t p_id of
        Some (LeafPage _ _ _ _ _) \<Rightarrow> Some ([p_id], [])
      | _ \<Rightarrow> None)"
| "subtree (Suc h) t p_id =
     (case FetchPage t p_id of
        Some (InternalPage _ _ _ arr) \<Rightarrow>
          (if list_all (\<lambda>c. subtree h t c \<noteq> None) (map snd arr)
           then Some (concat (map (\<lambda>c. fst (the (subtree h t c))) (map snd arr)),
                      concat (map (\<lambda>c. c # snd (the (subtree h t c))) (map snd arr)))
           else None)
      | _ \<Rightarrow> None)"

definition size_ok :: "('k, 'v) BPlusTree \<Rightarrow> int \<Rightarrow> bool" where
  "size_ok t p_id =
     (case FetchPage t p_id of
        None \<Rightarrow> False
      | Some node \<Rightarrow>
          GetMinSize node \<le> GetSize node \<and>
          (if IsLeafPage node then GetSize node + 1 \<le> GetMaxSize node
           else GetSize node \<le> GetMaxSize node))"

definition chain_ok :: "('k::linorder, 'v) BPlusTree \<Rightarrow> int list \<Rightarrow> bool" where
  "chain_ok t leaves =
     (map (\<lambda>l. case FetchPage t l of Some node \<Rightarrow> GetNextPageId node | None \<Rightarrow> INVALID_PAGE_ID)
          leaves = tl leaves @ [INVALID_PAGE_ID] \<and>
      sorted (concat (map (\<lambda>l. case FetchPage t l of Some node \<Rightarrow> keys_of node | None \<Rightarrow> [])
                          leaves)))"

text \<open>
  The invariant of the tree: below the root, every leaf has between the minimum size
  and one less than the maximum size entries and every internal page between the
  minimum and the maximum size; all leaves are at one depth \<open>h\<close>; the chain of next
  pointers from the first leaf visits all leaves in order, with keys that never
  decrease. No path is longer than the number of page ids handed out.
\<close>

definition structural_invariant :: "('k::linorder, 'v) BPlusTree \<Rightarrow> bool" where
  "structural_invariant t =
     (IsEmpty t \<or>
      list_ex (\<lambda>h. case subtree h t (root_page_id t) of
                     None \<Rightarrow> False
                   | Some (leaves, below) \<Rightarrow> list_all (size_ok t) below \<and> chain_ok t leaves)
              [0 ..< nat (tree_next_page_id t)])"

subsection \<open>An example tree\<close>

text \<open>
  The tree with leaf maximum 4 and internal maximum 5 that holds the keys 1 to 18, each
  with ten times the key as its value, as the insertions in the order 18, 17, ..., 1
  build it (the page ids start at 1).
\<close>

definition example_tree :: "(int, int) BPlusTree" where
  "example_tree =
     \<lparr>root_page_id = 9, leaf_max_size = 4, internal_max_size = 5,
      tree_pages = map_of
        [(1, LeafPage 1 3 4 12 [(1, 10), (2, 20)]),
         (2, LeafPage 2 8 4 (- 1) [(17, 170), (18, 180)]),
         (3, InternalPage 3 9 5 [(15, 1), (3, 12), (5, 11)]),
         (4, LeafPage 4 8 4 2 [(15, 150), (16, 160)]),
         (5, LeafPage 5 8 4 4 [(13, 130), (14, 140)]),
         (6, LeafPage 6 13 4 5 [(11, 110), (12, 120)]),
         (7, LeafPage 7 13 4 6 [(9, 90), (10, 100)]),
         (8, InternalPage 8 9 5 [(13, 5), (15, 4), (17, 2)]),
         (9, InternalPage 9 (- 1) 5 [(15, 3), (7, 13), (13, 8)]),
         (10, LeafPage 10 13 4 7 [(7, 70), (8, 80)]),
         (11, LeafPage 11 3 4 10 [(5, 50), (6, 60)]),
         (12, LeafPage 12 3 4 11 [(3, 30), (4, 40)]),
         (13, InternalPage 13 9 5 [(7, 10), (9, 7), (11, 6)])],
      tree_next_page_id = 14\<rparr>"

definition same_pages :: "('k, 'v) BPlusTree \<Rightarrow> ('k, 'v) BPlusTree \<Rightarrow> bool" where
  "same_pages t t' =
     (root_page_id t = root_page_id t' \<and> leaf_max_size t = leaf_max_size t' \<and>
      internal_max_size t = internal_max_size t' \<and>
      tree_next_page_id t = tree_next_page_id t' \<and>
      map (tree_pages t) (map int [0 ..< nat (tree_next_page_id t)]) =
      map (tree_pages t') (map int [0 ..< nat (tree_next_page_id t)]))"

definition example_inserted :: "(bool list \<times> (int, int) BPlusTree) option" where
  "example_inserted =
     do {
       t \<leftarrow> BPlusTree_new 4 5 1;
       insert_all (map (\<lambda>k. (k, k * 10)) (rev [1 .. 18])) t
     }"

definition example_built :: bool where
  "example_built =
     (case example_inserted of
        None \<Rightarrow> False
      | Some (flags, t) \<Rightarrow> flags = replicate 18 True \<and> same_pages t example_tree)"

definition example_after :: "(int, int) RemoveState" where
  "example_after = the (BPlusTree_Remove 1 (at_rest example_tree))"

subsection \<open>The search-tree invariant\<close>

text \<open>
  The invariant that the insertions keep is stated page by page, over four quantities
  that the code does not store: for every page the half-open range of keys that may
  live below it (\<open>None\<close> is an open end), its height above the leaves, and the list of
  the leaves from left to right.
\<close>

record 'k ghost =
  g_lo :: "int \<Rightarrow> 'k option"
  g_hi :: "int \<Rightarrow> 'k option"
  g_ht :: "int \<Rightarrow> nat"
  g_chain :: "int list"

definition lo_le :: "'k::linorder option \<Rightarrow> 'k \<Rightarrow> bool" where
  "lo_le l k = (case l of None \<Rightarrow> True | Some a \<Rightarrow> a \<le> k)"

definition lo_lt :: "'k::linorder option \<Rightarrow> 'k \<Rightarrow> bool" where
  "lo_lt l k = (case l of None \<Rightarrow> True | Some a \<Rightarrow> a < k)"

definition lt_hi :: "'k::linorder \<Rightarrow> 'k option \<Rightarrow> bool" where
  "lt_hi k h = (case h of None \<Rightarrow> True | Some b \<Rightarrow> k < b)"

definition lo_lt_hi :: "'k::linorder option \<Rightarrow> 'k option \<Rightarrow> bool" where
  "lo_lt_hi l h = (case l of None \<Rightarrow> True | Some a \<Rightarrow> lt_hi a h)"

text \<open>
  The entries of an internal page whose range is \<open>[l, h)\<close>: the first child starts at
  \<open>l\<close>, every other child starts at its key, each child ends where the next one starts,
  the last child ends at \<open>h\<close>, and no child's range is empty.
\<close>

fun kids_ok ::
  "(int \<Rightarrow> 'k::linorder option) \<Rightarrow> (int \<Rightarrow> 'k option) \<Rightarrow> 'k option \<Rightarrow> ('k \<times> int) list \<Rightarrow>
   'k option \<Rightarrow> bool" where
  "kids_ok lo hi l [] h = False"
| "kids_ok lo hi l [e] h = (lo (snd e) = l \<and> hi (snd e) = h \<and> lo_lt_hi l h)"
| "kids_ok lo hi l (e # e' # rest) h =
     (lo (snd e) = l \<and> hi (snd e) = Some (fst e') \<and> lo_lt l (fst e') \<and>
      kids_ok lo hi (Some (fst e')) (e' # rest) h)"

text \<open>The entry \<open>e\<close> put behind the entry of the child \<open>p\<close>; the same for a list of page ids.\<close>

fun ins_after :: "int \<Rightarrow> 'k \<times> int \<Rightarrow> ('k \<times> int) list \<Rightarrow> ('k \<times> int) list" where
  "ins_after p e [] = []"
| "ins_after p e (x # xs) = (if snd x = p then x # e # xs else x # ins_after p e xs)"

fun chain_ins :: "int \<Rightarrow> int \<Rightarrow> int list \<Rightarrow> int list" where
  "chain_ins p q [] = []"
| "chain_ins p q (x # xs) = (if x = p then x # q # xs else x # chain_ins p q xs)"

text \<open>
  A page is in order when its header fits its place in the store and its entries fit
  its range. \<open>V\<close> gives, for an internal page, the entries it is meant to have: its own
  entries, except for the parent of a page that was split a moment ago and has not yet
  received the entry of the new page.
\<close>

definition page_ok ::
  "('k::linorder, 'v) BPlusTree \<Rightarrow> 'k ghost \<Rightarrow> (int \<Rightarrow> ('k \<times> int) list \<Rightarrow> ('k \<times> int) list) \<Rightarrow>
   int \<Rightarrow> ('k, 'v) BPlusTreePage \<Rightarrow> bool" where
  "page_ok t G V p n =
     (GetPageId n = p \<and>
      (case n of
         LeafPage _ _ mx _ arr \<Rightarrow>
           mx = leaf_max_size t \<and> arr \<noteq> [] \<and> length arr < mx \<and> sorted_wrt (<) (map fst arr) \<and>
           (\<forall>k \<in> fst ` set arr. lo_le (g_lo G p) k \<and> lt_hi k (g_hi G p)) \<and> g_ht G p = 0
       | InternalPage _ _ mx arr \<Rightarrow>
           mx = internal_max_size t \<and> 2 \<le> length arr \<and> length arr \<le> mx \<and>
           kids_ok (g_lo G) (g_hi G) (g_lo G p) (V p arr) (g_hi G p) \<and>
           (\<forall>c \<in> snd ` set (V p arr).
              \<exists>cn. tree_pages t c = Some cn \<and> GetParentPageId cn = p \<and>
                   Suc (g_ht G c) = g_ht G p)))"

text \<open>The root has no parent and the full range; every other page is a child of its parent.\<close>

definition link_ok ::
  "('k::linorder, 'v) BPlusTree \<Rightarrow> 'k ghost \<Rightarrow> (int \<Rightarrow> ('k \<times> int) list \<Rightarrow> ('k \<times> int) list) \<Rightarrow>
   int \<Rightarrow> ('k, 'v) BPlusTreePage \<Rightarrow> bool" where
  "link_ok t G V p n =
     (if p = root_page_id t
      then GetParentPageId n = INVALID_PAGE_ID \<and> g_lo G p = None \<and> g_hi G p = None
      else GetParentPageId n \<noteq> INVALID_PAGE_ID \<and>
           (\<exists>gn. tree_pages t (GetParentPageId n) = Some gn \<and> \<not> IsLeafPage gn \<and>
                 p \<in> snd ` set (V (GetParentPageId n) (internal_array gn))))"

text \<open>
  The leaves from left to right: each leaf's next pointer is the next leaf and its range
  ends where the next leaf's range starts; the last leaf has no next leaf.
\<close>

fun chain_from :: "('k, 'v) BPlusTree \<Rightarrow> 'k ghost \<Rightarrow> int list \<Rightarrow> bool" where
  "chain_from t G [] = False"
| "chain_from t G [p] =
     (g_hi G p = None \<and>
      (\<exists>n. tree_pages t p = Some n \<and> IsLeafPage n \<and> GetNextPageId n = INVALID_PAGE_ID))"
| "chain_from t G (p # p' # rest) =
     (g_hi G p \<noteq> None \<and> g_hi G p = g_lo G p' \<and>
      (\<exists>n. tree_pages t p = Some n \<and> IsLeafPage n \<and> GetNextPageId n = p') \<and>
      chain_from t G (p' # rest))"

definition leaf_chain_ok :: "('k, 'v) BPlusTree \<Rightarrow> 'k ghost \<Rightarrow> bool" where
  "leaf_chain_ok t G =
     (distinct (g_chain G) \<and>
      set (g_chain G) = {p. \<exists>n. tree_pages t p = Some n \<and> IsLeafPage n} \<and>
      chain_from t G (g_chain G) \<and> g_lo G (hd (g_chain G)) = None)"

text \<open>
  The invariant, with the pages \<open>E\<close> exempt from the link to their parent. \<open>tree_inv\<close> is
  the invariant of a tree at rest.
\<close>

definition inv_gen ::
  "('k::linorder, 'v) BPlusTree \<Rightarrow> 'k ghost \<Rightarrow> (int \<Rightarrow> ('k \<times> int) list \<Rightarrow> ('k \<times> int) list) \<Rightarrow>
   int set \<Rightarrow> bool" where
  "inv_gen t G V E =
     (2 \<le> leaf_max_size t \<and> 3 \<le> internal_max_size t \<and>
      (\<forall>p \<in> dom (tree_pages t). 0 \<le> p \<and> p < tree_next_page_id t) \<and>
      root_page_id t \<in> dom (tree_pages t) \<and>
      (\<forall>p n. tree_pages t p = Some n \<longrightarrow>
         page_ok t G V p n \<and> (p \<notin> E \<longrightarrow> link_ok t G V p n) \<and>
         g_ht G p \<le> g_ht G (root_page_id t)) \<and>
      leaf_chain_ok t G)"

definition tree_inv :: "('k::linorder, 'v) BPlusTree \<Rightarrow> 'k ghost \<Rightarrow> bool" where
  "tree_inv t G = inv_gen t G (\<lambda>p arr. arr) {}"

text \<open>
  The state between the split of the page \<open>p\<close> and the arrival of the new page \<open>q\<close> with
  its first key \<open>m\<close> in the parent: the invariant with the parent of \<open>p\<close> read as if it
  had the entry already or, when \<open>p\<close> is the root, with \<open>p\<close> and \<open>q\<close> sharing the full
  range.
\<close>

definition pending :: "('k::linorder, 'v) BPlusTree \<Rightarrow> 'k ghost \<Rightarrow> int \<Rightarrow> 'k \<Rightarrow> int \<Rightarrow> bool" where
  "pending t G p m q =
     (\<exists>pn qn. tree_pages t p = Some pn \<and> tree_pages t q = Some qn \<and> p \<noteq> q \<and>
        GetParentPageId qn = GetParentPageId pn \<and>
        (if GetParentPageId pn = INVALID_PAGE_ID
         then inv_gen t G (\<lambda>x arr. arr) {p, q} \<and> root_page_id t = p \<and>
              g_lo G p = None \<and> g_hi G p = Some m \<and> g_lo G q = Some m \<and> g_hi G q = None \<and>
              g_ht G q = g_ht G p
         else inv_gen t G (\<lambda>x arr. if x = GetParentPageId pn then ins_after p (m, q) arr else arr)
                {}))"

text \<open>All keys in the leaves of a tree.\<close>

definition tree_keys :: "('k, 'v) BPlusTree \<Rightarrow> 'k set" where
  "tree_keys t = {k. \<exists>p n. tree_pages t p = Some n \<and> IsLeafPage n \<and> k \<in> set (keys_of n)}"

text \<open>The slot of a key in an internal page.\<close>

definition slot_of :: "('k::linorder \<times> int) list \<Rightarrow> 'k \<Rightarrow> nat \<Rightarrow> bool" where
  "slot_of arr key i =
     (i < length arr \<and> (i = 0 \<or> fst (arr ! i) \<le> key) \<and>
      (Suc i = length arr \<or> key < fst (arr ! Suc i)))"

text \<open>The entries of a leaf page in the store.\<close>

definition entries_of :: "('k, 'v) BPlusTree \<Rightarrow> int \<Rightarrow> ('k \<times> 'v) list" where
  "entries_of t p = (case tree_pages t p of Some (LeafPage _ _ _ _ arr) \<Rightarrow> arr | _ \<Rightarrow> [])"

text \<open>A tree before its first insertion.\<close>

definition empty_ok :: "('k, 'v) BPlusTree \<Rightarrow> bool" where
  "empty_ok t = (IsEmpty t \<and> tree_pages t = Map.empty \<and> 2 \<le> leaf_max_size t \<and>
                 3 \<le> internal_max_size t \<and> 0 \<le> tree_next_page_id t)"

section \<open>Lock manager: theorems\<close>

lemma grant_switch_compatible:
  "grant_switch_fails req held = (\<not> compatible held req)"
  by (cases req; cases held) simp_all

text \<open>
  C3 (as stated, refuted): with two waiting INTENTION_SHARED requests in the queue, the
  second is compatible with everything granted (nothing) and with the waiter before it, so
  the stated condition holds; \<open>GrantLock\<close> nevertheless answers \<open>False\<close>, because an earlier
  request that is not granted stops the loop whatever its mode.
\<close>

theorem C3_counterexample:
  "spec_grantable (mk_request 2 8 INTENTION_SHARED False)
      [mk_request 1 7 INTENTION_SHARED False, mk_request 2 8 INTENTION_SHARED False]
   \<and> \<not> GrantLock (mk_request 2 8 INTENTION_SHARED False)
      [mk_request 1 7 INTENTION_SHARED False, mk_request 2 8 INTENTION_SHARED False]"
  by (simp add: spec_grantable_def earlier_def mk_request_def)

text \<open>
  C3 (amended): for every queue and every request \<open>r\<close>, \<open>GrantLock\<close> returns true exactly
  when every request that stands before \<open>r\<close> in the queue is already granted and holds a
  mode compatible with the mode of \<open>r\<close> (strict FIFO: an earlier waiter blocks \<open>r\<close> even
  when the two modes are compatible).
\<close>

theorem C3_GrantLock_iff:
  "GrantLock r queue \<longleftrightarrow>
     (\<forall>q \<in> set (earlier (ref r) queue). granted q \<and> compatible (lock_mode q) (lock_mode r))"
proof (induction queue)
  case Nil
  show ?case by (simp add: earlier_def)
next
  case (Cons q queue)
  show ?case
  proof (cases "ref q = ref r")
    case True
    then show ?thesis by (simp add: earlier_def)
  next
    case False
    with Cons show ?thesis
      by (auto simp: earlier_def grant_switch_compatible)
  qed
qed

theorem C3_GrantLock_iff_witness:
  "GrantLock (mk_request 3 9 SHARED False)
     [mk_request 1 7 INTENTION_SHARED True, mk_request 2 8 SHARED True,
      mk_request 3 9 SHARED False]"
  using C3_GrantLock_iff [of "mk_request 3 9 SHARED False"
     "[mk_request 1 7 INTENTION_SHARED True, mk_request 2 8 SHARED True,
      mk_request 3 9 SHARED False]"]
  by (simp add: earlier_def mk_request_def)

lemma state_UpdateTableLockSet [simp]: "state (UpdateTableLockSet txn m t b) = state txn"
  by (cases m) simp_all

lemma state_UpdateRowLockSet [simp]: "state (UpdateRowLockSet txn r b) = state txn"
  by (simp add: UpdateRowLockSet_def split: LockMode.splits option.splits)

lemma unlock_set_state_terminal:
  "state txn = COMMITTED \<or> state txn = ABORTED \<Longrightarrow> unlock_set_state txn m = txn"
  by (auto simp: unlock_set_state_def)

lemma unlock_set_state_cases:
  "state (unlock_set_state txn m) = state txn \<or>
   (state (unlock_set_state txn m) = SHRINKING \<and> state txn \<noteq> COMMITTED \<and> state txn \<noteq> ABORTED)"
  by (simp add: unlock_set_state_def)

lemma table_lock_set_erase:
  "t \<notin> table_lock_set (UpdateTableLockSet txn m t False) m"
  by (cases m) simp_all

lemma held_request_not_in_removed:
  "held_request txn rs = Some r \<Longrightarrow> r \<notin> set (queue_remove r rs)"
  by (simp add: queue_remove_def)

lemma UnlockTable_success:
  assumes "UnlockTable lm txn t = (Inr True, lm', txn')"
  shows "\<exists>r. held_request txn (table_queue lm t) = Some r \<and>
             table_queue lm' t = queue_remove r (table_queue lm t) \<and>
             txn' = UpdateTableLockSet (unlock_set_state txn (lock_mode r)) (lock_mode r) (oid r) False"
  using assms
  by (auto simp: UnlockTable_def AbortTransaction_def table_queue_def
           split: option.splits if_splits)

lemma UnlockRow_success:
  assumes "UnlockRow lm txn t row = (Inr True, lm', txn')"
  shows "\<exists>r. held_request txn (row_queue lm row) = Some r \<and>
             row_queue lm' row = queue_remove r (row_queue lm row) \<and>
             txn' = UpdateRowLockSet (unlock_set_state txn (lock_mode r)) r False"
  using assms
  by (auto simp: UnlockRow_def AbortTransaction_def row_queue_def
           split: option.splits if_splits)

lemma UnlockTable_shrinks:
  "UnlockTable lm txn t = (res, lm', txn') \<Longrightarrow> state txn' = SHRINKING \<Longrightarrow>
     state txn \<noteq> SHRINKING \<Longrightarrow> state txn \<noteq> COMMITTED \<and> state txn \<noteq> ABORTED"
  by (auto simp: UnlockTable_def AbortTransaction_def unlock_set_state_def
           split: option.splits if_splits)

lemma UnlockRow_shrinks:
  "UnlockRow lm txn t row = (res, lm', txn') \<Longrightarrow> state txn' = SHRINKING \<Longrightarrow>
     state txn \<noteq> SHRINKING \<Longrightarrow> state txn \<noteq> COMMITTED \<and> state txn \<noteq> ABORTED"
  by (auto simp: UnlockRow_def AbortTransaction_def unlock_set_state_def
           split: option.splits if_splits)

text \<open>
  C9: for a transaction whose state is COMMITTED or ABORTED, a successful
  \<open>UnlockTable\<close> or \<open>UnlockRow\<close> removes the granted request of the transaction from the
  queue (and the table oid from the lock set of its mode) and leaves the state as it was,
  so it never becomes SHRINKING; and whenever either call changes the state to SHRINKING,
  the state before was neither COMMITTED nor ABORTED.
\<close>

theorem C9_unlock_keeps_terminal_state:
  "(state txn = COMMITTED \<or> state txn = ABORTED \<longrightarrow>
      (UnlockTable lm txn t = (Inr True, lm1, txn1) \<longrightarrow>
         state txn1 = state txn \<and> state txn1 \<noteq> SHRINKING \<and>
         (\<exists>r. held_request txn (table_queue lm t) = Some r \<and>
              r \<notin> set (table_queue lm1 t) \<and> oid r \<notin> table_lock_set txn1 (lock_mode r))) \<and>
      (UnlockRow lm txn t row = (Inr True, lm2, txn2) \<longrightarrow>
         state txn2 = state txn \<and> state txn2 \<noteq> SHRINKING \<and>
         (\<exists>r. held_request txn (row_queue lm row) = Some r \<and> r \<notin> set (row_queue lm2 row)))) \<and>
   (UnlockTable lm txn t = (res1, lm1, txn1) \<and> state txn1 = SHRINKING \<and> state txn \<noteq> SHRINKING \<longrightarrow>
      state txn \<noteq> COMMITTED \<and> state txn \<noteq> ABORTED) \<and>
   (UnlockRow lm txn t row = (res2, lm2, txn2) \<and> state txn2 = SHRINKING \<and> state txn \<noteq> SHRINKING \<longrightarrow>
      state txn \<noteq> COMMITTED \<and> state txn \<noteq> ABORTED)"
proof (intro conjI impI)
  assume fin: "state txn = COMMITTED \<or> state txn = ABORTED"
    and ok: "UnlockTable lm txn t = (Inr True, lm1, txn1)"
  from UnlockTable_success [OF ok] obtain r where
    r: "held_request txn (table_queue lm t) = Some r"
       "table_queue lm1 t = queue_remove r (table_queue lm t)"
       "txn1 = UpdateTableLockSet (unlock_set_state txn (lock_mode r)) (lock_mode r) (oid r) False"
    by blast
  from fin r(3) show "state txn1 = state txn"
    by (simp add: unlock_set_state_terminal)
  with fin show "state txn1 \<noteq> SHRINKING" by auto
  from r show "\<exists>r. held_request txn (table_queue lm t) = Some r \<and>
      r \<notin> set (table_queue lm1 t) \<and> oid r \<notin> table_lock_set txn1 (lock_mode r)"
    by (auto simp: held_request_not_in_removed table_lock_set_erase)
next
  assume fin: "state txn = COMMITTED \<or> state txn = ABORTED"
    and ok: "UnlockRow lm txn t row = (Inr True, lm2, txn2)"
  from UnlockRow_success [OF ok] obtain r where
    r: "held_request txn (row_queue lm row) = Some r"
       "row_queue lm2 row = queue_remove r (row_queue lm row)"
       "txn2 = UpdateRowLockSet (unlock_set_state txn (lock_mode r)) r False"
    by blast
  from fin r(3) show "state txn2 = state txn"
    by (simp add: unlock_set_state_terminal)
  with fin show "state txn2 \<noteq> SHRINKING" by auto
  from r show "\<exists>r. held_request txn (row_queue lm row) = Some r \<and> r \<notin> set (row_queue lm2 row)"
    by (auto simp: held_request_not_in_removed)
next
  assume a: "UnlockTable lm txn t = (res1, lm1, txn1) \<and> state txn1 = SHRINKING \<and> state txn \<noteq> SHRINKING"
  then show "state txn \<noteq> COMMITTED" and "state txn \<noteq> ABORTED"
    using UnlockTable_shrinks [of lm txn t res1 lm1 txn1] by simp_all
next
  assume a: "UnlockRow lm txn t row = (res2, lm2, txn2) \<and> state txn2 = SHRINKING \<and> state txn \<noteq> SHRINKING"
  then show "state txn \<noteq> COMMITTED" and "state txn \<noteq> ABORTED"
    using UnlockRow_shrinks [of lm txn t row res2 lm2 txn2] by simp_all
qed

theorem C9_unlock_keeps_terminal_state_witness:
  "state (snd (snd (UnlockTable
       (one_queue_lm 5 [mk_request 1 7 EXCLUSIVE True] (0, 0)
          [mk_row_request 2 7 EXCLUSIVE 5 (0, 0) True])
       (mk_txn 7 COMMITTED REPEATABLE_READ) 0))) = ABORTED \<and>
   state (snd (snd (UnlockTable
       (one_queue_lm 5 [mk_request 1 7 EXCLUSIVE True] (0, 0)
          [mk_row_request 2 7 EXCLUSIVE 5 (0, 0) True])
       (mk_txn 7 COMMITTED REPEATABLE_READ) 5))) = COMMITTED \<and>
   state (snd (snd (UnlockRow
       (one_queue_lm 5 [mk_request 1 7 EXCLUSIVE True] (0, 0)
          [mk_row_request 2 7 EXCLUSIVE 5 (0, 0) True])
       (mk_txn 7 COMMITTED REPEATABLE_READ) 5 (0, 0)))) = COMMITTED \<and>
   state (snd (snd (UnlockTable
       (one_queue_lm 5 [mk_request 1 7 EXCLUSIVE True] (0, 0)
          [mk_row_request 2 7 EXCLUSIVE 5 (0, 0) True])
       (mk_txn 7 GROWING REPEATABLE_READ) 5))) = SHRINKING"
  using C9_unlock_keeps_terminal_state
    [of "mk_txn 7 COMMITTED REPEATABLE_READ"
        "one_queue_lm 5 [mk_request 1 7 EXCLUSIVE True] (0, 0)
          [mk_row_request 2 7 EXCLUSIVE 5 (0, 0) True]"
        5
        "fst (snd (UnlockTable
          (one_queue_lm 5 [mk_request 1 7 EXCLUSIVE True] (0, 0)
             [mk_row_request 2 7 EXCLUSIVE 5 (0, 0) True])
          (mk_txn 7 COMMITTED REPEATABLE_READ) 5))"
        "snd (snd (UnlockTable
          (one_queue_lm 5 [mk_request 1 7 EXCLUSIVE True] (0, 0)
             [mk_row_request 2 7 EXCLUSIVE 5 (0, 0) True])
          (mk_txn 7 COMMITTED REPEATABLE_READ) 5))"
        "(0, 0)"
        "fst (snd (UnlockRow
          (one_queue_lm 5 [mk_request 1 7 EXCLUSIVE True] (0, 0)
             [mk_row_request 2 7 EXCLUSIVE 5 (0, 0) True])
          (mk_txn 7 COMMITTED REPEATABLE_READ) 5 (0, 0)))"
        "snd (snd (UnlockRow
          (one_queue_lm 5 [mk_request 1 7 EXCLUSIVE True] (0, 0)
             [mk_row_request 2 7 EXCLUSIVE 5 (0, 0) True])
          (mk_txn 7 COMMITTED REPEATABLE_READ) 5 (0, 0)))"]
  by (simp add: UnlockTable_def UnlockRow_def one_queue_lm_def mk_request_def
        mk_row_request_def mk_txn_def held_request_def queue_remove_def row_set_at_def
        AbortTransaction_def unlock_set_state_def shrink_on_unlock_def UpdateRowLockSet_def)

section \<open>Executors: theorems\<close>




















text \<open>
  C5 (the code at the failing input): with a lock manager that refuses every request,
  \<open>InsertExecutor_Init\<close> still succeeds, holds no INTENTION_EXCLUSIVE lock and has not
  touched the lock manager, and \<open>Next\<close> inserts the child row; the delete executor's
  \<open>Init\<close> on the same lock manager raises the execution error.
\<close>

theorem C5_insert_takes_no_lock:
  "(case InsertExecutor_Init (list_services False) (list_insert_executor [([INTEGER 4], (0, 0))]) of
      Inl e \<Rightarrow> False
    | Inr ex \<Rightarrow>
        ix_table_lock_set (ctx_txn (ins_ctx ex)) = {} \<and>
        table_lock_map (ctx_lock_manager (ins_ctx ex)) = Map.empty \<and>
        map_option fst (InsertExecutor_Next (list_services False) ex) =
          Some (Inr (Some [INTEGER 1])) \<and>
        map_option (\<lambda>res. ctx_table (ins_ctx (snd res)))
          (InsertExecutor_Next (list_services False) ex) = Some [([INTEGER 4], False)]) \<and>
   fst (DeleteExecutor_Init (list_services False)
          (list_delete_executor [] [([INTEGER 4], (0, 0))]))
     = Inl (ExecutionException ''Delete Executor: failed to lock table'')"
  by (simp add: DeleteExecutor_Init_def InsertExecutor_Init_def list_services_def
        list_delete_executor_def list_insert_executor_def mk_txn_def yields_def
        list_context_def child_Init_def InsertExecutor_Next_def)

section \<open>LRU-K replacer: theorems\<close>

lemma inv_new: "0 < k \<Longrightarrow> replacer_inv (LRUKReplacer_new n k)"
  by (auto simp: replacer_inv_def LRUKReplacer_new_def Frame_new_def frame_ok_def)

lemma set_update_inv:
  assumes "\<forall>x \<in> set xs. P x" "P y"
  shows "\<forall>x \<in> set (xs[i := y]). P x"
  using assms by (metis insertE set_update_subset_insert subsetD)

lemma inv_RecordAccess:
  assumes "replacer_inv r" "RecordAccess r f = Some r'"
  shows "replacer_inv r'"
proof -
  from assms(2) have f: "f < replacer_size r"
    by (auto simp: RecordAccess_def split: if_splits)
  with assms(1) have mem: "frames r ! f \<in> set (frames r)"
    by (simp add: replacer_inv_def)
  define P where "P = frame_ok (k_param r)"
  from assms(1) have all: "\<forall>x \<in> set (frames r). P x" and k: "0 < k_param r"
    by (simp_all add: replacer_inv_def P_def frame_ok_def)
  with mem have Pf: "P (frames r ! f)" by blast
  define fr1 where "fr1 = (if \<not> valid (frames r ! f)
      then (frames r ! f)\<lparr>valid := True, evictable := True\<rparr> else frames r ! f)"
  have "P (Access fr1 (current_timestamp r))"
    using Pf k by (auto simp: P_def frame_ok_def fr1_def Access_def Full_def)
  from set_update_inv [OF all this]
  have "\<forall>x \<in> set ((frames r)[f := Access fr1 (current_timestamp r)]). P x" .
  moreover from assms(2) f
  have "frames r' = (frames r)[f := Access fr1 (current_timestamp r)]"
       "k_param r' = k_param r" "replacer_size r' = replacer_size r"
    by (auto simp: RecordAccess_def Let_def fr1_def)
  ultimately show ?thesis using assms(1) by (simp add: replacer_inv_def P_def frame_ok_def)
qed

lemma inv_SetEvictable:
  assumes "replacer_inv r" "SetEvictable r f b = Some r'"
  shows "replacer_inv r'"
proof -
  define P where "P = frame_ok (k_param r)"
  from assms(1) have all: "\<forall>x \<in> set (frames r). P x"
    by (simp_all add: replacer_inv_def P_def frame_ok_def)
  from assms(2) have f: "f < replacer_size r"
    by (auto simp: SetEvictable_def split: if_splits)
  with assms(1) have "frames r ! f \<in> set (frames r)"
    by (simp add: replacer_inv_def)
  with all have Pf: "P (frames r ! f)" by blast
  show ?thesis
  proof (cases "valid (frames r ! f) \<and> evictable (frames r ! f) \<noteq> b")
    case False
    with assms f have "r' = r" by (auto simp: SetEvictable_def Let_def split: if_splits)
    with assms(1) show ?thesis by simp
  next
    case True
    with Pf have "P ((frames r ! f)\<lparr>evictable := b\<rparr>)" by (auto simp: P_def frame_ok_def)
    from set_update_inv [OF all this]
    have "\<forall>x \<in> set ((frames r)[f := (frames r ! f)\<lparr>evictable := b\<rparr>]). P x" .
    moreover from assms(2) f True
    have "frames r' = (frames r)[f := (frames r ! f)\<lparr>evictable := b\<rparr>]"
       "k_param r' = k_param r" "replacer_size r' = replacer_size r"
      by (auto simp: SetEvictable_def Let_def split: if_splits)
    ultimately show ?thesis using assms(1) by (simp add: replacer_inv_def P_def frame_ok_def)
  qed
qed

lemma inv_reset:
  assumes "replacer_inv r"
  shows "replacer_inv (r\<lparr>frames := (frames r)[f := Reset (frames r ! f)], curr_size := c\<rparr>)"
proof -
  define P where "P = frame_ok (k_param r)"
  from assms(1) have all: "\<forall>x \<in> set (frames r). P x"
    by (simp_all add: replacer_inv_def P_def frame_ok_def)
  show ?thesis
  proof (cases "f < length (frames r)")
    case True
    then have "frames r ! f \<in> set (frames r)" by simp
    with all have "P (Reset (frames r ! f))" by (auto simp: P_def frame_ok_def Reset_def)
    from set_update_inv [OF all this] assms show ?thesis
      by (simp add: replacer_inv_def P_def frame_ok_def)
  next
    case False
    then have "(frames r)[f := Reset (frames r ! f)] = frames r"
      by (simp add: list_update_beyond)
    then show ?thesis using assms by (simp add: replacer_inv_def)
  qed
qed

lemma inv_Remove:
  assumes "replacer_inv r" "Remove r f = Some r'"
  shows "replacer_inv r'"
  using assms inv_reset [OF assms(1)]
  by (auto simp: Remove_def Let_def split: if_splits)

lemma inv_Evict: "replacer_inv r \<Longrightarrow> replacer_inv (snd (Evict r))"
  using inv_reset by (auto simp: Evict_def split: option.splits)

lemma inv_run:
  "replacer_inv r \<Longrightarrow> replacer_run ops r = Some r' \<Longrightarrow> replacer_inv r'"
proof (induction ops arbitrary: r)
  case Nil
  then show ?case by simp
next
  case (Cons x xs)
  then obtain r1 where r1: "replacer_apply x r = Some r1" "replacer_run xs r1 = Some r'"
    by (auto split: option.splits)
  from r1(1) Cons.prems(1) have "replacer_inv r1"
    by (cases x) (auto intro: inv_RecordAccess inv_SetEvictable inv_Remove inv_Evict)
  with Cons.IH r1(2) show ?case by blast
qed

text \<open>The scan returns a least evictable frame for the order of \<open>frame_cmp\<close>.\<close>

lemma frame_cmp_key:
  "frame_cmp a b \<longleftrightarrow> (fst (fkey a) < fst (fkey b) \<or> (fst (fkey a) = fst (fkey b) \<and> snd (fkey a) < snd (fkey b)))"
  by (auto simp: frame_cmp_def fkey_def)

lemma not_cmp_trans: "\<not> frame_cmp a b \<Longrightarrow> \<not> frame_cmp b c \<Longrightarrow> \<not> frame_cmp a c"
  by (auto simp: frame_cmp_key)

lemma cmp_not_sym: "frame_cmp a b \<Longrightarrow> \<not> frame_cmp b a"
  by (auto simp: frame_cmp_key)

lemma scan_upto:
  "fold (evict_step fs) [0..<n] None = res \<Longrightarrow>
     (case res of
        None \<Rightarrow> (\<forall>i<n. \<not> evictable (fs ! i))
      | Some f \<Rightarrow> f < n \<and> evictable (fs ! f) \<and>
           (\<forall>i<n. evictable (fs ! i) \<longrightarrow> \<not> frame_cmp (fs ! i) (fs ! f)) \<and>
           (\<forall>i<f. evictable (fs ! i) \<longrightarrow> frame_cmp (fs ! f) (fs ! i)))"
proof (induction n arbitrary: res)
  case 0
  then show ?case by auto
next
  case (Suc n)
  define prev where "prev = fold (evict_step fs) [0..<n] None"
  have res: "res = evict_step fs n prev" using Suc.prems by (simp add: prev_def)
  note IH = Suc.IH [OF prev_def [symmetric]]
  show ?case
  proof (cases "evictable (fs ! n)")
    case False
    then have "res = prev" by (simp add: res evict_step_def)
    with IH False show ?thesis
      by (auto split: option.splits simp: less_Suc_eq)
  next
    case True
    show ?thesis
    proof (cases prev)
      case None
      with True res have "res = Some n" by (simp add: evict_step_def)
      with None IH True show ?thesis by (auto simp: less_Suc_eq frame_cmp_key)
    next
      case (Some b)
      note b = Some
      show ?thesis
      proof (cases "frame_cmp (fs ! n) (fs ! b)")
        case c: True
        with True res b have r: "res = Some n" by (simp add: evict_step_def)
        have "\<forall>i<n. evictable (fs ! i) \<longrightarrow> \<not> frame_cmp (fs ! i) (fs ! n)"
          using IH b c by (auto simp: frame_cmp_key) 
        moreover have "\<forall>i<n. evictable (fs ! i) \<longrightarrow> frame_cmp (fs ! n) (fs ! i)"
          using IH b c by (auto simp: frame_cmp_key) 
        ultimately show ?thesis using r True by (auto simp: less_Suc_eq frame_cmp_key)
      next
        case c: False
        with True res b have r: "res = Some b" by (simp add: evict_step_def)
        with IH b c True show ?thesis by (auto simp: less_Suc_eq)
      qed
    qed
  qed
qed

lemma rev_nth_full:
  assumes "length h = k" "0 < k"
  shows "rev h ! (k - Suc 0) = hd h"
proof -
  from assms have "rev h ! (k - Suc 0) = h ! (length h - Suc (k - Suc 0))"
    by (intro rev_nth) simp
  also from assms have "\<dots> = h ! 0" by simp
  also from assms have "\<dots> = hd h" by (cases h) simp_all
  finally show ?thesis .
qed

lemma Timestamp_hd: "history fr \<noteq> [] \<Longrightarrow> Timestamp fr = hd (history fr)"
  by (cases "history fr") (simp_all add: Timestamp_def)

lemma evict_scan_cases:
  "(case evict_scan r of
        None \<Rightarrow> (\<forall>i<replacer_size r. \<not> evictable (frames r ! i))
      | Some f \<Rightarrow> f < replacer_size r \<and> evictable (frames r ! f) \<and>
           (\<forall>i<replacer_size r. evictable (frames r ! i) \<longrightarrow>
               \<not> frame_cmp (frames r ! i) (frames r ! f)))"
  using scan_upto [of "frames r" "replacer_size r" "evict_scan r"]
  by (auto simp: evict_scan_def split: option.splits)

text \<open>
  C6: in every replacer state that the operations produce from a fresh replacer with
  \<open>k > 0\<close>, \<open>Evict\<close> returns false (no frame) when no valid evictable frame exists;
  otherwise it returns a valid evictable frame whose backward K-distance is largest among
  the valid evictable frames (\<open>None\<close> is \<open>+\<infinity>\<close>: fewer than \<open>k\<close> recorded accesses;
  otherwise the current timestamp minus the timestamp of the \<open>k\<close>-th most recent access),
  and when the distance of the chosen frame is \<open>+\<infinity>\<close>, its oldest recorded access is
  not later than that of any other valid evictable frame with distance \<open>+\<infinity>\<close>.
\<close>

theorem C6_Evict_largest_distance:
  assumes k: "0 < k" and run: "replacer_run ops (LRUKReplacer_new n k) = Some r"
  shows "(\<not> has_candidate r \<longrightarrow> fst (Evict r) = None) \<and>
         (has_candidate r \<longrightarrow>
            (\<exists>f. fst (Evict r) = Some f \<and> candidate r f \<and>
               (\<forall>j. candidate r j \<longrightarrow> dist_le (rdist r j) (rdist r f)) \<and>
               (rdist r f = None \<longrightarrow>
                  (\<forall>j. candidate r j \<and> rdist r j = None \<longrightarrow>
                     hd (history (frames r ! f)) \<le> hd (history (frames r ! j))))))"
proof -
  have inv: "replacer_inv r"
    using inv_run [OF inv_new [OF k] run] .
  have ok: "frame_ok (k_param r) (frames r ! i)" if "i < replacer_size r" for i
    using inv that by (simp add: replacer_inv_def)
  have kp: "0 < k_param r" using inv by (simp add: replacer_inv_def)
  have ev_cand: "candidate r i \<longleftrightarrow> i < replacer_size r \<and> evictable (frames r ! i)" for i
    using ok [of i] by (auto simp: candidate_def frame_ok_def)
  have dist_None: "rdist r i = None \<longleftrightarrow> \<not> Full (frames r ! i)" if "i < replacer_size r" for i
    using ok [OF that] by (auto simp: rdist_def backward_k_distance_def Full_def frame_ok_def)
  have dist_Some: "rdist r i = Some (current_timestamp r - Timestamp (frames r ! i))"
    if "i < replacer_size r" "Full (frames r ! i)" for i
  proof -
    from ok [OF that(1)] that(2) kp have len: "length (history (frames r ! i)) = k_param r"
      by (simp add: Full_def frame_ok_def)
    with kp have ne: "history (frames r ! i) \<noteq> []" by auto
    from len kp show ?thesis
      by (simp add: rdist_def backward_k_distance_def rev_nth_full Timestamp_hd [OF ne])
  qed
  show ?thesis
  proof (cases "evict_scan r")
    case None
    with evict_scan_cases [of r] have "\<forall>i<replacer_size r. \<not> evictable (frames r ! i)" by simp
    then have "\<not> has_candidate r" by (auto simp: has_candidate_def candidate_def)
    with None show ?thesis by (simp add: Evict_def)
  next
    case (Some f)
    with evict_scan_cases [of r]
    have f: "f < replacer_size r" "evictable (frames r ! f)"
      and least: "\<And>i. i < replacer_size r \<Longrightarrow> evictable (frames r ! i) \<Longrightarrow>
               \<not> frame_cmp (frames r ! i) (frames r ! f)"
      by simp_all
    have cf: "candidate r f" using f by (simp add: ev_cand)
    have d: "dist_le (rdist r j) (rdist r f)" if "candidate r j" for j
    proof (cases "Full (frames r ! f)")
      case False
      with dist_None [OF f(1)] have "rdist r f = None" by simp
      then show ?thesis by simp
    next
      case True
      from that have j: "j < replacer_size r" "evictable (frames r ! j)" by (simp_all add: ev_cand)
      from least [OF j] True have "Full (frames r ! j)"
        and "Timestamp (frames r ! f) \<le> Timestamp (frames r ! j)"
        by (auto simp: frame_cmp_def split: if_splits)
      with dist_Some [OF f(1) True] dist_Some [OF j(1)] show ?thesis by simp
    qed
    have t: "hd (history (frames r ! f)) \<le> hd (history (frames r ! j))"
      if "candidate r j" "rdist r j = None" "rdist r f = None" for j
    proof -
      from that have j: "j < replacer_size r" "evictable (frames r ! j)" by (simp_all add: ev_cand)
      from that dist_None [OF j(1)] dist_None [OF f(1)]
      have nf: "\<not> Full (frames r ! j)" "\<not> Full (frames r ! f)" by simp_all
      with least [OF j] have le: "Timestamp (frames r ! f) \<le> Timestamp (frames r ! j)"
        by (auto simp: frame_cmp_def)
      from ok [OF j(1)] j(2) ok [OF f(1)] f(2)
      have "history (frames r ! j) \<noteq> []" "history (frames r ! f) \<noteq> []"
        by (auto simp: frame_ok_def)
      with le show ?thesis by (simp add: Timestamp_hd)
    qed
    from cf have "has_candidate r" using f(1) by (auto simp: has_candidate_def)
    moreover from Some have "fst (Evict r) = Some f" by (simp add: Evict_def)
    ultimately show ?thesis using cf d t by blast
  qed
qed

lemma spec_example_run:
  "replacer_run spec_example_ops (LRUKReplacer_new 7 2) =
     Some (the (replacer_run spec_example_ops (LRUKReplacer_new 7 2)))"
  by (simp add: spec_example_ops_def LRUKReplacer_new_def RecordAccess_def Let_def
       Frame_new_def Access_def Full_def numeral_eq_Suc)

text \<open>
  The example of the specification: \<open>k = 2\<close>, accesses to frames 1, 2, 3, 1, 2, all
  evictable; frame 3 is the only one with fewer than two accesses and is evicted.
\<close>

theorem C6_Evict_largest_distance_witness:
  "fst (Evict (the (replacer_run spec_example_ops (LRUKReplacer_new 7 2)))) = Some 3"
proof -
  have c: "has_candidate (the (replacer_run spec_example_ops (LRUKReplacer_new 7 2)))"
    by code_simp
  have e: "fst (Evict (the (replacer_run spec_example_ops (LRUKReplacer_new 7 2)))) = Some 3"
    by code_simp
  have "0 < (2::nat)" by simp
  from C6_Evict_largest_distance [OF this spec_example_run] c e show ?thesis by blast
qed

section \<open>Buffer pool manager: theorems\<close>

lemma RecordAccess_spec:
  assumes "f < replacer_size r" "length (frames r) = replacer_size r + 1"
  shows "\<exists>r'. RecordAccess r f = Some r' \<and> replacer_size r' = replacer_size r \<and>
           length (frames r') = length (frames r) \<and> valid (frames r' ! f) \<and>
           evictable (frames r' ! f) = (if valid (frames r ! f) then evictable (frames r ! f) else True) \<and>
           (\<forall>i. i \<noteq> f \<longrightarrow> frames r' ! i = frames r ! i)"
  using assms by (auto simp: RecordAccess_def Let_def Access_def)

lemma SetEvictable_spec:
  assumes "f < replacer_size r" "length (frames r) = replacer_size r + 1"
  shows "\<exists>r'. SetEvictable r f b = Some r' \<and> replacer_size r' = replacer_size r \<and>
           length (frames r') = length (frames r) \<and>
           valid (frames r' ! f) = valid (frames r ! f) \<and>
           (valid (frames r ! f) \<longrightarrow> evictable (frames r' ! f) = b) \<and>
           (\<forall>i. i \<noteq> f \<longrightarrow> frames r' ! i = frames r ! i)"
  using assms by (auto simp: SetEvictable_def Let_def)

lemma touch_frame_spec:
  assumes "f < replacer_size r" "length (frames r) = replacer_size r + 1"
  shows "\<exists>r'. touch_frame r f = Some r' \<and> replacer_size r' = replacer_size r \<and>
           length (frames r') = length (frames r) \<and> valid (frames r' ! f) \<and>
           \<not> evictable (frames r' ! f) \<and>
           (\<forall>i. i \<noteq> f \<longrightarrow> frames r' ! i = frames r ! i)"
proof -
  from RecordAccess_spec [OF assms] obtain r1 where r1:
    "RecordAccess r f = Some r1" "replacer_size r1 = replacer_size r"
    "length (frames r1) = length (frames r)" "valid (frames r1 ! f)"
    "\<forall>i. i \<noteq> f \<longrightarrow> frames r1 ! i = frames r ! i"
    by blast
  from r1 assms have "f < replacer_size r1" "length (frames r1) = replacer_size r1 + 1" by simp_all
  from SetEvictable_spec [OF this, of False] obtain r2 where r2:
    "SetEvictable r1 f False = Some r2" "replacer_size r2 = replacer_size r1"
    "length (frames r2) = length (frames r1)" "valid (frames r2 ! f) = valid (frames r1 ! f)"
    "valid (frames r1 ! f) \<longrightarrow> evictable (frames r2 ! f) = False"
    "\<forall>i. i \<noteq> f \<longrightarrow> frames r2 ! i = frames r1 ! i"
    by blast
  from r1 r2 show ?thesis by (auto simp: touch_frame_def)
qed

lemma Remove_spec:
  assumes "f < replacer_size r" "length (frames r) = replacer_size r + 1"
    "valid (frames r ! f) \<longrightarrow> evictable (frames r ! f)"
  shows "\<exists>r'. Remove r f = Some r' \<and> replacer_size r' = replacer_size r \<and>
           length (frames r') = length (frames r) \<and>
           (\<forall>i. i \<noteq> f \<longrightarrow> frames r' ! i = frames r ! i)"
  using assms by (auto simp: Remove_def Let_def)

lemma Evict_None_iff:
  "fst (Evict r) = None \<longleftrightarrow> (\<forall>i<replacer_size r. \<not> evictable (frames r ! i))"
  using evict_scan_cases [of r] by (auto simp: Evict_def split: option.splits)

lemma Evict_Some:
  assumes "Evict r = (Some f, r')"
  shows "f < replacer_size r \<and> evictable (frames r ! f) \<and> replacer_size r' = replacer_size r \<and>
         length (frames r') = length (frames r) \<and>
         (\<forall>i. i \<noteq> f \<longrightarrow> frames r' ! i = frames r ! i)"
  using assms evict_scan_cases [of r] by (auto simp: Evict_def split: option.splits)

lemma Evict_None_state: "Evict r = (None, r') \<Longrightarrow> r' = r"
  by (auto simp: Evict_def split: option.splits)

text \<open>Installing a page with pin count 1 into a frame that is no longer free.\<close>

lemma install_inv:
  assumes inv: "bpm_inv s0"
    and s': "pool_size s' = pool_size s0" "free_list s' = fl" "replacer s' = rp"
       "page_table s' = pt(pid \<mapsto> f)" "pages s' = (pages s0)[f := page]"
    and f: "f < pool_size s0" "f \<notin> set fl"
    and fl: "distinct fl" "set fl \<subseteq> set (free_list s0)"
    and pt: "\<forall>p g. pt p = Some g \<longrightarrow>
         g < pool_size s0 \<and> g \<notin> set fl \<and> g \<noteq> f \<and> page_id (pages s0 ! g) = p"
    and rp: "replacer_size rp = pool_size s0" "length (frames rp) = pool_size s0 + 1"
       "valid (frames rp ! f)" "\<not> evictable (frames rp ! f)"
       "\<forall>i. i \<noteq> f \<longrightarrow> i \<notin> set fl \<longrightarrow> i < pool_size s0 \<longrightarrow>
            valid (frames rp ! i) \<and> (evictable (frames rp ! i) \<longleftrightarrow> pin_count (pages s0 ! i) = 0)"
    and pg: "pin_count page = 1" "page_id page = pid"
  shows "bpm_inv s'"
  using assms unfolding bpm_inv_def
  by (auto simp: nth_list_update)

lemma bpm_inv_new: "bpm_inv (BufferPoolManagerInstance_new n k dsk)"
  by (auto simp: bpm_inv_def BufferPoolManagerInstance_new_def LRUKReplacer_new_def)

lemma NewPgImp_inv:
  assumes inv: "bpm_inv s"
  shows "\<exists>res s'. NewPgImp s = Some (res, s') \<and> bpm_inv s' \<and> pool_size s' = pool_size s"
proof (cases "free_list s")
  case (Cons f fl)
  with inv have f: "f < pool_size s" "f \<notin> set fl" "distinct fl" "set fl \<subseteq> set (free_list s)"
    by (auto simp: bpm_inv_def)
  from inv f(1) have "f < replacer_size (replacer s)"
    "length (frames (replacer s)) = replacer_size (replacer s) + 1"
    by (simp_all add: bpm_inv_def)
  from touch_frame_spec [OF this] obtain rp where rp:
    "touch_frame (replacer s) f = Some rp" "replacer_size rp = replacer_size (replacer s)"
    "length (frames rp) = length (frames (replacer s))" "valid (frames rp ! f)"
    "\<not> evictable (frames rp ! f)" "\<forall>i. i \<noteq> f \<longrightarrow> frames rp ! i = frames (replacer s) ! i"
    by blast
  from Cons rp(1) obtain res s' where new: "NewPgImp s = Some (res, s')"
    and s': "pool_size s' = pool_size s" "free_list s' = fl" "replacer s' = rp"
       "page_table s' = (page_table s)(next_page_id s \<mapsto> f)"
       "pages s' = (pages s)[f := \<lparr>page_id = next_page_id s, pin_count = 1, is_dirty = False,
              page_data = 0\<rparr>]"
    by (simp add: NewPgImp_def Let_def)
  have "bpm_inv s'"
  proof (rule install_inv [OF inv s' f])
    show "\<forall>p g. page_table s p = Some g \<longrightarrow>
         g < pool_size s \<and> g \<notin> set fl \<and> g \<noteq> f \<and> page_id (pages s ! g) = p"
      using inv Cons by (auto simp: bpm_inv_def)
    show "\<forall>i. i \<noteq> f \<longrightarrow> i \<notin> set fl \<longrightarrow> i < pool_size s \<longrightarrow>
       valid (frames rp ! i) \<and> (evictable (frames rp ! i) \<longleftrightarrow> pin_count (pages s ! i) = 0)"
      using inv Cons rp(6) by (auto simp: bpm_inv_def)
  qed (use inv rp in \<open>simp_all add: bpm_inv_def\<close>)
  with new s'(1) show ?thesis by blast
next
  case Nil
  show ?thesis
  proof (cases "Evict (replacer s)")
    case (Pair v r1)
    show ?thesis
    proof (cases v)
      case None
      with Nil Pair inv show ?thesis by (simp add: NewPgImp_def)
    next
      case (Some f)
      from Evict_Some [OF Pair [unfolded Some]] inv
      have f: "f < pool_size s" and r1: "replacer_size r1 = pool_size s"
        "length (frames r1) = pool_size s + 1"
        "\<forall>i. i \<noteq> f \<longrightarrow> frames r1 ! i = frames (replacer s) ! i"
        by (auto simp: bpm_inv_def)
      from f r1 have "f < replacer_size r1" "length (frames r1) = replacer_size r1 + 1" by simp_all
      from touch_frame_spec [OF this] obtain rp where rp:
        "touch_frame r1 f = Some rp" "replacer_size rp = replacer_size r1"
        "length (frames rp) = length (frames r1)" "valid (frames rp ! f)"
        "\<not> evictable (frames rp ! f)" "\<forall>i. i \<noteq> f \<longrightarrow> frames rp ! i = frames r1 ! i"
        by blast
      define pt where "pt = (page_table s)(page_id (pages s ! f) := None)"
      from Nil Pair Some rp(1) obtain res s' where new: "NewPgImp s = Some (res, s')"
        and s': "pool_size s' = pool_size s" "free_list s' = []" "replacer s' = rp"
          "page_table s' = pt(next_page_id s \<mapsto> f)"
          "pages s' = (pages s)[f := \<lparr>page_id = next_page_id s, pin_count = 1, is_dirty = False,
              page_data = 0\<rparr>]"
        by (simp add: NewPgImp_def Let_def pt_def)
      have "bpm_inv s'"
      proof (rule install_inv [OF inv s' f])
        show "\<forall>p g. pt p = Some g \<longrightarrow>
         g < pool_size s \<and> g \<notin> set [] \<and> g \<noteq> f \<and> page_id (pages s ! g) = p"
          using inv by (auto simp: bpm_inv_def pt_def split: if_splits)
        show "\<forall>i. i \<noteq> f \<longrightarrow> i \<notin> set [] \<longrightarrow> i < pool_size s \<longrightarrow>
           valid (frames rp ! i) \<and> (evictable (frames rp ! i) \<longleftrightarrow> pin_count (pages s ! i) = 0)"
          using inv Nil rp(6) r1(3) by (auto simp: bpm_inv_def)
      qed (use inv rp r1 in \<open>simp_all add: bpm_inv_def\<close>)
      with new s'(1) show ?thesis by blast
    qed
  qed
qed

lemma FetchPgImp_inv:
  assumes inv: "bpm_inv s"
  shows "\<exists>res s'. FetchPgImp s pid = Some (res, s') \<and> bpm_inv s' \<and> pool_size s' = pool_size s"
proof (cases "page_table s pid")
  case (Some f)
  with inv have f: "f < pool_size s" "f \<notin> set (free_list s)" by (auto simp: bpm_inv_def)
  from inv f(1) have "f < replacer_size (replacer s)"
    "length (frames (replacer s)) = replacer_size (replacer s) + 1"
    by (simp_all add: bpm_inv_def)
  from touch_frame_spec [OF this] obtain rp where rp:
    "touch_frame (replacer s) f = Some rp" "replacer_size rp = replacer_size (replacer s)"
    "length (frames rp) = length (frames (replacer s))" "valid (frames rp ! f)"
    "\<not> evictable (frames rp ! f)" "\<forall>i. i \<noteq> f \<longrightarrow> frames rp ! i = frames (replacer s) ! i"
    by blast
  from Some rp(1) obtain res s' where new: "FetchPgImp s pid = Some (res, s')"
    and s': "pool_size s' = pool_size s" "free_list s' = free_list s" "replacer s' = rp"
       "page_table s' = page_table s"
       "pages s' = (pages s)[f := (pages s ! f)\<lparr>pin_count := pin_count (pages s ! f) + 1\<rparr>]"
    by (simp add: FetchPgImp_def Let_def)
  from inv f have pin: "0 \<le> pin_count (pages s ! f)" by (simp add: bpm_inv_def)
  have "bpm_inv s'"
    using inv f rp(2-) pin unfolding bpm_inv_def s'
    by (auto simp: nth_list_update)
  with new s'(1) show ?thesis by blast
next
  case None
  note nf = None
  show ?thesis
  proof (cases "free_list s")
    case (Cons f fl)
    with inv have f: "f < pool_size s" "f \<notin> set fl" "distinct fl" "set fl \<subseteq> set (free_list s)"
      by (auto simp: bpm_inv_def)
    from inv f(1) have "f < replacer_size (replacer s)"
      "length (frames (replacer s)) = replacer_size (replacer s) + 1"
      by (simp_all add: bpm_inv_def)
    from touch_frame_spec [OF this] obtain rp where rp:
      "touch_frame (replacer s) f = Some rp" "replacer_size rp = replacer_size (replacer s)"
      "length (frames rp) = length (frames (replacer s))" "valid (frames rp ! f)"
      "\<not> evictable (frames rp ! f)" "\<forall>i. i \<noteq> f \<longrightarrow> frames rp ! i = frames (replacer s) ! i"
      by blast
    from nf Cons rp(1) obtain res s' where new: "FetchPgImp s pid = Some (res, s')"
      and s': "pool_size s' = pool_size s" "free_list s' = fl" "replacer s' = rp"
         "page_table s' = (page_table s)(pid \<mapsto> f)"
         "pages s' = (pages s)[f := \<lparr>page_id = pid, pin_count = 1, is_dirty = False,
                page_data = disk s pid\<rparr>]"
      by (simp add: FetchPgImp_def Let_def)
    have "bpm_inv s'"
    proof (rule install_inv [OF inv s' f])
      show "\<forall>p g. page_table s p = Some g \<longrightarrow>
         g < pool_size s \<and> g \<notin> set fl \<and> g \<noteq> f \<and> page_id (pages s ! g) = p"
        using inv Cons by (auto simp: bpm_inv_def)
      show "\<forall>i. i \<noteq> f \<longrightarrow> i \<notin> set fl \<longrightarrow> i < pool_size s \<longrightarrow>
         valid (frames rp ! i) \<and> (evictable (frames rp ! i) \<longleftrightarrow> pin_count (pages s ! i) = 0)"
        using inv Cons rp(6) by (auto simp: bpm_inv_def)
    qed (use inv rp in \<open>simp_all add: bpm_inv_def\<close>)
    with new s'(1) show ?thesis by blast
  next
    case Nil
    show ?thesis
    proof (cases "Evict (replacer s)")
      case (Pair v r1)
      show ?thesis
      proof (cases v)
        case None
        with nf Nil Pair inv show ?thesis by (simp add: FetchPgImp_def)
      next
        case (Some f)
        from Evict_Some [OF Pair [unfolded Some]] inv
        have f: "f < pool_size s" and r1: "replacer_size r1 = pool_size s"
          "length (frames r1) = pool_size s + 1"
          "\<forall>i. i \<noteq> f \<longrightarrow> frames r1 ! i = frames (replacer s) ! i"
          by (auto simp: bpm_inv_def)
        from f r1 have "f < replacer_size r1" "length (frames r1) = replacer_size r1 + 1" by simp_all
        from touch_frame_spec [OF this] obtain rp where rp:
          "touch_frame r1 f = Some rp" "replacer_size rp = replacer_size r1"
          "length (frames rp) = length (frames r1)" "valid (frames rp ! f)"
          "\<not> evictable (frames rp ! f)" "\<forall>i. i \<noteq> f \<longrightarrow> frames rp ! i = frames r1 ! i"
          by blast
        define pt where "pt = (page_table s)(page_id (pages s ! f) := None)"
        define dk where "dk = (if is_dirty (pages s ! f)
           then (disk s)(page_id (pages s ! f) := page_data (pages s ! f)) else disk s)"
        from nf Nil Pair Some rp(1) obtain res s' where new: "FetchPgImp s pid = Some (res, s')"
          and s': "pool_size s' = pool_size s" "free_list s' = []" "replacer s' = rp"
            "page_table s' = pt(pid \<mapsto> f)"
            "pages s' = (pages s)[f := \<lparr>page_id = pid, pin_count = 1, is_dirty = False,
                page_data = dk pid\<rparr>]"
          by (simp add: FetchPgImp_def Let_def pt_def dk_def)
        have "bpm_inv s'"
        proof (rule install_inv [OF inv s' f])
          show "\<forall>p g. pt p = Some g \<longrightarrow>
         g < pool_size s \<and> g \<notin> set [] \<and> g \<noteq> f \<and> page_id (pages s ! g) = p"
            using inv by (auto simp: bpm_inv_def pt_def split: if_splits)
          show "\<forall>i. i \<noteq> f \<longrightarrow> i \<notin> set [] \<longrightarrow> i < pool_size s \<longrightarrow>
             valid (frames rp ! i) \<and> (evictable (frames rp ! i) \<longleftrightarrow> pin_count (pages s ! i) = 0)"
            using inv Nil rp(6) r1(3) by (auto simp: bpm_inv_def)
        qed (use inv rp r1 in \<open>simp_all add: bpm_inv_def\<close>)
        with new s'(1) show ?thesis by blast
      qed
    qed
  qed
qed

lemma UnpinPgImp_inv:
  assumes inv: "bpm_inv s"
  shows "\<exists>res s'. UnpinPgImp s pid d = Some (res, s') \<and> bpm_inv s' \<and> pool_size s' = pool_size s"
proof (cases "page_table s pid")
  case None
  with inv show ?thesis by (auto simp: UnpinPgImp_def)
next
  case (Some f)
  with inv have f: "f < pool_size s" "f \<notin> set (free_list s)" by (auto simp: bpm_inv_def)
  from inv f have fr: "valid (frames (replacer s) ! f)" "0 \<le> pin_count (pages s ! f)"
    "evictable (frames (replacer s) ! f) \<longleftrightarrow> pin_count (pages s ! f) = 0"
    by (simp_all add: bpm_inv_def)
  show ?thesis
  proof (cases "pin_count (pages s ! f) = 0")
    case True
    with Some inv show ?thesis by (auto simp: UnpinPgImp_def)
  next
    case False
    note pos = False
    from inv f(1) have sz: "f < replacer_size (replacer s)"
      "length (frames (replacer s)) = replacer_size (replacer s) + 1"
      by (simp_all add: bpm_inv_def)
    define page' where "page' = (pages s ! f)\<lparr>pin_count := pin_count (pages s ! f) - 1,
                                     is_dirty := (is_dirty (pages s ! f) \<or> d)\<rparr>"
    show ?thesis
    proof (cases "pin_count (pages s ! f) - 1 = 0")
      case True
      from SetEvictable_spec [OF sz, of True] fr(1) obtain rp where rp:
        "SetEvictable (replacer s) f True = Some rp" "replacer_size rp = replacer_size (replacer s)"
        "length (frames rp) = length (frames (replacer s))" "valid (frames rp ! f)"
        "evictable (frames rp ! f)" "\<forall>i. i \<noteq> f \<longrightarrow> frames rp ! i = frames (replacer s) ! i"
        by auto
      from Some pos True rp(1) obtain res s' where new: "UnpinPgImp s pid d = Some (res, s')"
        and s': "pool_size s' = pool_size s" "free_list s' = free_list s" "replacer s' = rp"
         "page_table s' = page_table s" "pages s' = (pages s)[f := page']"
        by (simp add: UnpinPgImp_def Let_def page'_def)
      have "bpm_inv s'"
        using inv f rp(2-) True unfolding bpm_inv_def s'
        by (auto simp: nth_list_update page'_def)
      with new s'(1) show ?thesis by blast
    next
      case False
      from Some pos False obtain res s' where new: "UnpinPgImp s pid d = Some (res, s')"
        and s': "pool_size s' = pool_size s" "free_list s' = free_list s" "replacer s' = replacer s"
         "page_table s' = page_table s" "pages s' = (pages s)[f := page']"
        by (simp add: UnpinPgImp_def Let_def page'_def)
      have "bpm_inv s'"
        using inv f fr pos False unfolding bpm_inv_def s'
        by (auto simp: nth_list_update page'_def)
      with new s'(1) show ?thesis by blast
    qed
  qed
qed

lemma FlushPgImp_inv:
  assumes inv: "bpm_inv s"
  shows "\<exists>res s'. FlushPgImp s pid = Some (res, s') \<and> bpm_inv s' \<and> pool_size s' = pool_size s"
proof (cases "page_table s pid")
  case None
  with inv show ?thesis by (auto simp: FlushPgImp_def)
next
  case (Some f)
  with inv have f: "f < pool_size s" by (auto simp: bpm_inv_def)
  from Some obtain res s' where new: "FlushPgImp s pid = Some (res, s')"
    and s': "pool_size s' = pool_size s" "free_list s' = free_list s" "replacer s' = replacer s"
       "page_table s' = page_table s"
       "pages s' = (pages s)[f := (pages s ! f)\<lparr>is_dirty := False\<rparr>]"
    by (simp add: FlushPgImp_def)
  have "bpm_inv s'"
    using inv f unfolding bpm_inv_def s' by (auto simp: nth_list_update)
  with new s'(1) show ?thesis by blast
qed

lemma flush_all_loop_pins:
  "flush_all_loop ps dsk = (ps', dsk') \<Longrightarrow>
     map pin_count ps' = map pin_count ps \<and> map page_id ps' = map page_id ps"
  by (induction ps arbitrary: dsk ps' dsk') (auto split: if_splits prod.splits)

lemma FlushAllPgsImp_inv:
  assumes inv: "bpm_inv s"
  shows "\<exists>res s'. FlushAllPgsImp s = Some (res, s') \<and> bpm_inv s' \<and> pool_size s' = pool_size s"
proof -
  obtain ps dsk where fl: "flush_all_loop (pages s) (disk s) = (ps, dsk)" by (metis surj_pair)
  note pins = flush_all_loop_pins [OF fl]
  then have len: "length ps = length (pages s)" by (metis length_map)
  have pin: "pin_count (ps ! i) = pin_count (pages s ! i)" if "i < length (pages s)" for i
    using pins that len by (metis nth_map)
  have pid: "page_id (ps ! i) = page_id (pages s ! i)" if "i < length (pages s)" for i
    using pins that len by (metis nth_map)
  from fl obtain res s' where new: "FlushAllPgsImp s = Some (res, s')"
    and s': "pool_size s' = pool_size s" "free_list s' = free_list s" "replacer s' = replacer s"
       "page_table s' = page_table s" "pages s' = ps"
    by (simp add: FlushAllPgsImp_def)
  have "bpm_inv s'"
    using inv len pin pid unfolding bpm_inv_def s' by auto
  with new s'(1) show ?thesis by blast
qed

lemma DeletePgImp_inv:
  assumes inv: "bpm_inv s"
  shows "\<exists>res s'. DeletePgImp s pid = Some (res, s') \<and> bpm_inv s' \<and> pool_size s' = pool_size s"
proof (cases "page_table s pid")
  case None
  with inv show ?thesis by (auto simp: DeletePgImp_def)
next
  case (Some f)
  with inv have f: "f < pool_size s" "f \<notin> set (free_list s)" by (auto simp: bpm_inv_def)
  from inv f have fr: "valid (frames (replacer s) ! f)" "0 \<le> pin_count (pages s ! f)"
    "evictable (frames (replacer s) ! f) \<longleftrightarrow> pin_count (pages s ! f) = 0"
    by (simp_all add: bpm_inv_def)
  show ?thesis
  proof (cases "pin_count (pages s ! f) > 0")
    case True
    with Some inv show ?thesis by (auto simp: DeletePgImp_def)
  next
    case False
    with fr have z: "pin_count (pages s ! f) = 0" "evictable (frames (replacer s) ! f)" by auto
    from inv f(1) have sz: "f < replacer_size (replacer s)"
      "length (frames (replacer s)) = replacer_size (replacer s) + 1"
      by (simp_all add: bpm_inv_def)
    from Remove_spec [OF sz] z(2) obtain rp where rp:
      "Remove (replacer s) f = Some rp" "replacer_size rp = replacer_size (replacer s)"
      "length (frames rp) = length (frames (replacer s))"
      "\<forall>i. i \<noteq> f \<longrightarrow> frames rp ! i = frames (replacer s) ! i"
      by auto
    define page' where "page' = (pages s ! f)\<lparr>page_data := 0, is_dirty := False,
                                     page_id := INVALID_PAGE_ID\<rparr>"
    from Some False rp(1) obtain res s' where new: "DeletePgImp s pid = Some (res, s')"
      and s': "pool_size s' = pool_size s" "free_list s' = free_list s @ [f]" "replacer s' = rp"
       "page_table s' = (page_table s)(pid := None)" "pages s' = (pages s)[f := page']"
      by (simp add: DeletePgImp_def Let_def page'_def)
    have inj: "\<forall>p. page_table s p = Some f \<longrightarrow> p = pid"
    proof (intro allI impI)
      fix p assume "page_table s p = Some f"
      with inv have "page_id (pages s ! f) = p" by (simp add: bpm_inv_def)
      moreover from inv Some have "page_id (pages s ! f) = pid" by (simp add: bpm_inv_def)
      ultimately show "p = pid" by simp
    qed
    have c1: "length (pages s') = pool_size s'" "replacer_size (replacer s') = pool_size s'"
      "length (frames (replacer s')) = pool_size s' + 1" "distinct (free_list s')"
      using inv f rp(2,3) by (simp_all add: bpm_inv_def s')
    have c2: "\<forall>g \<in> set (free_list s'). g < pool_size s' \<and> pin_count (pages s' ! g) = 0"
      using inv f z(1) by (auto simp: bpm_inv_def s' nth_list_update page'_def)
    have c3: "\<forall>p g. page_table s' p = Some g \<longrightarrow>
         g < pool_size s' \<and> g \<notin> set (free_list s') \<and> page_id (pages s' ! g) = p"
    proof (intro allI impI)
      fix p g assume "page_table s' p = Some g"
      then have pg: "p \<noteq> pid" "page_table s p = Some g" by (auto simp: s' split: if_splits)
      with inj have "g \<noteq> f" by auto
      with pg inv show "g < pool_size s' \<and> g \<notin> set (free_list s') \<and> page_id (pages s' ! g) = p"
        by (simp add: bpm_inv_def s')
    qed
    have c4: "\<forall>g < pool_size s'. 0 \<le> pin_count (pages s' ! g) \<and>
         (g \<notin> set (free_list s') \<longrightarrow>
            valid (frames (replacer s') ! g) \<and>
            (evictable (frames (replacer s') ! g) \<longleftrightarrow> pin_count (pages s' ! g) = 0))"
    proof (intro allI impI)
      fix g assume g: "g < pool_size s'"
      show "0 \<le> pin_count (pages s' ! g) \<and>
         (g \<notin> set (free_list s') \<longrightarrow>
            valid (frames (replacer s') ! g) \<and>
            (evictable (frames (replacer s') ! g) \<longleftrightarrow> pin_count (pages s' ! g) = 0))"
      proof (cases "g = f")
        case True
        with z(1) inv f show ?thesis by (simp add: s' page'_def bpm_inv_def)
      next
        case False
        with g inv rp(4) show ?thesis by (simp add: s' bpm_inv_def)
      qed
    qed
    from c1 c2 c3 c4 have "bpm_inv s'" unfolding bpm_inv_def by blast
    with new s'(1) show ?thesis by blast
  qed
qed

lemma bpm_apply_inv:
  assumes "bpm_inv s"
  shows "\<exists>s'. bpm_apply x s = Some s' \<and> bpm_inv s' \<and> pool_size s' = pool_size s"
proof (cases x)
  case OpNewPage
  with NewPgImp_inv [OF assms] show ?thesis by auto
next
  case (OpFetchPage pid)
  with FetchPgImp_inv [OF assms, of pid] show ?thesis by auto
next
  case (OpUnpinPage pid d)
  with UnpinPgImp_inv [OF assms, of pid d] show ?thesis by auto
next
  case (OpFlushPage pid)
  with FlushPgImp_inv [OF assms, of pid] show ?thesis by auto
next
  case OpFlushAll
  with FlushAllPgsImp_inv [OF assms] show ?thesis by auto
next
  case (OpDeletePage pid)
  with DeletePgImp_inv [OF assms, of pid] show ?thesis by auto
qed

lemma bpm_run_inv:
  "bpm_inv s \<Longrightarrow> \<exists>s'. bpm_run xs s = Some s' \<and> bpm_inv s' \<and> pool_size s' = pool_size s"
proof (induction xs arbitrary: s)
  case Nil
  then show ?case by simp
next
  case (Cons x xs)
  from bpm_apply_inv [OF Cons.prems, of x] obtain s1 where
    s1: "bpm_apply x s = Some s1" "bpm_inv s1" "pool_size s1 = pool_size s" by blast
  from Cons.IH [OF s1(2)] s1 show ?case by auto
qed

lemma all_pinned_iff: "all_pinned s \<longleftrightarrow> (\<forall>f<pool_size s. 0 < pin_count (pages s ! f))"
  by (auto simp: all_pinned_def)

lemma NewPgImp_null_iff:
  assumes inv: "bpm_inv s"
  shows "\<exists>res s'. NewPgImp s = Some (res, s') \<and> (res = None \<longleftrightarrow> all_pinned s)"
proof -
  from NewPgImp_inv [OF inv] obtain res s' where new: "NewPgImp s = Some (res, s')" by blast
  have "res = None \<longleftrightarrow> free_list s = [] \<and> fst (Evict (replacer s)) = None"
    using new by (auto simp: NewPgImp_def Let_def split: if_splits option.splits prod.splits)
  also have "\<dots> \<longleftrightarrow> all_pinned s"
  proof
    assume a: "free_list s = [] \<and> fst (Evict (replacer s)) = None"
    with inv have "\<forall>i<pool_size s. \<not> evictable (frames (replacer s) ! i)"
      by (simp add: Evict_None_iff bpm_inv_def)
    with a inv show "all_pinned s"
      unfolding all_pinned_iff bpm_inv_def by (auto simp: order_less_le)
  next
    assume p: "all_pinned s"
    have e: "free_list s = []"
    proof (cases "free_list s")
      case (Cons f fl)
      with inv have "f < pool_size s" "pin_count (pages s ! f) = 0" by (auto simp: bpm_inv_def)
      with p show ?thesis by (force simp: all_pinned_iff)
    qed simp
    with inv p have "\<forall>i<pool_size s. \<not> evictable (frames (replacer s) ! i)"
      unfolding all_pinned_iff bpm_inv_def by force
    with inv e show "free_list s = [] \<and> fst (Evict (replacer s)) = None"
      by (simp add: Evict_None_iff bpm_inv_def)
  qed
  finally show ?thesis using new by blast
qed

lemma NewPgImp_result:
  assumes inv: "bpm_inv s" and new: "NewPgImp s = Some (Some (pid, f), s')"
  shows "f < pool_size s \<and> page_table s' pid = Some f \<and> pin_count (pages s' ! f) = 1 \<and>
         (free_list s \<noteq> [] \<longrightarrow> f = hd (free_list s) \<and> free_list s' = tl (free_list s) \<and>
            (\<forall>g. g \<noteq> f \<longrightarrow> pages s' ! g = pages s ! g))"
proof (cases "free_list s")
  case (Cons f0 fl)
  with inv have f0: "f0 < pool_size s" "length (pages s) = pool_size s"
    by (auto simp: bpm_inv_def)
  with new Cons show ?thesis
    by (auto simp: NewPgImp_def Let_def split: option.splits)
next
  case Nil
  obtain v r1 where ev: "Evict (replacer s) = (v, r1)" by (metis surj_pair)
  with new Nil obtain f1 where v: "v = Some f1"
    by (cases v) (auto simp: NewPgImp_def)
  from Evict_Some [OF ev [unfolded v]] inv
  have "f1 < pool_size s" "length (pages s) = pool_size s" by (auto simp: bpm_inv_def)
  with new Nil ev v show ?thesis
    by (auto simp: NewPgImp_def Let_def split: option.splits)
qed

lemma new_pages_fill:
  assumes "bpm_inv s" "used_pinned s"
  shows "new_pages (Suc (length (free_list s))) s = replicate (length (free_list s)) True @ [False]"
  using assms
proof (induction "length (free_list s)" arbitrary: s)
  case 0
  then have e: "free_list s = []" by simp
  with 0 have "all_pinned s" by (simp add: all_pinned_iff used_pinned_def)
  with NewPgImp_null_iff [OF 0(2)] obtain s' where "NewPgImp s = Some (None, s')" by auto
  with e show ?case by simp
next
  case (Suc m)
  then obtain f fl where fl: "free_list s = f # fl" by (cases "free_list s") auto
  from NewPgImp_inv [OF Suc(3)] obtain res s' where
    new: "NewPgImp s = Some (res, s')" and inv': "bpm_inv s'" and ps: "pool_size s' = pool_size s"
    by blast
  from Suc(3) fl have "\<not> all_pinned s"
    by (auto simp: all_pinned_iff bpm_inv_def)
  with NewPgImp_null_iff [OF Suc(3)] new obtain pid g where res: "res = Some (pid, g)"
    by (cases res) auto
  from NewPgImp_result [OF Suc(3) new [unfolded res]] fl
  have r: "g = f" "free_list s' = fl" "pin_count (pages s' ! f) = 1"
    "\<forall>h. h \<noteq> f \<longrightarrow> pages s' ! h = pages s ! h"
    by auto
  have up: "used_pinned s'"
    unfolding used_pinned_def
  proof (intro allI impI)
    fix h assume h: "h < pool_size s'" "h \<notin> set (free_list s')"
    show "0 < pin_count (pages s' ! h)"
    proof (cases "h = f")
      case True
      with r show ?thesis by simp
    next
      case False
      with h r fl ps Suc(4) show ?thesis by (simp add: used_pinned_def)
    qed
  qed
  from Suc(2) fl r have m: "m = length (free_list s')" by simp
  from Suc(1) [OF m inv' up] new res fl r show ?case by simp
qed

lemma UnpinPgImp_result:
  assumes inv: "bpm_inv s" and pt: "page_table s pid = Some f" and pin: "pin_count (pages s ! f) = 1"
  shows "\<exists>s'. UnpinPgImp s pid d = Some (True, s') \<and> pin_count (pages s' ! f) = 0"
proof -
  from inv pt have f: "f < pool_size s" "f \<notin> set (free_list s)" "length (pages s) = pool_size s"
    by (auto simp: bpm_inv_def)
  from inv f(1) have sz: "f < replacer_size (replacer s)"
      "length (frames (replacer s)) = replacer_size (replacer s) + 1"
      by (simp_all add: bpm_inv_def)
  from SetEvictable_spec [OF sz, of True] obtain rp where
    "SetEvictable (replacer s) f True = Some rp" by blast
  with pt pin f show ?thesis by (simp add: UnpinPgImp_def Let_def)
qed

lemma new_unpin_pages_all:
  assumes "bpm_inv s" "\<not> all_pinned s"
  shows "new_unpin_pages n s = replicate n True"
  using assms
proof (induction n arbitrary: s)
  case 0
  then show ?case by simp
next
  case (Suc n)
  from NewPgImp_inv [OF Suc(2)] obtain res s' where
    new: "NewPgImp s = Some (res, s')" and inv': "bpm_inv s'" and ps: "pool_size s' = pool_size s"
    by blast
  with NewPgImp_null_iff [OF Suc(2)] Suc(3) obtain pid f where res: "res = Some (pid, f)"
    by (cases res) auto
  from NewPgImp_result [OF Suc(2) new [unfolded res]]
  have r: "f < pool_size s" "page_table s' pid = Some f" "pin_count (pages s' ! f) = 1" by auto
  from UnpinPgImp_result [OF inv' r(2,3), of False] obtain s'' where
    un: "UnpinPgImp s' pid False = Some (True, s'')" "pin_count (pages s'' ! f) = 0" by blast
  from UnpinPgImp_inv [OF inv', of pid False] un
  have inv'': "bpm_inv s''" "pool_size s'' = pool_size s'" by auto
  with un(2) r(1) ps have "\<not> all_pinned s''" by (auto simp: all_pinned_iff)
  from Suc.IH [OF inv''(1) this] new res un show ?case by simp
qed

text \<open>
  C4 (as stated, refuted): on a fresh pool of 10 frames, with no \<open>UnpinPage\<close> in between,
  the first ten \<open>NewPage\<close> calls return a page and the eleventh returns the null pointer:
  every \<open>NewPage\<close> pins the page it returns, so after ten calls no frame is free or
  evictable.
\<close>

theorem C4_counterexample:
  "new_pages 11 (BufferPoolManagerInstance_new 10 2 (\<lambda>p. 0::nat)) =
     [True, True, True, True, True, True, True, True, True, True, False]"
  by code_simp

text \<open>
  C4 (amended): for a pool of 10 frames that all start in the free list (any replacer
  \<open>k\<close>, any disk), the first 10 consecutive \<open>NewPage\<close> calls return a page and, with no
  \<open>UnpinPage\<close> in between, the 11th returns null, since all 10 frames then hold pinned
  pages; when each page is unpinned after its \<open>NewPage\<close>, 11 consecutive calls all
  return a page. In every state that the pool operations produce, \<open>NewPage\<close> returns null
  exactly when every frame holds a pinned page.
\<close>

theorem C4_NewPage_null_only_when_all_pinned:
  "new_pages 11 (BufferPoolManagerInstance_new 10 k dsk) = replicate 10 True @ [False] \<and>
   new_unpin_pages 11 (BufferPoolManagerInstance_new 10 k dsk) = replicate 11 True \<and>
   (bpm_run xs (BufferPoolManagerInstance_new n k dsk) = Some s \<longrightarrow>
      (\<exists>res s'. NewPgImp s = Some (res, s') \<and> (res = None \<longleftrightarrow> all_pinned s)))"
proof (intro conjI impI)
  let ?s0 = "BufferPoolManagerInstance_new 10 k dsk"
  have inv: "bpm_inv ?s0" by (rule bpm_inv_new)
  have fl: "free_list ?s0 = [0..<10]" "pool_size ?s0 = 10"
    by (simp_all add: BufferPoolManagerInstance_new_def)
  then have up: "used_pinned ?s0" by (simp add: used_pinned_def)
  from new_pages_fill [OF inv up] fl
  show "new_pages 11 ?s0 = replicate 10 True @ [False]" by simp
  have "\<not> all_pinned ?s0"
    by (simp add: all_pinned_iff BufferPoolManagerInstance_new_def) (rule exI [of _ 0], simp)
  from new_unpin_pages_all [OF inv this]
  show "new_unpin_pages 11 ?s0 = replicate 11 True" .
next
  assume run: "bpm_run xs (BufferPoolManagerInstance_new n k dsk) = Some s"
  from bpm_run_inv [OF bpm_inv_new, of xs n k dsk] run have "bpm_inv s" by auto
  from NewPgImp_null_iff [OF this]
  show "\<exists>res s'. NewPgImp s = Some (res, s') \<and> (res = None \<longleftrightarrow> all_pinned s)" .
qed

theorem C4_NewPage_null_only_when_all_pinned_witness:
  "fst (the (NewPgImp (the (bpm_run [OpNewPage, OpNewPage, OpUnpinPage 0 True, OpNewPage]
       (BufferPoolManagerInstance_new 2 2 (\<lambda>p. 0::nat)))))) = None"
proof -
  have run: "bpm_run [OpNewPage, OpNewPage, OpUnpinPage 0 True, OpNewPage]
       (BufferPoolManagerInstance_new 2 2 (\<lambda>p. 0::nat))
     = Some (the (bpm_run [OpNewPage, OpNewPage, OpUnpinPage 0 True, OpNewPage]
       (BufferPoolManagerInstance_new 2 2 (\<lambda>p. 0::nat))))"
    using bpm_run_inv [OF bpm_inv_new, of "[OpNewPage, OpNewPage, OpUnpinPage 0 True, OpNewPage]"
       2 2 "\<lambda>p. 0::nat"]
    by auto
  have pinned: "all_pinned (the (bpm_run [OpNewPage, OpNewPage, OpUnpinPage 0 True, OpNewPage]
       (BufferPoolManagerInstance_new 2 2 (\<lambda>p. 0::nat))))"
    by code_simp
  from C4_NewPage_null_only_when_all_pinned
     [of 2 "\<lambda>p. 0::nat" "[OpNewPage, OpNewPage, OpUnpinPage 0 True, OpNewPage]" 2
         "the (bpm_run [OpNewPage, OpNewPage, OpUnpinPage 0 True, OpNewPage]
       (BufferPoolManagerInstance_new 2 2 (\<lambda>p. 0::nat)))"]
    run pinned
  show ?thesis by auto
qed

section \<open>Extendible hash table: theorems\<close>

lemma and_low_mask: "(x::nat) AND (push_bit n 1 - 1) = x mod 2 ^ n"
proof -
  have "push_bit n (1::nat) - 1 = mask n" by (simp add: mask_eq_exp_minus_1 push_bit_of_1)
  then show ?thesis by (simp add: take_bit_eq_mask [symmetric] take_bit_eq_mod)
qed

lemma and_low_mask': "(x::nat) AND (2 ^ n - Suc 0) = x mod 2 ^ n"
  using and_low_mask [of x n] by (simp add: push_bit_of_1)

lemma shift_or_add:
  assumes "m < 2 ^ d"
  shows "push_bit d (i::nat) OR m = i * 2 ^ d + m"
proof -
  have "push_bit d i + m = push_bit d i OR m"
  proof (rule disjunctive_add)
    fix n
    show "\<not> bit (push_bit d i) n \<or> \<not> bit m n"
    proof (cases "n < d")
      case True
      then show ?thesis by (simp add: bit_push_bit_iff)
    next
      case False
      then have "2 ^ d \<le> (2::nat) ^ n" by (simp add: power_increasing)
      with assms have "m < 2 ^ n" by (rule less_le_trans)
      then have "\<not> bit m n" by (simp add: bit_iff_odd)
      then show ?thesis by simp
    qed
  qed
  then show ?thesis by (simp add: push_bit_eq_mult)
qed

lemma and_one_odd: "((i::nat) AND 1 = 1) = odd i"
  by (simp add: and_one_eq mod_2_eq_odd)

lemma pos_decomp:
  assumes "m < (2::nat) ^ d"
  shows "(j = i * 2 ^ d + m) = (j mod 2 ^ d = m \<and> j div 2 ^ d = i)"
proof
  assume "j = i * 2 ^ d + m"
  with assms show "j mod 2 ^ d = m \<and> j div 2 ^ d = i" by simp
next
  assume "j mod 2 ^ d = m \<and> j div 2 ^ d = i"
  then have "i * 2 ^ d + m = j div 2 ^ d * 2 ^ d + j mod 2 ^ d" by simp
  also have "\<dots> = j" by (rule div_mult_mod_eq)
  finally show "j = i * 2 ^ d + m" by simp
qed

lemma mod_Suc_pow_eq:
  "((j::nat) mod 2 ^ Suc n = i mod 2 ^ Suc n) =
   (j mod 2 ^ n = i mod 2 ^ n \<and> odd (j div 2 ^ n) = odd (i div 2 ^ n))"
proof -
  have d: "x mod 2 ^ Suc n = 2 ^ n * (x div 2 ^ n mod 2) + x mod 2 ^ n" for x :: nat
  proof -
    have "x mod (2 ^ n * 2) = 2 ^ n * (x div 2 ^ n mod 2) + x mod 2 ^ n"
      by (rule mod_mult2_eq)
    then show ?thesis by (simp add: mult.commute)
  qed
  have lt: "x mod 2 ^ n < 2 ^ n" for x :: nat by simp
  show ?thesis
  proof
    assume e: "j mod 2 ^ Suc n = i mod 2 ^ Suc n"
    then have "(j mod 2 ^ Suc n) mod 2 ^ n = (i mod 2 ^ Suc n) mod 2 ^ n" by simp
    then have lo: "j mod 2 ^ n = i mod 2 ^ n"
      by (simp add: mod_mod_cancel)
    from e have "(j mod 2 ^ Suc n) div 2 ^ n = (i mod 2 ^ Suc n) div 2 ^ n" by simp
    then have "j div 2 ^ n mod 2 = i div 2 ^ n mod 2"
      unfolding d by simp
    then have "odd (j div 2 ^ n) = odd (i div 2 ^ n)"
      by (metis mod_2_eq_odd odd_iff_mod_2_eq_one)
    with lo show "j mod 2 ^ n = i mod 2 ^ n \<and> odd (j div 2 ^ n) = odd (i div 2 ^ n)" by simp
  next
    assume "j mod 2 ^ n = i mod 2 ^ n \<and> odd (j div 2 ^ n) = odd (i div 2 ^ n)"
    then have "j mod 2 ^ n = i mod 2 ^ n" "j div 2 ^ n mod 2 = i div 2 ^ n mod 2"
      by (simp_all add: mod_2_eq_odd)
    then show "j mod 2 ^ Suc n = i mod 2 ^ Suc n" unfolding d by simp
  qed
qed

lemma mod_pow_le:
  assumes "l \<le> g"
  shows "((j::nat) mod 2 ^ g) mod 2 ^ l = j mod 2 ^ l"
  using assms by (simp add: mod_mod_cancel le_imp_power_dvd)

lemma dir_inv_dinv:
  "dir_inv t = dinv (global_depth t) (dir t) (map bucket_depth (store t))"
proof -
  have "bucket_depth (store t ! a) = map bucket_depth (store t) ! a" if "a < length (store t)" for a
    using that by simp
  then show ?thesis
    unfolding dir_inv_def dinv_def slot_ok_def GetLocalDepth_def
    by (auto simp: and_low_mask' push_bit_of_1)
qed

lemma dinv_grow:
  assumes "dinv g d ls"
  shows "dinv (Suc g) (map (\<lambda>i. d ! (i mod 2 ^ g)) [0..<2 ^ Suc g]) ls"
proof -
  let ?d = "map (\<lambda>i. d ! (i mod 2 ^ g)) [0..<2 ^ Suc g]"
  have nth: "?d ! i = d ! (i mod 2 ^ g)" if "i < 2 ^ Suc g" for i
    using that by (simp del: upt_Suc power_Suc)
  have lt: "i mod 2 ^ g < (2::nat) ^ g" for i by simp
  show ?thesis
    unfolding dinv_def
  proof (intro conjI allI impI)
    show "length ?d = 2 ^ Suc g" by (simp del: upt_Suc power_Suc)
  next
    fix i :: nat assume i: "i < 2 ^ Suc g"
    from assms lt [of i] have "d ! (i mod 2 ^ g) < length ls" by (simp add: dinv_def)
    then show "?d ! i < length ls" unfolding nth [OF i] .
    from assms lt [of i] have "ls ! (d ! (i mod 2 ^ g)) \<le> g" by (simp add: dinv_def)
    then show "ls ! (?d ! i) \<le> Suc g" unfolding nth [OF i] by simp
  next
    fix i j :: nat assume i: "i < 2 ^ Suc g" and j: "j < 2 ^ Suc g"
    let ?l = "ls ! (d ! (i mod 2 ^ g))"
    from assms lt [of i] have l: "?l \<le> g" by (simp add: dinv_def)
    from assms lt [of i] lt [of j]
    have "(d ! (j mod 2 ^ g) = d ! (i mod 2 ^ g)) = ((j mod 2 ^ g) mod 2 ^ ?l = (i mod 2 ^ g) mod 2 ^ ?l)"
      by (simp add: dinv_def)
    also have "\<dots> = (j mod 2 ^ ?l = i mod 2 ^ ?l)"
      by (simp add: mod_pow_le [OF l])
    finally show "(?d ! j = ?d ! i) = (j mod 2 ^ (ls ! (?d ! i)) = i mod 2 ^ (ls ! (?d ! i)))"
      unfolding nth [OF i] nth [OF j] .
  qed
qed

lemma repoint_nth:
  assumes m: "m < 2 ^ old"
  shows "length (repoint n old m b0 b1 d) = length d \<and>
         (\<forall>j<length d. repoint n old m b0 b1 d ! j =
            (if j mod 2 ^ old = m \<and> j div 2 ^ old < n
             then (if odd (j div 2 ^ old) then b1 else b0) else d ! j))"
proof (induction n)
  case 0
  show ?case by (simp add: repoint_def)
next
  case (Suc n)
  have step: "repoint (Suc n) old m b0 b1 d =
      (repoint n old m b0 b1 d)[n * 2 ^ old + m := (if odd n then b1 else b0)]"
    by (simp add: repoint_def shift_or_add [OF m] odd_iff_mod_2_eq_one)
  show ?case
  proof (intro conjI allI impI)
    show "length (repoint (Suc n) old m b0 b1 d) = length d"
      using Suc by (simp add: step)
  next
    fix j assume j: "j < length d"
    show "repoint (Suc n) old m b0 b1 d ! j =
            (if j mod 2 ^ old = m \<and> j div 2 ^ old < Suc n
             then (if odd (j div 2 ^ old) then b1 else b0) else d ! j)"
    proof (cases "j = n * 2 ^ old + m")
      case True
      with pos_decomp [OF m, of j n] have "j mod 2 ^ old = m" "j div 2 ^ old = n" by simp_all
      with True j Suc show ?thesis by (simp add: step)
    next
      case False
      with pos_decomp [OF m, of j n] have "\<not> (j mod 2 ^ old = m \<and> j div 2 ^ old = n)" by simp
      with False j Suc show ?thesis by (auto simp: step less_Suc_eq)
    qed
  qed
qed

lemma dinv_split:
  assumes inv: "dinv g d ls" and idx: "idx < 2 ^ g" and old: "old = ls ! (d ! idx)" "old < g"
    and m: "m = idx mod 2 ^ old"
  shows "dinv g (repoint (2 ^ (g - old)) old m (length ls) (Suc (length ls)) d)
           (ls @ [Suc old, Suc old])"
proof -
  let ?d = "repoint (2 ^ (g - old)) old m (length ls) (Suc (length ls)) d"
  let ?ls = "ls @ [Suc old, Suc old]"
  from m have mlt: "m < 2 ^ old" by simp
  from inv have len: "length d = 2 ^ g" by (simp add: dinv_def)
  have divlt: "j div 2 ^ old < 2 ^ (g - old)" if "j < 2 ^ g" for j :: nat
  proof -
    from old(2) have "(2::nat) ^ g = 2 ^ old * 2 ^ (g - old)"
      by (simp add: power_add [symmetric])
    with that show ?thesis by (simp add: less_mult_imp_div_less mult.commute)
  qed
  have nth: "?d ! j = (if j mod 2 ^ old = m then (if odd (j div 2 ^ old) then Suc (length ls) else length ls)
                       else d ! j)" if "j < 2 ^ g" for j
    using repoint_nth [OF mlt, of "2 ^ (g - old)" "length ls" "Suc (length ls)" d] that len divlt [OF that]
    by simp
  have old_slots: "(d ! j = d ! idx) = (j mod 2 ^ old = m)" if "j < 2 ^ g" for j
    using inv idx that old(1) m by (simp add: dinv_def)
  have sl: "d ! i < length ls" if "i < 2 ^ g" for i
    using inv that by (simp add: dinv_def)
  show ?thesis
    unfolding dinv_def
  proof (intro conjI allI impI)
    show "length ?d = 2 ^ g"
      using repoint_nth [OF mlt, of "2 ^ (g - old)" "length ls" "Suc (length ls)" d] len by simp
  next
    fix i :: nat assume i: "i < 2 ^ g"
    show "?d ! i < length ?ls" using sl [OF i] by (simp add: nth [OF i])
    show "?ls ! (?d ! i) \<le> g"
    proof (cases "i mod 2 ^ old = m")
      case True
      with old(2) show ?thesis by (simp add: nth [OF i] nth_append)
    next
      case False
      with inv i sl [OF i] show ?thesis by (simp add: nth [OF i] nth_append dinv_def)
    qed
  next
    fix i j :: nat assume i: "i < 2 ^ g" and j: "j < 2 ^ g"
    show "(?d ! j = ?d ! i) = (j mod 2 ^ (?ls ! (?d ! i)) = i mod 2 ^ (?ls ! (?d ! i)))"
    proof (cases "i mod 2 ^ old = m")
      case True
      then have l: "?ls ! (?d ! i) = Suc old" by (simp add: nth [OF i] nth_append)
      have "(?d ! j = ?d ! i) = (j mod 2 ^ old = m \<and> odd (j div 2 ^ old) = odd (i div 2 ^ old))"
        using True sl [OF j] by (auto simp: nth [OF i] nth [OF j])
      also have "\<dots> = (j mod 2 ^ Suc old = i mod 2 ^ Suc old)"
        unfolding mod_Suc_pow_eq [of j old i] using True by simp
      finally show ?thesis by (simp only: l)
    next
      case False
      then have di: "?d ! i = d ! i" by (simp add: nth [OF i])
      from sl [OF i] have l: "?ls ! (d ! i) = ls ! (d ! i)" by (simp add: nth_append)
      from False old_slots [OF i] have ne: "d ! i \<noteq> d ! idx" by simp
      from inv i j have orig: "(d ! j = d ! i) = (j mod 2 ^ (ls ! (d ! i)) = i mod 2 ^ (ls ! (d ! i)))"
        by (simp add: dinv_def)
      show ?thesis
      proof (cases "j mod 2 ^ old = m")
        case True
        with old_slots [OF j] ne have "d ! j \<noteq> d ! i" by simp
        with orig have "j mod 2 ^ (ls ! (d ! i)) \<noteq> i mod 2 ^ (ls ! (d ! i))" by simp
        moreover from True sl [OF i] have "?d ! j \<noteq> d ! i" by (simp add: nth [OF j])
        ultimately show ?thesis by (simp add: di l)
      next
        case False
        then have "?d ! j = d ! j" by (simp add: nth [OF j])
        with orig show ?thesis by (simp add: di l)
      qed
    qed
  qed
qed

lemma map_depth_update:
  assumes "bucket_depth y = bucket_depth (xs ! a)"
  shows "map bucket_depth (xs[a := y]) = map bucket_depth xs"
proof (cases "a < length xs")
  case True
  with assms show ?thesis by (simp add: map_update list_update_same_conv)
next
  case False
  then show ?thesis by (simp add: list_update_beyond)
qed

lemma depth_Bucket_Insert [simp]: "bucket_depth (snd (Bucket_Insert b key val)) = bucket_depth b"
  by (simp add: Bucket_Insert_def)

lemma depth_Bucket_Remove [simp]: "bucket_depth (snd (Bucket_Remove b key)) = bucket_depth b"
  by (simp add: Bucket_Remove_def)

lemma redistribute_keeps:
  "global_depth (redistribute h xs t) = global_depth t \<and>
   dir (redistribute h xs t) = dir t \<and>
   map bucket_depth (store (redistribute h xs t)) = map bucket_depth (store t)"
proof (induction xs arbitrary: t)
  case Nil
  show ?case by simp
next
  case (Cons x xs)
  obtain key val where x: "x = (key, val)" by (cases x)
  show ?case
    unfolding x by (simp add: Let_def Cons.IH map_depth_update)
qed

lemma IndexOf_less: "IndexOf h t key < 2 ^ global_depth t"
  by (simp add: IndexOf_def and_low_mask')

lemma grow_dir_eq:
  "global_depth (grow_dir t) = Suc (global_depth t) \<and>
   dir (grow_dir t) = map (\<lambda>i. dir t ! (i mod 2 ^ global_depth t)) [0..<2 ^ Suc (global_depth t)] \<and>
   store (grow_dir t) = store t \<and> bucket_size (grow_dir t) = bucket_size t"
  by (simp add: grow_dir_def Let_def and_low_mask' push_bit_of_1 del: upt_Suc)

lemma split_bucket_inv:
  assumes inv: "dir_inv t" and idx: "index < 2 ^ global_depth t"
  shows "dir_inv (split_bucket h t index)"
proof -
  define old where "old = bucket_depth (store t ! (dir t ! index))"
  define t1 where "t1 = (if old = global_depth t then grow_dir t else t)"
  define ls where "ls = map bucket_depth (store t1)"
  from inv have d0: "dinv (global_depth t) (dir t) (map bucket_depth (store t))"
    by (simp add: dir_inv_dinv)
  from d0 idx have "dir t ! index < length (map bucket_depth (store t)) \<and>
    map bucket_depth (store t) ! (dir t ! index) \<le> global_depth t"
    unfolding dinv_def by blast
  then have a: "dir t ! index < length (store t)" "old \<le> global_depth t"
    by (auto simp: old_def)
  have st: "store t1 = store t" by (simp add: t1_def grow_dir_eq)
  have g1: "old < global_depth t1"
    using a(2) by (auto simp: t1_def grow_dir_eq)
  have d1: "dinv (global_depth t1) (dir t1) ls"
    using d0 dinv_grow [OF d0] by (simp add: t1_def ls_def grow_dir_eq del: upt_Suc power_Suc)
  have idx1: "index < 2 ^ global_depth t1"
    using idx by (auto simp: t1_def grow_dir_eq)
  have same: "dir t1 ! index = dir t ! index"
  proof (cases "old = global_depth t")
    case True
    from idx have lt: "index < 2 ^ Suc (global_depth t)" by simp
    then have "map (\<lambda>i. dir t ! (i mod 2 ^ global_depth t)) [0..<2 ^ Suc (global_depth t)] ! index
        = dir t ! (index mod 2 ^ global_depth t)"
      by (simp del: upt_Suc power_Suc)
    with idx True show ?thesis by (simp add: t1_def grow_dir_eq del: upt_Suc power_Suc)
  next
    case False
    then show ?thesis by (simp add: t1_def)
  qed
  have old1: "old = ls ! (dir t1 ! index)"
    using a(1) by (simp add: ls_def same st old_def)
  define t2 where "t2 = t1\<lparr>store := store t1 @ [Bucket_new (bucket_size t1) (old + 1),
                                         Bucket_new (bucket_size t1) (old + 1)],
                  dir := repoint (push_bit (global_depth t1 - old) 1) old
                           (index AND (push_bit old 1 - 1))
                           (length (store t1)) (length (store t1) + 1) (dir t1)\<rparr>"
  have "dinv (global_depth t2) (dir t2) (map bucket_depth (store t2))"
    using dinv_split [OF d1 idx1 old1 g1 refl]
    by (simp add: t2_def and_low_mask' push_bit_of_1 ls_def Bucket_new_def)
  then have "dir_inv (RedistributeBucket h t2 (dir t1 ! index))"
    by (simp add: dir_inv_dinv RedistributeBucket_def redistribute_keeps)
  then have "dir_inv ((RedistributeBucket h t2 (dir t1 ! index))
      \<lparr>num_buckets := num_buckets (RedistributeBucket h t2 (dir t1 ! index)) + 1\<rparr>)"
    by (simp add: dir_inv_dinv)
  moreover have "split_bucket h t index = (RedistributeBucket h t2 (dir t1 ! index))
      \<lparr>num_buckets := num_buckets (RedistributeBucket h t2 (dir t1 ! index)) + 1\<rparr>"
    unfolding split_bucket_def t2_def t1_def old_def Let_def ..
  ultimately show ?thesis by simp
qed

lemma store_update_inv:
  assumes "dir_inv t" "bucket_depth b = bucket_depth (store t ! a)"
  shows "dir_inv (t\<lparr>store := (store t)[a := b]\<rparr>)"
  using assms by (simp add: dir_inv_dinv map_depth_update)

lemma table_Insert_inv:
  "dir_inv t \<Longrightarrow> ExtendibleHashTable_Insert fuel h t key val = Some t' \<Longrightarrow> dir_inv t'"
proof (induction fuel arbitrary: t)
  case 0
  then show ?case by simp
next
  case (Suc fuel)
  let ?a = "dir t ! IndexOf h t key"
  obtain ok b where bi: "Bucket_Insert (store t ! ?a) key val = (ok, b)" by (metis surj_pair)
  then have db: "bucket_depth b = bucket_depth (store t ! ?a)"
    by (metis depth_Bucket_Insert snd_conv)
  show ?case
  proof (cases ok)
    case True
    with Suc.prems(2) bi have "t' = t\<lparr>store := (store t)[?a := b]\<rparr>" by (simp add: Let_def)
    with store_update_inv [OF Suc.prems(1) db] show ?thesis by simp
  next
    case False
    with Suc.prems(2) bi have "ExtendibleHashTable_Insert fuel h (split_bucket h t (IndexOf h t key)) key val = Some t'"
      by (simp add: Let_def)
    from Suc.IH [OF split_bucket_inv [OF Suc.prems(1) IndexOf_less] this] show ?thesis .
  qed
qed

lemma table_Remove_inv: "dir_inv t \<Longrightarrow> dir_inv (snd (ExtendibleHashTable_Remove h t key))"
proof -
  assume inv: "dir_inv t"
  let ?a = "dir t ! IndexOf h t key"
  obtain ok b where br: "Bucket_Remove (store t ! ?a) key = (ok, b)" by (metis surj_pair)
  then have "bucket_depth b = bucket_depth (store t ! ?a)"
    by (metis depth_Bucket_Remove snd_conv)
  from store_update_inv [OF inv this] br show ?thesis by (simp add: ExtendibleHashTable_Remove_def Let_def)
qed

lemma table_new_inv: "dir_inv (ExtendibleHashTable_new sz)"
  by (simp add: dir_inv_dinv dinv_def ExtendibleHashTable_new_def Bucket_new_def)

lemma table_run_inv:
  "dir_inv t \<Longrightarrow> table_run fuel h xs t = Some t' \<Longrightarrow> dir_inv t'"
proof (induction xs arbitrary: t)
  case Nil
  then show ?case by simp
next
  case (Cons x xs)
  then obtain t1 where t1: "table_apply fuel h x t = Some t1" "table_run fuel h xs t1 = Some t'"
    by (auto split: option.splits)
  have "dir_inv t1"
  proof (cases x)
    case (TableInsert key val)
    with t1(1) table_Insert_inv [OF Cons.prems(1)] show ?thesis by simp
  next
    case (TableRemove key)
    with t1(1) table_Remove_inv [OF Cons.prems(1)] show ?thesis by auto
  next
    case (TableFind key)
    with t1(1) Cons.prems(1) show ?thesis by simp
  qed
  from Cons.IH [OF this t1(2)] show ?case .
qed

text \<open>
  C7: after every finite sequence of \<open>Insert\<close>, \<open>Remove\<close> and \<open>Find\<close> operations that
  starts from a fresh table and completes, the directory has \<open>2 ^ global depth\<close> slots and
  every slot \<open>i\<close> references a bucket whose local depth \<open>l\<close> is at most the global depth
  and that is shared by exactly the slots \<open>j\<close> with \<open>j & ((1 << l) - 1) = i & ((1 << l) - 1)\<close>:
  the low \<open>l\<close> bits of its slots are the stamp of the bucket.
\<close>

theorem C7_directory_invariant:
  assumes "table_run fuel h xs (ExtendibleHashTable_new sz) = Some t"
  shows "length (dir t) = 2 ^ global_depth t \<and>
         (\<forall>i<length (dir t).
            GetLocalDepth t i \<le> global_depth t \<and>
            (\<forall>j<length (dir t).
               (dir t ! j = dir t ! i) =
               (j AND (push_bit (GetLocalDepth t i) 1 - 1) =
                i AND (push_bit (GetLocalDepth t i) 1 - 1))))"
proof -
  from table_run_inv [OF table_new_inv assms] have "dir_inv t" .
  then show ?thesis
    by (simp add: dir_inv_def slot_ok_def push_bit_of_1)
qed

lemma example_run:
  "table_run 10 (\<lambda>k. k) example_ops (ExtendibleHashTable_new 2) =
     Some \<lparr>global_depth = 3, bucket_size = 2, num_buckets = 5,
           dir = [7, 5, 8, 4, 7, 6, 8, 4],
           store = [\<lparr>bucket_cap = 2, bucket_depth = 0, bucket_items = [(1, 10), (2, 20)]\<rparr>,
                    \<lparr>bucket_cap = 2, bucket_depth = 1, bucket_items = [(2, 20), (4, 40)]\<rparr>,
                    \<lparr>bucket_cap = 2, bucket_depth = 1, bucket_items = [(1, 10), (3, 30)]\<rparr>,
                    \<lparr>bucket_cap = 2, bucket_depth = 2, bucket_items = [(1, 10), (5, 50)]\<rparr>,
                    \<lparr>bucket_cap = 2, bucket_depth = 2, bucket_items = [(3, 30)]\<rparr>,
                    \<lparr>bucket_cap = 2, bucket_depth = 3, bucket_items = [(9, 0)]\<rparr>,
                    \<lparr>bucket_cap = 2, bucket_depth = 3, bucket_items = [(5, 50), (13, 0)]\<rparr>,
                    \<lparr>bucket_cap = 2, bucket_depth = 2, bucket_items = [(4, 40), (8, 0)]\<rparr>,
                    \<lparr>bucket_cap = 2, bucket_depth = 2, bucket_items = [(2, 20)]\<rparr>]\<rparr>"
  by code_simp

theorem C7_directory_invariant_witness:
  "length (dir (the (table_run 10 (\<lambda>k. k) example_ops (ExtendibleHashTable_new 2)))) = 8 \<and>
   GetLocalDepth (the (table_run 10 (\<lambda>k. k) example_ops (ExtendibleHashTable_new 2))) 1 = 3 \<and>
   GetLocalDepth (the (table_run 10 (\<lambda>k. k) example_ops (ExtendibleHashTable_new 2))) 4 = 2"
  using C7_directory_invariant [OF example_run]
  by (simp add: example_run GetLocalDepth_def)

subsection \<open>TopN against Sort\<close>

lemma length_push_heap_loop [simp]: "length (push_heap_loop cmp c h t v) = length c"
  by (induction cmp c h t v rule: push_heap_loop.induct)
     (subst push_heap_loop.simps, simp)

lemma length_adjust_down [simp]: "length (fst (adjust_down cmp c s len)) = length c"
  by (induction cmp c s len rule: adjust_down.induct)
     (subst adjust_down.simps, simp add: Let_def)

lemma length_pq_pop [simp]: "length (pq_pop cmp q) = length q - 1"
  by (simp add: pq_pop_def pop_heap_def adjust_heap_def Let_def split: prod.splits)
     (metis fst_conv length_adjust_down length_list_update)

lemma lin_asym:
  "strict_linear_on S cmp \<Longrightarrow> a \<in> S \<Longrightarrow> b \<in> S \<Longrightarrow> cmp a b \<Longrightarrow> \<not> cmp b a"
  unfolding strict_linear_on_def by blast

lemma lin_negtrans:
  "strict_linear_on S cmp \<Longrightarrow> a \<in> S \<Longrightarrow> b \<in> S \<Longrightarrow> c \<in> S \<Longrightarrow>
     \<not> cmp a b \<Longrightarrow> \<not> cmp b c \<Longrightarrow> \<not> cmp a c"
  unfolding strict_linear_on_def by metis

lemma lin_less_le:
  "strict_linear_on S cmp \<Longrightarrow> a \<in> S \<Longrightarrow> b \<in> S \<Longrightarrow> c \<in> S \<Longrightarrow>
     cmp a b \<Longrightarrow> \<not> cmp a c \<Longrightarrow> \<not> cmp b c"
  unfolding strict_linear_on_def by blast

lemma lin_irrefl: "strict_linear_on S cmp \<Longrightarrow> a \<in> S \<Longrightarrow> \<not> cmp a a"
  unfolding strict_linear_on_def by blast

lemma lin_trans:
  "strict_linear_on S cmp \<Longrightarrow> a \<in> S \<Longrightarrow> b \<in> S \<Longrightarrow> c \<in> S \<Longrightarrow>
     cmp a b \<Longrightarrow> cmp b c \<Longrightarrow> cmp a c"
  unfolding strict_linear_on_def by blast

lemma lin_total:
  "strict_linear_on S cmp \<Longrightarrow> a \<in> S \<Longrightarrow> b \<in> S \<Longrightarrow> a \<noteq> b \<Longrightarrow> cmp a b \<or> cmp b a"
  unfolding strict_linear_on_def by blast

lemma lin_subset: "strict_linear_on S cmp \<Longrightarrow> T \<subseteq> S \<Longrightarrow> strict_linear_on T cmp"
  unfolding strict_linear_on_def by blast

lemma parent_less: "0 < i \<Longrightarrow> (i - Suc 0) div 2 < (i::nat)"
  by arith

lemma push_heap_loop_ok:
  "up_inv cmp c len hole v \<Longrightarrow> elems_in c len S \<Longrightarrow> v \<in> S \<Longrightarrow> len \<le> length c \<Longrightarrow>
         strict_linear_on S cmp \<Longrightarrow>
           heap_ok cmp (push_heap_loop cmp c hole 0 v) len \<and>
           elems_in (push_heap_loop cmp c hole 0 v) len S"
proof (induction cmp c hole "0::nat" v rule: push_heap_loop.induct)
  case (1 cmp c hole v)
  note inv = "1.prems"(1) and el = "1.prems"(2) and vS = "1.prems"(3) and len = "1.prems"(4)
  note lin = "1.prems"(5)
  let ?p = "(hole - 1) div 2"
  from inv have hl: "hole < len" by (simp add: up_inv_def)
  show ?case
  proof (cases "hole > 0 \<and> cmp (c ! ?p) v")
    case False
    then have res: "push_heap_loop cmp c hole 0 v = c[hole := v]"
      by (subst push_heap_loop.simps) auto
    have "heap_ok cmp (c[hole := v]) len"
      unfolding heap_ok_def
    proof (intro allI impI)
      fix i assume i: "0 < i \<and> i < len"
      let ?q = "(i - 1) div 2"
      from i have ql: "?q < i" by (simp add: parent_less)
      show "\<not> cmp (c[hole := v] ! ?q) (c[hole := v] ! i)"
      proof (cases "i = hole")
        case True
        with False ql hl len show ?thesis by simp
      next
        case ne: False
        show ?thesis
        proof (cases "?q = hole")
          case True
          with inv i ne hl len show ?thesis by (simp add: up_inv_def)
        next
          case False
          with inv i ne hl len show ?thesis by (simp add: up_inv_def)
        qed
      qed
    qed
    moreover have "elems_in (c[hole := v]) len S"
      using el vS hl len by (simp add: elems_in_def nth_list_update)
    ultimately show ?thesis by (simp add: res)
  next
    case True
    then have res: "push_heap_loop cmp c hole 0 v = push_heap_loop cmp (c[hole := c ! ?p]) ?p 0 v"
      by (subst push_heap_loop.simps) simp
    from True have pl: "?p < hole" by (simp add: parent_less)
    let ?c = "c[hole := c ! ?p]"
    have cS: "c ! i \<in> S" if "i < len" for i using el that by (simp add: elems_in_def)
    have el': "elems_in ?c len S"
      using el hl pl len by (simp add: elems_in_def nth_list_update)
    have A: "\<not> cmp (c ! ((i - 1) div 2)) (c ! i)" if "0 < i" "i < len" "i \<noteq> hole" for i
      using inv that by (simp add: up_inv_def)
    have B: "\<not> cmp v (c ! k) \<and> \<not> cmp (c ! ?p) (c ! k)" if "0 < k" "k < len" "(k - 1) div 2 = hole" for k
      using inv that True by (simp add: up_inv_def)
    have inv': "up_inv cmp ?c len ?p v"
      unfolding up_inv_def
    proof (intro conjI allI impI)
      show "?p < len" using pl hl by simp
    next
      fix i assume i: "0 < i \<and> i < len \<and> i \<noteq> ?p"
      let ?q = "(i - 1) div 2"
      from i have ql: "?q < i" by (simp add: parent_less)
      show "\<not> cmp (?c ! ?q) (?c ! i)"
      proof (cases "i = hole")
        case True
        with hl len pl cS [of ?p] lin show ?thesis by (simp add: lin_irrefl)
      next
        case ne: False
        show ?thesis
        proof (cases "?q = hole")
          case True
          with B [of i] i ne hl len show ?thesis by simp
        next
          case False
          with A [of i] i ne hl len show ?thesis by simp
        qed
      qed
    next
      fix k assume k: "0 < k \<and> k < len \<and> (k - 1) div 2 = ?p"
      have ck: "?c ! k = (if k = hole then c ! ?p else c ! k)"
        using hl len by (simp add: nth_list_update)
      have pS: "c ! ?p \<in> S" using pl hl by (simp add: cS)
      have kS: "c ! k \<in> S" using k by (simp add: cS)
      have le: "\<not> cmp (c ! ?p) (c ! k)" if "k \<noteq> hole"
        using A [of k] k that by simp
      show "\<not> cmp v (?c ! k)"
      proof (cases "k = hole")
        case True
        with True ck lin_asym [OF lin pS vS] \<open>hole > 0 \<and> cmp (c ! ?p) v\<close> show ?thesis by simp
      next
        case False
        with lin_less_le [OF lin pS vS kS] le \<open>hole > 0 \<and> cmp (c ! ?p) v\<close> ck show ?thesis by simp
      qed
    next
      fix k assume k: "0 < k \<and> k < len \<and> (k - 1) div 2 = ?p" and pp: "0 < ?p"
      have ck: "?c ! k = (if k = hole then c ! ?p else c ! k)"
        using hl len by (simp add: nth_list_update)
      have pS: "c ! ?p \<in> S" using pl hl by (simp add: cS)
      have kS: "c ! k \<in> S" using k by (simp add: cS)
      have le: "\<not> cmp (c ! ?p) (c ! k)" if "k \<noteq> hole"
        using A [of k] k that by simp
      let ?g = "(?p - 1) div 2"
      from pp have gl: "?g < ?p" by (simp add: parent_less)
      with pl hl have gS: "c ! ?g \<in> S" by (simp add: cS)
      from gl pl have cg: "?c ! ?g = c ! ?g" by simp
      from A [of ?p] pp pl hl have gp: "\<not> cmp (c ! ?g) (c ! ?p)" by simp
      show "\<not> cmp (?c ! ?g) (?c ! k)"
      proof (cases "k = hole")
        case True
        with ck cg gp show ?thesis by simp
      next
        case False
        with lin_negtrans [OF lin gS pS kS gp] le ck cg show ?thesis by simp
      qed
    qed
    from "1.hyps" [OF True inv' el' vS] len lin show ?thesis by (simp add: res)
  qed
qed

lemma mset_move_hole:
  assumes "i < length c" "j < length c"
  shows "mset (c[i := c ! j, j := x]) = mset (c[i := x])"
proof (cases "i = j")
  case True
  then show ?thesis by simp
next
  case False
  with assms show ?thesis by (simp add: mset_update nth_list_update)
qed

lemma push_heap_loop_mset:
  "hole < length c \<Longrightarrow> mset (push_heap_loop cmp c hole t v) = mset (c[hole := v])"
proof (induction cmp c hole t v rule: push_heap_loop.induct)
  case (1 cmp c hole t v)
  let ?p = "(hole - 1) div 2"
  show ?case
  proof (cases "hole > t \<and> cmp (c ! ?p) v")
    case False
    then show ?thesis by (subst push_heap_loop.simps) auto
  next
    case True
    then have pl: "?p < hole" by (simp add: parent_less)
    with "1.prems" have pc: "?p < length c" by simp
    from True have "push_heap_loop cmp c hole t v = push_heap_loop cmp (c[hole := c ! ?p]) ?p t v"
      by (subst push_heap_loop.simps) simp
    also have "mset \<dots> = mset (c[hole := c ! ?p, ?p := v])"
      using "1.IH" [OF True] pc by simp
    also have "\<dots> = mset (c[hole := v])"
      using mset_move_hole [OF "1.prems" pc] .
    finally show ?thesis .
  qed
qed

lemma push_heap_loop_above:
  "hole < j \<Longrightarrow> push_heap_loop cmp c hole t v ! j = c ! j"
proof (induction cmp c hole t v rule: push_heap_loop.induct)
  case (1 cmp c hole t v)
  let ?p = "(hole - 1) div 2"
  show ?case
  proof (cases "hole > t \<and> cmp (c ! ?p) v")
    case False
    with "1.prems" show ?thesis by (subst push_heap_loop.simps) auto
  next
    case True
    then have pl: "?p < hole" by (simp add: parent_less)
    from True have "push_heap_loop cmp c hole t v = push_heap_loop cmp (c[hole := c ! ?p]) ?p t v"
      by (subst push_heap_loop.simps) simp
    with "1.IH" [OF True] pl "1.prems" show ?thesis by simp
  qed
qed

lemma heap_top_max:
  assumes lin: "strict_linear_on S cmp" and h: "heap_ok cmp c len" and el: "elems_in c len S"
  shows "i < len \<Longrightarrow> \<not> cmp (c ! 0) (c ! i)"
proof (induction i rule: less_induct)
  case (less i)
  show ?case
  proof (cases "i = 0")
    case True
    with less.prems el lin show ?thesis by (simp add: elems_in_def lin_irrefl)
  next
    case False
    let ?p = "(i - 1) div 2"
    from False have pl: "?p < i" by (simp add: parent_less)
    with less have "\<not> cmp (c ! 0) (c ! ?p)" by simp
    moreover from h False less.prems have "\<not> cmp (c ! ?p) (c ! i)" by (simp add: heap_ok_def)
    moreover from el less.prems pl have "c ! 0 \<in> S" "c ! ?p \<in> S" "c ! i \<in> S"
      by (simp_all add: elems_in_def)
    ultimately show ?thesis using lin_negtrans [OF lin] by blast
  qed
qed

lemma elems_in_set: "elems_in c (length c) S = (set c \<subseteq> S)"
proof
  assume "elems_in c (length c) S"
  then show "set c \<subseteq> S" by (auto simp: elems_in_def in_set_conv_nth)
next
  assume "set c \<subseteq> S"
  then show "elems_in c (length c) S" using nth_mem [of _ c] by (auto simp: elems_in_def)
qed

lemma pq_push_ok:
  assumes lin: "strict_linear_on S cmp" and q: "pq_ok S cmp q" and x: "x \<in> S"
  shows "pq_ok S cmp (pq_push cmp q x) \<and> mset (pq_push cmp q x) = add_mset x (mset q)"
proof -
  let ?c = "q @ [x]"
  let ?n = "length q"
  have up: "up_inv cmp ?c (Suc ?n) ?n x"
    unfolding up_inv_def
  proof (intro conjI allI impI)
    fix i assume i: "0 < i \<and> i < Suc ?n \<and> i \<noteq> ?n"
    then have "i < ?n" "(i - 1) div 2 < ?n" using parent_less [of i] by simp_all
    with q i show "\<not> cmp (?c ! ((i - 1) div 2)) (?c ! i)"
      by (simp add: pq_ok_def heap_ok_def nth_append)
  next
    fix k assume k: "0 < k \<and> k < Suc ?n \<and> (k - 1) div 2 = ?n"
    with parent_less [of k] have False by simp
    then show "\<not> cmp x (?c ! k)" ..
  next
    fix k assume k: "0 < k \<and> k < Suc ?n \<and> (k - 1) div 2 = ?n"
    with parent_less [of k] have False by simp
    then show "\<not> cmp (?c ! ((?n - 1) div 2)) (?c ! k)" ..
  qed simp
  have el: "elems_in ?c (Suc ?n) S"
    using q x by (auto simp: elems_in_def pq_ok_def nth_append less_Suc_eq)
  from push_heap_loop_ok [OF up el x _ lin]
  have "heap_ok cmp (push_heap_loop cmp ?c ?n 0 x) (Suc ?n)"
       "elems_in (push_heap_loop cmp ?c ?n 0 x) (Suc ?n) S" by simp_all
  moreover have "pq_push cmp q x = push_heap_loop cmp ?c ?n 0 x"
    by (simp add: pq_push_def push_heap_def)
  moreover have "mset (push_heap_loop cmp ?c ?n 0 x) = add_mset x (mset q)"
    by (simp add: push_heap_loop_mset)
  ultimately show ?thesis
    using elems_in_set [of "push_heap_loop cmp ?c ?n 0 x" S] by (simp add: pq_ok_def)
qed

lemma children_of: "(0 < i \<and> (i - Suc 0) div 2 = h) = (i = 2 * h + 1 \<or> i = 2 * h + 2)"
  by arith

lemma adjust_down_spec:
  "heap_ok cmp c len \<Longrightarrow> elems_in c len S \<Longrightarrow> len \<le> length c \<Longrightarrow> h < len \<Longrightarrow>
   strict_linear_on S cmp \<Longrightarrow>
     (case adjust_down cmp c h len of
        (c1, h1) \<Rightarrow>
          heap_ok cmp c1 len \<and> elems_in c1 len S \<and> h1 < len \<and> \<not> h1 < (len - 1) div 2 \<and>
          length c1 = length c \<and> (\<forall>j\<ge>len. c1 ! j = c ! j) \<and>
          (\<forall>x. mset (c1[h1 := x]) = mset (c[h := x])))"
proof (induction cmp c h len rule: adjust_down.induct)
  case (1 cmp c h len)
  note hp = "1.prems"(1) and el = "1.prems"(2) and len = "1.prems"(3) and hl = "1.prems"(4)
    and lin = "1.prems"(5)
  show ?case
  proof (cases "h < (len - 1) div 2")
    case False
    then have "adjust_down cmp c h len = (c, h)" by (subst adjust_down.simps) simp
    with "1.prems" False show ?thesis by simp
  next
    case True
    define sc where "sc = 2 * (h + 1)"
    define m where "m = (if cmp (c ! sc) (c ! (sc - 1)) then sc - 1 else sc)"
    from True have scl: "sc < len" "sc - 1 < len" "sc - 1 = 2 * h + 1" "sc = 2 * h + 2"
      unfolding sc_def by arith+
    then have m: "m = 2 * h + 1 \<or> m = 2 * h + 2" "m < len" "h < m"
      by (auto simp: m_def)
    let ?c = "c[h := c ! m]"
    have unf: "adjust_down cmp c h len = adjust_down cmp ?c m len"
      using True by (subst adjust_down.simps) (simp add: Let_def sc_def m_def)
    have cS: "c ! i \<in> S" if "i < len" for i using el that by (simp add: elems_in_def)
    have E: "\<not> cmp (c ! ((i - 1) div 2)) (c ! i)" if "0 < i" "i < len" for i
      using hp that by (simp add: heap_ok_def)
    have best: "\<not> cmp (c ! m) (c ! (2 * h + 1))" "\<not> cmp (c ! m) (c ! (2 * h + 2))"
    proof -
      have l: "c ! (2 * h + 1) \<in> S" and r: "c ! (2 * h + 2) \<in> S"
        using scl cS [of "2 * h + 1"] cS [of "2 * h + 2"] by simp_all
      show "\<not> cmp (c ! m) (c ! (2 * h + 1))"
        using lin_irrefl [OF lin l] by (auto simp: m_def scl)
      show "\<not> cmp (c ! m) (c ! (2 * h + 2))"
        using lin_irrefl [OF lin r] lin_asym [OF lin r l] by (auto simp: m_def scl)
    qed
    have hp': "heap_ok cmp ?c len"
      unfolding heap_ok_def
    proof (intro allI impI)
      fix i assume i: "0 < i \<and> i < len"
      let ?q = "(i - 1) div 2"
      from i have ql: "?q < i" by (simp add: parent_less)
      show "\<not> cmp (?c ! ?q) (?c ! i)"
      proof (cases "i = h")
        case True
        from True i ql have qh: "?q \<noteq> h" by simp
        have "\<not> cmp (c ! ?q) (c ! h)" using E [of h] i True by simp
        moreover have "\<not> cmp (c ! h) (c ! m)"
          using E [of m] m children_of [of m h] by auto
        moreover have "c ! ?q \<in> S" "c ! h \<in> S" "c ! m \<in> S"
          using i ql m hl by (simp_all add: cS)
        ultimately have "\<not> cmp (c ! ?q) (c ! m)" using lin_negtrans [OF lin] by blast
        with True qh hl len show ?thesis by simp
      next
        case ne: False
        show ?thesis
        proof (cases "?q = h")
          case True
          with i children_of [of i h] have "i = 2 * h + 1 \<or> i = 2 * h + 2" by simp
          with best True ne hl len show ?thesis by auto
        next
          case False
          with E [of i] i ne show ?thesis by simp
        qed
      qed
    qed
    have el': "elems_in ?c len S"
      using el m hl len by (simp add: elems_in_def nth_list_update)
    from "1.IH" [OF True sc_def m_def hp' el' _ m(2) lin] len
    have IH: "case adjust_down cmp ?c m len of
        (c1, h1) \<Rightarrow>
          heap_ok cmp c1 len \<and> elems_in c1 len S \<and> h1 < len \<and> \<not> h1 < (len - 1) div 2 \<and>
          length c1 = length ?c \<and> (\<forall>j\<ge>len. c1 ! j = ?c ! j) \<and>
          (\<forall>x. mset (c1[h1 := x]) = mset (?c[m := x]))"
      by simp
    have mv: "mset (?c[m := x]) = mset (c[h := x])" for x
      using mset_move_hole [of h c m x] hl m(2) len by simp
    from IH show ?thesis
      unfolding unf using hl by (auto simp: mv split: prod.splits)
  qed
qed

lemma heap_ok_leaf_up:
  assumes "heap_ok cmp c len" "h < len" "len \<le> 2 * h + 1"
  shows "up_inv cmp c len h v"
  unfolding up_inv_def
proof (intro conjI allI impI)
  show "h < len" by fact
next
  fix i assume "0 < i \<and> i < len \<and> i \<noteq> h"
  with assms(1) show "\<not> cmp (c ! ((i - 1) div 2)) (c ! i)" by (simp add: heap_ok_def)
next
  fix k assume k: "0 < k \<and> k < len \<and> (k - 1) div 2 = h"
  with children_of [of k h] assms(3) have False by simp
  then show "\<not> cmp v (c ! k)" ..
next
  fix k assume k: "0 < k \<and> k < len \<and> (k - 1) div 2 = h"
  with children_of [of k h] assms(3) have False by simp
  then show "\<not> cmp (c ! ((h - 1) div 2)) (c ! k)" ..
qed

lemma adjust_heap_spec:
  assumes lin: "strict_linear_on S cmp"
    and hp: "heap_ok cmp c len" and el: "elems_in c len S" and len: "len \<le> length c" "0 < len"
    and v: "v \<in> S"
  shows "heap_ok cmp (adjust_heap cmp c 0 len v) len \<and>
         elems_in (adjust_heap cmp c 0 len v) len S \<and>
         length (adjust_heap cmp c 0 len v) = length c \<and>
         (\<forall>j\<ge>len. adjust_heap cmp c 0 len v ! j = c ! j) \<and>
         mset (adjust_heap cmp c 0 len v) = mset (c[0 := v])"
proof -
  obtain c1 h1 where ad: "adjust_down cmp c 0 len = (c1, h1)" by (metis surj_pair)
  from adjust_down_spec [OF hp el len(1) len(2) lin] ad
  have c1: "heap_ok cmp c1 len" "elems_in c1 len S" "h1 < len" "\<not> h1 < (len - 1) div 2"
    "length c1 = length c" "\<forall>j\<ge>len. c1 ! j = c ! j" "\<forall>x. mset (c1[h1 := x]) = mset (c[0 := x])"
    by simp_all
  have cS: "c1 ! i \<in> S" if "i < len" for i using c1(2) that by (simp add: elems_in_def)
  have E: "\<not> cmp (c1 ! ((i - 1) div 2)) (c1 ! i)" if "0 < i" "i < len" for i
    using c1(1) that by (simp add: heap_ok_def)
  show ?thesis
  proof (cases "even len \<and> 2 \<le> len \<and> h1 = (len - 2) div 2")
    case True
    then have l1: "2 * (h1 + 1) - 1 = len - 1" "len - 1 = 2 * h1 + 1" "h1 < len - 1"
      by (auto elim!: evenE)
    let ?c2 = "c1[h1 := c1 ! (len - 1)]"
    have res: "adjust_heap cmp c 0 len v = push_heap_loop cmp ?c2 (len - 1) 0 v"
      using True ad l1 by (simp add: adjust_heap_def)
    have hp2: "heap_ok cmp ?c2 len"
      unfolding heap_ok_def
    proof (intro allI impI)
      fix i assume i: "0 < i \<and> i < len"
      let ?q = "(i - 1) div 2"
      from i have ql: "?q < i" by (simp add: parent_less)
      show "\<not> cmp (?c2 ! ?q) (?c2 ! i)"
      proof (cases "i = h1")
        case True
        from True ql have qh: "?q \<noteq> h1" by simp
        have "\<not> cmp (c1 ! ?q) (c1 ! h1)" using E [of h1] i True by simp
        moreover have "\<not> cmp (c1 ! h1) (c1 ! (len - 1))"
        proof -
          from l1 have "(len - 1 - 1) div 2 = h1" "0 < len - 1" "len - 1 < len" by arith+
          with E [of "len - 1"] show ?thesis by simp
        qed
        moreover have "c1 ! ?q \<in> S" "c1 ! h1 \<in> S" "c1 ! (len - 1) \<in> S"
          using i ql c1(3) len(2) by (simp_all add: cS)
        ultimately have "\<not> cmp (c1 ! ?q) (c1 ! (len - 1))" using lin_negtrans [OF lin] by blast
        with True qh c1(3,5) len(1) show ?thesis by simp
      next
        case ne: False
        show ?thesis
        proof (cases "?q = h1")
          case True
          with i children_of [of i h1] l1 have il: "i = len - 1" by auto
          with True ne c1(3,5) len lin cS [of "len - 1"] show ?thesis
            by (simp add: lin_irrefl)
        next
          case False
          with E [of i] i ne show ?thesis by simp
        qed
      qed
    qed
    have el2: "elems_in ?c2 len S"
      using c1(2,3,5) len by (simp add: elems_in_def nth_list_update)
    have up: "up_inv cmp ?c2 len (len - 1) v"
      by (rule heap_ok_leaf_up [OF hp2]) (use len(2) in simp_all)
    from push_heap_loop_ok [OF up el2 v _ lin] c1(5) len(1)
    have "heap_ok cmp (push_heap_loop cmp ?c2 (len - 1) 0 v) len"
      "elems_in (push_heap_loop cmp ?c2 (len - 1) 0 v) len S" by simp_all
    moreover have "mset (push_heap_loop cmp ?c2 (len - 1) 0 v) = mset (c[0 := v])"
    proof -
      have "mset (push_heap_loop cmp ?c2 (len - 1) 0 v) = mset (?c2[len - 1 := v])"
        using c1(5) len by (simp add: push_heap_loop_mset)
      also have "\<dots> = mset (c1[h1 := v])"
        using mset_move_hole [of h1 c1 "len - 1" v] c1(3,5) len by simp
      finally show ?thesis using c1(7) by simp
    qed
    moreover have "\<forall>j\<ge>len. push_heap_loop cmp ?c2 (len - 1) 0 v ! j = c ! j"
      using c1(3,6) len(2) by (simp add: push_heap_loop_above)
    ultimately show ?thesis by (simp add: res c1(5))
  next
    case False
    have res: "adjust_heap cmp c 0 len v = push_heap_loop cmp c1 h1 0 v"
      using False ad by (auto simp: adjust_heap_def)
    from False c1(3,4) have leaf: "len \<le> 2 * h1 + 1" by (auto elim!: oddE)
    have up: "up_inv cmp c1 len h1 v"
      by (rule heap_ok_leaf_up [OF c1(1) c1(3) leaf])
    from push_heap_loop_ok [OF up c1(2) v _ lin] c1(5) len(1)
    have "heap_ok cmp (push_heap_loop cmp c1 h1 0 v) len"
      "elems_in (push_heap_loop cmp c1 h1 0 v) len S" by simp_all
    moreover have "mset (push_heap_loop cmp c1 h1 0 v) = mset (c[0 := v])"
      using c1(3,5,7) len by (simp add: push_heap_loop_mset)
    moreover have "\<forall>j\<ge>len. push_heap_loop cmp c1 h1 0 v ! j = c ! j"
      using c1(3,6) by (simp add: push_heap_loop_above)
    ultimately show ?thesis by (simp add: res c1(5))
  qed
qed

lemma length_pq_push [simp]: "length (pq_push cmp q x) = Suc (length q)"
  by (simp add: pq_push_def push_heap_def)

lemma pq_top_max:
  assumes lin: "strict_linear_on S cmp" and q: "pq_ok S cmp q" and x: "x \<in> set q"
  shows "\<not> cmp (pq_top q) x"
proof -
  from x obtain i where i: "i < length q" "x = q ! i" by (auto simp: in_set_conv_nth)
  from q have "heap_ok cmp q (length q)" "elems_in q (length q) S"
    by (simp_all add: pq_ok_def elems_in_set)
  from heap_top_max [OF lin this i(1)] i(2) show ?thesis by (simp add: pq_top_def)
qed

lemma pq_pop_ok:
  assumes lin: "strict_linear_on S cmp" and q: "pq_ok S cmp q" and ne: "q \<noteq> []"
  shows "pq_ok S cmp (pq_pop cmp q) \<and> mset (pq_pop cmp q) = mset q - {#pq_top q#}"
proof (cases "length q > 1")
  case False
  with ne obtain x where "q = [x]" by (cases q) auto
  then show ?thesis
    by (simp add: pq_pop_def pop_heap_def pq_ok_def heap_ok_def pq_top_def)
next
  case True
  define n where "n = length q"
  define v where "v = q ! (n - 1)"
  define c0 where "c0 = q[n - 1 := q ! 0]"
  define r where "r = adjust_heap cmp c0 0 (n - 1) v"
  from True have n: "1 < n" by (simp add: n_def)
  have pop: "pq_pop cmp q = butlast r"
    using True by (simp add: pq_pop_def pop_heap_def Let_def r_def c0_def v_def n_def)
  from q have hq: "heap_ok cmp q n" and sq: "set q \<subseteq> S" by (simp_all add: pq_ok_def n_def)
  have hp: "heap_ok cmp c0 (n - 1)"
    unfolding heap_ok_def
  proof (intro allI impI)
    fix i assume i: "0 < i \<and> i < n - 1"
    with parent_less [of i] have p: "(i - 1) div 2 < n - 1" by simp
    from i hq have "\<not> cmp (q ! ((i - 1) div 2)) (q ! i)" by (auto simp: heap_ok_def)
    with i p show "\<not> cmp (c0 ! ((i - 1) div 2)) (c0 ! i)"
      by (simp add: c0_def)
  qed
  have el: "elems_in c0 (n - 1) S"
    using sq by (auto simp: elems_in_def c0_def n_def)
  have vS: "v \<in> S" using sq n by (auto simp: v_def n_def)
  have len: "n - 1 \<le> length c0" "0 < n - 1" using n by (simp_all add: c0_def n_def)
  note spec = adjust_heap_spec [OF lin hp el len vS, folded r_def]
  from spec have r1: "heap_ok cmp r (n - 1)" "elems_in r (n - 1) S" "mset r = mset (c0[0 := v])"
    by blast+
  from spec have "length r = length c0" by blast
  then have r3: "length r = n" by (simp add: c0_def n_def)
  from spec have "r ! (n - 1) = c0 ! (n - 1)" by blast
  then have r4: "r ! (n - 1) = q ! 0" using n by (simp add: c0_def n_def)
  note r = r1(1,2) r3 r4 r1(3)
  have "mset (c0[0 := v]) = mset (q[n - 1 := q ! (n - 1)])"
    unfolding c0_def v_def using n ne by (intro mset_move_hole) (simp_all add: n_def)
  then have "mset (c0[0 := v]) = mset q" by simp
  with r(5) have mr: "mset r = mset q" by simp
  from r(3) n have rne: "r \<noteq> []" by auto
  have lastr: "last r = q ! 0" using r(3,4) rne by (simp add: last_conv_nth)
  have "mset r = add_mset (last r) (mset (butlast r))"
    using rne by (metis append_butlast_last_id mset.simps(2) mset_append union_mset_add_mset_right add.right_neutral mset.simps(1))
  with mr lastr have "add_mset (q ! 0) (mset (butlast r)) = mset q" by simp
  then have "mset (butlast r) = mset q - {#q ! 0#}"
    by (metis add_mset_remove_trivial)
  then have m: "mset (butlast r) = mset q - {#pq_top q#}"
    by (simp add: pq_top_def)
  have "heap_ok cmp (butlast r) (length (butlast r))"
    unfolding heap_ok_def
  proof (intro allI impI)
    fix i assume i: "0 < i \<and> i < length (butlast r)"
    with parent_less [of i] have p: "(i - 1) div 2 < length (butlast r)" by simp
    from i r(1,3) have "\<not> cmp (r ! ((i - 1) div 2)) (r ! i)" by (auto simp: heap_ok_def)
    with i p show "\<not> cmp (butlast r ! ((i - 1) div 2)) (butlast r ! i)"
      by (simp add: nth_butlast)
  qed
  moreover have "set (butlast r) \<subseteq> S"
    using r(2,3) by (auto simp: elems_in_def in_set_conv_nth nth_butlast)
  ultimately show ?thesis using m by (simp add: pop pq_ok_def)
qed

text \<open>Multisets: a part of the same size is the whole; what is left when one element goes.\<close>

lemma mset_subset_size_eq:
  assumes "A \<subseteq># B" "size A = size B"
  shows "A = B"
proof -
  from assms(1) obtain C where C: "B = A + C" by (auto simp: mset_subset_eq_exists_conv)
  with assms(2) have "C = {#}" by simp
  with C show ?thesis by simp
qed

lemma in_diff_remove:
  assumes "a \<in># U - (B - {#t#})"
  shows "a = t \<or> a \<in># U - B"
proof (cases "a = t")
  case True
  then show ?thesis by simp
next
  case False
  then have "count (B - {#t#}) a = count B a" by simp
  with assms have "count B a < count U a" by (simp add: in_diff_count)
  then show ?thesis by (simp add: in_diff_count)
qed

lemma count_less_in: "count B x < count A x \<Longrightarrow> x \<in># A"
proof (rule ccontr)
  assume a: "count B x < count A x" and "x \<notin># A"
  then have "count A x = 0" by (simp only: not_in_iff)
  with a show False by simp
qed

lemma pq_top_in: "q \<noteq> [] \<Longrightarrow> pq_top q \<in> set q"
  by (simp add: pq_top_def)

text \<open>
  One round of the filling loop keeps in the queue the smallest tuples seen, with their
  repetitions.
\<close>

lemma fill_step:
  assumes lin: "strict_linear_on S cmp" and q: "pq_ok S cmp q"
    and seen: "set seen \<subseteq> S" and x: "x \<in> S"
    and sub: "mset q \<subseteq># mset seen" and len: "length q = min n (length seen)"
    and low: "low_mset cmp (mset seen) (mset q)"
  defines "q1 \<equiv> pq_push cmp q x"
  defines "q2 \<equiv> (if length q1 > n then pq_pop cmp q1 else q1)"
  shows "pq_ok S cmp q2 \<and> mset q2 \<subseteq># mset (seen @ [x]) \<and>
         length q2 = min n (length (seen @ [x])) \<and> low_mset cmp (mset (seen @ [x])) (mset q2)"
proof -
  from pq_push_ok [OF lin q x] have ok1: "pq_ok S cmp q1"
    and m1: "mset q1 = add_mset x (mset q)" by (simp_all add: q1_def)
  have l1: "length q1 = Suc (length q)" by (simp add: q1_def)
  from q have qS: "set q \<subseteq> S" by (simp add: pq_ok_def)
  from ok1 have q1S: "set q1 \<subseteq> S" by (simp add: pq_ok_def)
  show ?thesis
  proof (cases "length q1 > n")
    case False
    with l1 len have ll: "length q = length seen" "Suc (length seen) \<le> n" by auto
    from ll(1) have "size (mset q) = size (mset seen)" by simp
    from mset_subset_size_eq [OF sub this] have "mset q = mset seen" .
    with False ok1 m1 l1 ll show ?thesis
      by (simp add: q2_def low_mset_def)
  next
    case True
    with l1 len have ll: "length q = n" "n \<le> length seen" by auto
    from l1 have ne1: "q1 \<noteq> []" by auto
    define t where "t = pq_top q1"
    have q2: "q2 = pq_pop cmp q1" using True by (simp add: q2_def)
    from pq_pop_ok [OF lin ok1 ne1] have ok2: "pq_ok S cmp q2"
      and m2: "mset q2 = add_mset x (mset q) - {#t#}" by (simp_all add: q2 m1 t_def)
    have l2: "length q2 = n" using l1 ll by (simp add: q2)
    have tin: "t \<in> set q1" using pq_top_in [OF ne1] by (simp add: t_def)
    then have tin': "t \<in># add_mset x (mset q)" using m1 by (metis set_mset_mset)
    have top: "\<not> cmp t b" if "b \<in> set q1" for b
      using pq_top_max [OF lin ok1 that] by (simp add: t_def)
    have sub2: "mset q2 \<subseteq># mset (seen @ [x])"
    proof -
      have "mset q2 \<subseteq># add_mset x (mset q)" by (simp add: m2)
      also have "\<dots> \<subseteq># add_mset x (mset seen)" using sub by simp
      finally show ?thesis by simp
    qed
    have "\<not> cmp a b" if a: "a \<in># mset (seen @ [x]) - mset q2" and b: "b \<in># mset q2" for a b
    proof -
      from b have bq1: "b \<in># add_mset x (mset q)" by (auto simp: m2 dest: in_diffD)
      then have b1: "b \<in> set q1" using m1 by (metis set_mset_mset)
      from a have "a \<in># add_mset x (mset seen) - (add_mset x (mset q) - {#t#})"
        by (simp add: m2)
      from in_diff_remove [OF this] have "a = t \<or> a \<in># mset seen - mset q" by simp
      then show ?thesis
      proof
        assume "a = t"
        with top [OF b1] show ?thesis by simp
      next
        assume a': "a \<in># mset seen - mset q"
        then have "a \<in> set seen" by (metis in_diffD set_mset_mset)
        with seen have aS: "a \<in> S" by blast
        show ?thesis
        proof (cases "b \<in> set q")
          case True
          with low a' show ?thesis by (simp add: low_mset_def)
        next
          case False
          with bq1 have bx: "b = x" by auto
          have "t \<noteq> x"
          proof
            assume "t = x"
            with b bx False show False by (simp add: m2)
          qed
          with tin' have tq: "t \<in> set q" by auto
          with low a' have at: "\<not> cmp a t" by (simp add: low_mset_def)
          from tq qS have tS: "t \<in> S" by blast
          from b1 q1S have bS: "b \<in> S" by blast
          from lin_negtrans [OF lin aS tS bS at top [OF b1]] show ?thesis .
        qed
      qed
    qed
    then have "low_mset cmp (mset (seen @ [x])) (mset q2)"
      unfolding low_mset_def by blast
    with ok2 sub2 l2 ll show ?thesis by auto
  qed
qed

lemma topn_fill_inv:
  assumes lin: "strict_linear_on S cmp"
  shows "pq_ok S cmp q \<Longrightarrow> set (seen @ rest) \<subseteq> S \<Longrightarrow>
         mset q \<subseteq># mset seen \<Longrightarrow> length q = min n (length seen) \<Longrightarrow>
         low_mset cmp (mset seen) (mset q) \<Longrightarrow>
           pq_ok S cmp (topn_fill cmp n q rest) \<and>
           mset (topn_fill cmp n q rest) \<subseteq># mset (seen @ rest) \<and>
           length (topn_fill cmp n q rest) = min n (length (seen @ rest)) \<and>
           low_mset cmp (mset (seen @ rest)) (mset (topn_fill cmp n q rest))"
proof (induction rest arbitrary: q seen)
  case Nil
  then show ?case by simp
next
  case (Cons x rest)
  define q2 where
    "q2 = (if length (pq_push cmp q x) > n then pq_pop cmp (pq_push cmp q x) else pq_push cmp q x)"
  from Cons.prems have seen: "set seen \<subseteq> S" and x: "x \<in> S" by auto
  note st = fill_step [OF lin Cons.prems(1) seen x Cons.prems(3,4,5), folded q2_def]
  from Cons.prems have dd: "set ((seen @ [x]) @ rest) \<subseteq> S" by auto
  from st have a: "pq_ok S cmp q2" "mset q2 \<subseteq># mset (seen @ [x])"
    "length q2 = min n (length (seen @ [x]))" "low_mset cmp (mset (seen @ [x])) (mset q2)"
    by blast+
  from Cons.IH [OF a(1) dd a(2,3,4)] show ?case
    by (simp add: Let_def q2_def)
qed

text \<open>The draining loop appends the queue in descending order.\<close>

lemma topn_drain_spec:
  assumes lin: "strict_linear_on S cmp"
  shows "pq_ok S cmp q \<Longrightarrow>
         \<exists>ds. topn_drain cmp q out = out @ ds \<and> mset ds = mset q \<and>
              sorted_wrt (\<lambda>a b. \<not> cmp a b) ds"
proof (induction "length q" arbitrary: q out)
  case 0
  then show ?case by (subst topn_drain.simps) simp
next
  case (Suc k)
  from Suc.hyps(2) have ne: "q \<noteq> []" by auto
  define t where "t = pq_top q"
  define q' where "q' = pq_pop cmp q"
  from pq_pop_ok [OF lin Suc.prems ne] have ok: "pq_ok S cmp q'"
    and m: "mset q' = mset q - {#t#}" by (simp_all add: q'_def t_def)
  from Suc.hyps(2) have "k = length q'" by (simp add: q'_def)
  from Suc.hyps(1) [OF this ok, of "out @ [t]"]
  obtain ds where ds: "topn_drain cmp q' (out @ [t]) = (out @ [t]) @ ds" "mset ds = mset q'"
    "sorted_wrt (\<lambda>a b. \<not> cmp a b) ds" by blast
  have tq: "t \<in># mset q" using pq_top_in [OF ne] by (simp add: t_def)
  have "topn_drain cmp q out = out @ (t # ds)"
    using ne ds(1) by (subst topn_drain.simps) (simp add: q'_def t_def)
  moreover have "mset (t # ds) = mset q" using ds(2) m tq by simp
  moreover have "sorted_wrt (\<lambda>a b. \<not> cmp a b) (t # ds)"
  proof -
    have "\<not> cmp t y" if "y \<in> set ds" for y
    proof -
      from that have "y \<in># mset q - {#t#}" using ds(2) m by (metis set_mset_mset)
      then have "y \<in> set q" by (metis in_diffD set_mset_mset)
      from pq_top_max [OF lin Suc.prems this] show ?thesis by (simp add: t_def)
    qed
    with ds(3) show ?thesis by simp
  qed
  ultimately show ?case by blast
qed

text \<open>Insertion sort returns a sorted permutation.\<close>

lemma linear_insert_mset: "mset (linear_insert cmp v rs) = add_mset v (mset rs)"
  by (induction rs) simp_all

lemma linear_insert_sorted:
  assumes lin: "strict_linear_on S cmp" and v: "v \<in> S"
  shows "sorted_wrt (\<lambda>a b. \<not> cmp a b) rs \<Longrightarrow> set rs \<subseteq> S \<Longrightarrow>
         sorted_wrt (\<lambda>a b. \<not> cmp a b) (linear_insert cmp v rs)"
proof (induction rs)
  case Nil
  then show ?case by simp
next
  case (Cons e es)
  from Cons.prems have e: "e \<in> S" and es: "set es \<subseteq> S" by auto
  have setl: "set (linear_insert cmp v es) = insert v (set es)"
    using mset_eq_setD [of "linear_insert cmp v es" "v # es"] by (simp add: linear_insert_mset)
  show ?case
  proof (cases "cmp v e")
    case True
    from lin_asym [OF lin v e True] have "\<not> cmp e v" .
    with True Cons setl show ?thesis by auto
  next
    case False
    have "\<not> cmp v y" if "y \<in> set es" for y
    proof -
      from that Cons.prems(1) have "\<not> cmp e y" by auto
      from lin_negtrans [OF lin v e _ False this] that es show ?thesis by blast
    qed
    with False Cons.prems(1) show ?thesis by auto
  qed
qed

lemma insertion_sort_spec:
  assumes lin: "strict_linear_on S cmp"
  shows "sorted_wrt (\<lambda>a b. \<not> cmp b a) sp \<Longrightarrow> set (sp @ xs) \<subseteq> S \<Longrightarrow>
         sorted_wrt (\<lambda>a b. \<not> cmp b a) (insertion_sort cmp sp xs) \<and>
         mset (insertion_sort cmp sp xs) = mset (sp @ xs)"
proof (induction xs arbitrary: sp)
  case Nil
  then show ?case by simp
next
  case (Cons v rest)
  from Cons.prems have v: "v \<in> S" and spS: "set sp \<subseteq> S" by auto
  show ?case
  proof (cases sp)
    case Nil
    with Cons.IH [of "[v]"] Cons.prems show ?thesis by simp
  next
    case (Cons first tl)
    from Cons spS have fS: "first \<in> S" by auto
    show ?thesis
    proof (cases "cmp v first")
      case True
      have "\<not> cmp y v" if "y \<in> set sp" for y
      proof
        assume yv: "cmp y v"
        from that spS have yS: "y \<in> S" by blast
        from lin_trans [OF lin yS v fS yv True] have yf: "cmp y first" .
        show False
        proof (cases "y = first")
          case True
          with yf lin_irrefl [OF lin fS] show False by simp
        next
          case False
          with that Cons \<open>sorted_wrt (\<lambda>a b. \<not> cmp b a) sp\<close> have "\<not> cmp y first" by auto
          with yf show False by simp
        qed
      qed
      with \<open>sorted_wrt (\<lambda>a b. \<not> cmp b a) sp\<close> have s: "sorted_wrt (\<lambda>a b. \<not> cmp b a) (v # sp)"
        by simp
      from Cons.prems(2) have "set ((v # sp) @ rest) \<subseteq> S" by auto
      from Cons.IH [OF s this] True Cons show ?thesis by simp
    next
      case False
      define sp' where "sp' = rev (linear_insert cmp v (rev sp))"
      have m: "mset sp' = add_mset v (mset sp)"
        by (simp add: sp'_def linear_insert_mset)
      from mset_eq_setD [of sp' "v # sp"] m have se: "set sp' = insert v (set sp)" by simp
      have "sorted_wrt (\<lambda>a b. \<not> cmp a b) (linear_insert cmp v (rev sp))"
        using \<open>sorted_wrt (\<lambda>a b. \<not> cmp b a) sp\<close> spS
        by (intro linear_insert_sorted [OF lin v]) (simp_all add: sorted_wrt_rev)
      then have s: "sorted_wrt (\<lambda>a b. \<not> cmp b a) sp'"
        by (simp add: sp'_def sorted_wrt_rev)
      from Cons.prems(2) se have "set (sp' @ rest) \<subseteq> S" by auto
      from Cons.IH [OF s this] False Cons m show ?thesis by (simp add: sp'_def)
    qed
  qed
qed

text \<open>
  Two sorted lists with the same tuples, repetitions counted, are equal; so are two
  collections of one size that hold none above one they leave out.
\<close>

lemma sorted_wrt_mset_unique:
  assumes lin: "strict_linear_on S cmp"
  shows "sorted_wrt (\<lambda>a b. \<not> cmp b a) xs \<Longrightarrow> sorted_wrt (\<lambda>a b. \<not> cmp b a) ys \<Longrightarrow>
         mset xs = mset ys \<Longrightarrow> set xs \<subseteq> S \<Longrightarrow> xs = ys"
proof (induction xs arbitrary: ys)
  case Nil
  then show ?case by simp
next
  case (Cons x xs)
  then obtain y ys' where ys: "ys = y # ys'" by (cases ys) auto
  from Cons.prems(3) have se: "set (x # xs) = set ys" by (rule mset_eq_setD)
  from Cons.prems se ys have xS: "x \<in> S" and yS: "y \<in> S" by auto
  have xy: "x = y"
  proof (rule ccontr)
    assume ne: "x \<noteq> y"
    with se ys have "x \<in> set ys'" "y \<in> set xs" by auto
    with Cons.prems(1,2) ys have "\<not> cmp x y" "\<not> cmp y x" by auto
    with lin_total [OF lin xS yS ne] show False by blast
  qed
  with Cons.prems(3) ys have "mset xs = mset ys'" by simp
  with Cons.IH [of ys'] Cons.prems ys xy show ?case by simp
qed

lemma low_mset_unique:
  assumes lin: "strict_linear_on S cmp" and U: "set_mset U \<subseteq> S"
    and A: "A \<subseteq># U" "low_mset cmp U A" and B: "B \<subseteq># U" "low_mset cmp U B"
    and c: "size A = size B"
  shows "A = B"
proof -
  have "A \<subseteq># B"
  proof (rule ccontr)
    assume "\<not> A \<subseteq># B"
    then obtain x where x: "count B x < count A x"
      by (auto simp: subseteq_mset_def not_le)
    have "\<not> B \<subseteq># A"
    proof
      assume "B \<subseteq># A"
      from mset_subset_size_eq [OF this c [symmetric]] x show False by simp
    qed
    then obtain y where y: "count A y < count B y"
      by (auto simp: subseteq_mset_def not_le)
    from x y have ne: "x \<noteq> y" by auto
    from x have xA: "x \<in># A" by (rule count_less_in)
    from y have yB: "y \<in># B" by (rule count_less_in)
    from A(1) have "count A x \<le> count U x" by (rule mset_subset_eq_count)
    with x have xUB: "x \<in># U - B" by (simp add: in_diff_count)
    from B(1) have "count B y \<le> count U y" by (rule mset_subset_eq_count)
    with y have yUA: "y \<in># U - A" by (simp add: in_diff_count)
    from A(2) yUA xA have "\<not> cmp y x" by (simp add: low_mset_def)
    moreover from B(2) xUB yB have "\<not> cmp x y" by (simp add: low_mset_def)
    moreover from xA A(1) U have "x \<in> S" by (meson mset_subset_eqD subsetD)
    moreover from yB B(1) U have "y \<in> S" by (meson mset_subset_eqD subsetD)
    ultimately show False using lin_total [OF lin _ _ ne] by blast
  qed
  from mset_subset_size_eq [OF this c] show ?thesis .
qed

text \<open>The queue never holds more than \<open>N + 1\<close> tuples.\<close>

lemma topn_sizes_bound:
  "length q \<le> n \<Longrightarrow> s \<in> set (topn_sizes cmp n q rest) \<Longrightarrow> s \<le> n + 1"
proof (induction rest arbitrary: q)
  case Nil
  then show ?case by simp
next
  case (Cons x rest)
  define q2 where
    "q2 = (if length (pq_push cmp q x) > n then pq_pop cmp (pq_push cmp q x) else pq_push cmp q x)"
  have "length q2 \<le> n" using Cons.prems(1) by (simp add: q2_def)
  from Cons.IH [OF this] Cons.prems show ?case
    by (auto simp: Let_def q2_def)
qed

lemma TopN_eq_Sort:
  assumes lin: "strict_linear_on (set child) (tuple_cmp ops order_bys)"
  shows "TopNExecutor_Init ops order_bys n child = take n (SortExecutor_Init ops order_bys child)"
proof -
  define cmp where "cmp = tuple_cmp ops order_bys"
  define S where "S = set child"
  from lin have lin': "strict_linear_on S cmp" by (simp add: cmp_def S_def)
  define r where "r = topn_fill cmp n [] child"
  have "pq_ok S cmp []" by (simp add: pq_ok_def heap_ok_def)
  from topn_fill_inv [OF lin' this, of "[]" child n]
  have r: "pq_ok S cmp r" "mset r \<subseteq># mset child" "length r = min n (length child)"
    "low_mset cmp (mset child) (mset r)"
    by (simp_all add: S_def r_def low_mset_def)
  from topn_drain_spec [OF lin' r(1), of "[]"]
  obtain ds where ds: "topn_drain cmp r [] = ds" "mset ds = mset r"
    "sorted_wrt (\<lambda>a b. \<not> cmp a b) ds" by auto
  have T: "TopNExecutor_Init ops order_bys n child = rev ds"
    by (simp add: TopNExecutor_Init_def ds(1) [symmetric] r_def cmp_def)
  define ss where "ss = std_sort cmp child"
  from insertion_sort_spec [OF lin', of "[]" child]
  have ss: "sorted_wrt (\<lambda>a b. \<not> cmp b a) ss" "mset ss = mset child"
    by (simp_all add: ss_def std_sort_def S_def)
  from mset_eq_setD [OF ss(2)] have sset: "set ss = S" by (simp add: S_def)
  from mset_eq_length [OF ss(2)] have sl: "length ss = length child" .
  define L where "L = take n ss"
  have Ls: "sorted_wrt (\<lambda>a b. \<not> cmp b a) L" using ss(1) by (simp add: L_def sorted_wrt_take)
  have LS: "set L \<subseteq> S" using sset set_take_subset [of n ss] by (simp add: L_def)
  have split: "mset child = mset L + mset (drop n ss)"
    using ss(2) [symmetric] by (simp add: L_def flip: mset_append)
  have "sorted_wrt (\<lambda>a b. \<not> cmp b a) (take n ss @ drop n ss)" using ss(1) by simp
  then have td: "\<forall>x \<in> set (take n ss). \<forall>y \<in> set (drop n ss). \<not> cmp y x"
    unfolding sorted_wrt_append by blast
  have Llow: "low_mset cmp (mset child) (mset L)"
    unfolding low_mset_def split using td by (simp add: L_def)
  have Lsub: "mset L \<subseteq># mset child" unfolding split by simp
  have c: "size (mset r) = size (mset L)" using r(3) sl by (simp add: L_def)
  have U: "set_mset (mset child) \<subseteq> S" by (simp add: S_def)
  from low_mset_unique [OF lin' U r(2,4) Lsub Llow c] have e: "mset r = mset L" .
  have "sorted_wrt (\<lambda>a b. \<not> cmp b a) (rev ds)" using ds(3) by (simp add: sorted_wrt_rev)
  moreover have "mset (rev ds) = mset L" using ds(2) e by simp
  moreover have "set (rev ds) \<subseteq> S" using mset_eq_setD [OF \<open>mset (rev ds) = mset L\<close>] LS by simp
  ultimately have "rev ds = L"
    using sorted_wrt_mset_unique [OF lin' _ Ls] by blast
  with T show ?thesis by (simp add: L_def ss_def SortExecutor_Init_def cmp_def)
qed

lemma int_example_linear:
  "strict_linear_on (set [(3, 30), (1, 10), (3, 30), (2 :: int, 20 :: int)])
     (tuple_cmp int_ops [(ASC, fst)])"
  by (simp add: strict_linear_on_def int_ops_def)

text \<open>
  C8 (as stated, refuted): for the child \<open>[(1, 10), (1, 20)]\<close> ordered by the first column
  and \<open>N = 1\<close>, the two rows tie. Sort keeps them in child order, so its first row is
  \<open>(1, 10)\<close>; TopN pushes both, pops the top of the heap, which is the row pushed first, and
  emits \<open>(1, 20)\<close>.
\<close>

theorem C8_counterexample:
  "TopNExecutor_Init int_ops [(ASC, fst)] 1 [(1, 10), (1 :: int, 20 :: int)] = [(1, 20)] \<and>
   take 1 (SortExecutor_Init int_ops [(ASC, fst)] [(1, 10), (1 :: int, 20 :: int)]) = [(1, 10)]"
  by code_simp

text \<open>
  C8 (amended): for every child sequence and every order-by key list, the queue of TopN
  holds at most \<open>N + 1\<close> tuples after each push; and whenever no two different tuples of
  the child tie (the comparator is a strict linear order on the child's tuples; the
  child may repeat a tuple), the tuples emitted by TopN with limit \<open>N\<close> are the first
  \<open>min N length\<close> tuples emitted by Sort over the same child and keys.
\<close>

theorem C8_TopN_is_Sort_prefix:
  "(\<forall>s \<in> set (TopNExecutor_heap_sizes ops order_bys n child). s \<le> n + 1) \<and>
   (strict_linear_on (set child) (tuple_cmp ops order_bys) \<longrightarrow>
      TopNExecutor_Init ops order_bys n child = take n (SortExecutor_Init ops order_bys child))"
proof (intro conjI impI)
  show "\<forall>s \<in> set (TopNExecutor_heap_sizes ops order_bys n child). s \<le> n + 1"
    unfolding TopNExecutor_heap_sizes_def using topn_sizes_bound [of "[]" n] by fastforce
next
  assume "strict_linear_on (set child) (tuple_cmp ops order_bys)"
  then show "TopNExecutor_Init ops order_bys n child =
      take n (SortExecutor_Init ops order_bys child)"
    by (rule TopN_eq_Sort)
qed

theorem C8_TopN_is_Sort_prefix_witness:
  "strict_linear_on (set [(3, 30), (1, 10), (3, 30), (2 :: int, 20 :: int)])
     (tuple_cmp int_ops [(ASC, fst)]) \<and>
   TopNExecutor_Init int_ops [(ASC, fst)] 3 [(3, 30), (1, 10), (3, 30), (2 :: int, 20 :: int)] =
     take 3 (SortExecutor_Init int_ops [(ASC, fst)] [(3, 30), (1, 10), (3, 30), (2, 20)]) \<and>
   TopNExecutor_Init int_ops [(ASC, fst)] 3 [(3, 30), (1, 10), (3, 30), (2 :: int, 20 :: int)] =
     [(1, 10), (2, 20), (3, 30)] \<and>
   TopNExecutor_heap_sizes int_ops [(ASC, fst)] 3 [(3, 30), (1, 10), (3, 30), (2 :: int, 20 :: int)] =
     [1, 2, 3, 4]"
proof -
  have a: "TopNExecutor_Init int_ops [(ASC, fst)] 3 [(3, 30), (1, 10), (3, 30), (2 :: int, 20 :: int)] =
             [(1, 10), (2, 20), (3, 30)]"
    by code_simp
  have b: "TopNExecutor_heap_sizes int_ops [(ASC, fst)] 3
             [(3, 30), (1, 10), (3, 30), (2 :: int, 20 :: int)] = [1, 2, 3, 4]"
    by code_simp
  from C8_TopN_is_Sort_prefix [of int_ops "[(ASC, fst)]" 3
         "[(3, 30), (1, 10), (3, 30), (2 :: int, 20 :: int)]"] int_example_linear a b
  show ?thesis by simp
qed

subsection \<open>Remove on the example tree\<close>

text \<open>
  C2: the example tree is the result of eighteen insertions into an empty tree and has
  the structural invariant. \<open>Remove 1\<close> on it, called with no latch held and no page
  pinned, returns with every latch released and every pin given back, and afterwards the
  invariant is gone: the first child of the root is page 3, which the call has handed
  to \<^verbatim>\<open>DeletePage\<close>, the entry of page 8 has left the root, and key 13, which
  was never removed, is no longer found. When the leaf of key 1 is merged with its right
  neighbour, its parent, page 3, is left with two children and looks for itself in the
  root by its own first key, 15; the root's entries are \<open>(15, page 3)\<close>, \<open>(7, page 13)\<close>
  and \<open>(13, page 8)\<close>, so the search answers position 2 instead of 0. Page 3 takes
  page 13, its right neighbour, for its left one and latches it, is appended to it, and
  the entry at position 2, that of page 8, is deleted from the root.
\<close>

theorem C2_Remove_breaks_invariant:
  "example_built \<and>
   structural_invariant example_tree \<and>
   GetValue 13 example_tree = Some [130] \<and>
   BPlusTree_Remove 1 (at_rest example_tree) = Some example_after \<and>
   \<not> rm_root_latch example_after \<and> rm_latched example_after = [] \<and>
   rm_pinned example_after = [] \<and> rm_page_set example_after = [] \<and>
   root_page_id (rm_tree example_after) = 9 \<and>
   map_option internal_array (FetchPage (rm_tree example_after) 9) = Some [(15, 3), (7, 13)] \<and>
   FetchPage (rm_tree example_after) 3 = None \<and>
   map_option internal_array (FetchPage (rm_tree example_after) 13) =
     Some [(7, 10), (9, 7), (11, 6), (13, 1), (5, 11)] \<and>
   map_option GetParentPageId (FetchPage (rm_tree example_after) 8) = Some 9 \<and>
   GetValue 13 (rm_tree example_after) = Some [] \<and>
   \<not> structural_invariant (rm_tree example_after)"
proof -
  have "example_built"
    by code_simp
  moreover have "structural_invariant example_tree"
    by code_simp
  moreover have "GetValue 13 example_tree = Some [130]"
    by code_simp
  moreover have "BPlusTree_Remove 1 (at_rest example_tree) \<noteq> None"
    by code_simp
  then have "BPlusTree_Remove 1 (at_rest example_tree) = Some example_after"
    by (auto simp: example_after_def)
  moreover have "\<not> rm_root_latch example_after \<and> rm_latched example_after = [] \<and>
      rm_pinned example_after = [] \<and> rm_page_set example_after = []"
    by code_simp
  moreover have "root_page_id (rm_tree example_after) = 9"
    by code_simp
  moreover have "map_option internal_array (FetchPage (rm_tree example_after) 9) =
      Some [(15, 3), (7, 13)]"
    by code_simp
  moreover have "FetchPage (rm_tree example_after) 3 = None"
    by code_simp
  moreover have "map_option internal_array (FetchPage (rm_tree example_after) 13) =
      Some [(7, 10), (9, 7), (11, 6), (13, 1), (5, 11)]"
    by code_simp
  moreover have "map_option GetParentPageId (FetchPage (rm_tree example_after) 8) = Some 9"
    by code_simp
  moreover have "GetValue 13 (rm_tree example_after) = Some []"
    by code_simp
  moreover have "\<not> structural_invariant (rm_tree example_after)"
    by code_simp
  ultimately show ?thesis
    by blast
qed

section \<open>The B+ tree: insertions keep the search-tree invariant\<close>

lemma lo_lt_imp_le: "lo_lt l k \<Longrightarrow> lo_le l k"
  by (auto simp: lo_lt_def lo_le_def split: option.splits)

lemma lo_le_trans: "lo_le l a \<Longrightarrow> a \<le> b \<Longrightarrow> lo_le l b"
  by (auto simp: lo_le_def split: option.splits)

lemma lo_le_less: "lo_le l a \<Longrightarrow> a < b \<Longrightarrow> lo_lt l b"
  by (auto simp: lo_le_def lo_lt_def split: option.splits)

lemma lo_lt_trans: "lo_lt l a \<Longrightarrow> a \<le> b \<Longrightarrow> lo_lt l b"
  by (auto simp: lo_lt_def split: option.splits)

lemma lt_hi_trans: "a \<le> b \<Longrightarrow> lt_hi b h \<Longrightarrow> lt_hi a h"
  by (auto simp: lt_hi_def split: option.splits)

lemma lo_lt_hi_I: "lo_le l k \<Longrightarrow> lt_hi k h \<Longrightarrow> lo_lt_hi l h"
  by (auto simp: lo_le_def lt_hi_def lo_lt_hi_def split: option.splits)

lemma lo_lt_hi_Some [simp]: "lo_lt_hi l (Some k) = lo_lt l k" "lo_lt_hi (Some k) h = lt_hi k h"
  by (auto simp: lo_lt_def lt_hi_def lo_lt_hi_def split: option.splits)

lemma lo_simps [simp]:
  "lo_le None k" "lo_lt None k" "lt_hi k None" "lo_lt_hi None h" "lo_lt_hi l None"
  "lo_le (Some a) k = (a \<le> k)" "lo_lt (Some a) k = (a < k)" "lt_hi k (Some b) = (k < b)"
  by (auto simp: lo_le_def lo_lt_def lt_hi_def lo_lt_hi_def split: option.splits)

subsection \<open>Entries of an internal page\<close>

lemma kids_ok_nonempty: "kids_ok lo hi l arr h \<Longrightarrow> arr \<noteq> []"
  by auto

lemma kids_ok_Cons:
  "rest \<noteq> [] \<Longrightarrow>
   kids_ok lo hi l (e # rest) h =
     (lo (snd e) = l \<and> hi (snd e) = Some (fst (hd rest)) \<and> lo_lt l (fst (hd rest)) \<and>
      kids_ok lo hi (Some (fst (hd rest))) rest h)"
  by (cases rest) auto

lemma kids_ok_range: "kids_ok lo hi l arr h \<Longrightarrow> lo_lt_hi l h"
proof (induction lo hi l arr h rule: kids_ok.induct)
  case (3 lo hi l e e' rest h)
  then have "lo_lt l (fst e')" "lo_lt_hi (Some (fst e')) h" by auto
  then show ?case by (auto simp: lo_lt_def lt_hi_def lo_lt_hi_def split: option.splits)
qed auto

lemma kids_ok_keys:
  "kids_ok lo hi l arr h \<Longrightarrow> k \<in> fst ` set (tl arr) \<Longrightarrow> lo_lt l k \<and> lt_hi k h"
proof (induction lo hi l arr h rule: kids_ok.induct)
  case (3 lo hi l e e' rest h)
  from 3(2) have a: "lo_lt l (fst e')" and b: "kids_ok lo hi (Some (fst e')) (e' # rest) h" by auto
  from kids_ok_range [OF b] have c: "lt_hi (fst e') h" by simp
  show ?case
  proof (cases "k = fst e'")
    case True
    with a c show ?thesis by simp
  next
    case False
    with 3(3) have "k \<in> fst ` set (tl (e' # rest))" by auto
    from 3(1) [OF b this] have "fst e' < k" "lt_hi k h" by auto
    with a show ?thesis by (auto intro: lo_lt_trans)
  qed
qed auto

lemma kids_ok_sorted: "kids_ok lo hi l arr h \<Longrightarrow> sorted_wrt (<) (map fst (tl arr))"
proof (induction lo hi l arr h rule: kids_ok.induct)
  case (3 lo hi l e e' rest h)
  from 3(2) have b: "kids_ok lo hi (Some (fst e')) (e' # rest) h" by auto
  from kids_ok_keys [OF b] have "\<forall>k \<in> fst ` set rest. fst e' < k" by auto
  with 3(1) [OF b] show ?case by auto
qed auto

lemma kids_ok_append:
  "xs \<noteq> [] \<Longrightarrow> ys \<noteq> [] \<Longrightarrow>
   kids_ok lo hi l (xs @ ys) h =
     (kids_ok lo hi l xs (Some (fst (hd ys))) \<and> kids_ok lo hi (Some (fst (hd ys))) ys h)"
proof (induction lo hi l xs h rule: kids_ok.induct)
  case (2 lo hi l e h)
  then show ?case by (cases ys) auto
next
  case (3 lo hi l e e' rest h)
  then show ?case by auto
qed auto

lemma kids_ok_cong:
  "(\<And>c. c \<in> snd ` set arr \<Longrightarrow> lo c = lo' c \<and> hi c = hi' c) \<Longrightarrow>
   kids_ok lo hi l arr h = kids_ok lo' hi' l arr h"
proof (induction lo hi l arr h rule: kids_ok.induct)
  case (3 lo hi l e e' rest h)
  have "kids_ok lo hi (Some (fst e')) (e' # rest) h = kids_ok lo' hi' (Some (fst e')) (e' # rest) h"
    by (rule 3(1)) (use 3(2) in auto)
  moreover from 3(2) [of "snd e"] have "lo (snd e) = lo' (snd e)" "hi (snd e) = hi' (snd e)" by auto
  ultimately show ?case by simp
qed auto

lemma kids_ok_nth:
  "kids_ok lo hi l arr h \<Longrightarrow> i < length arr \<Longrightarrow>
   lo (snd (arr ! i)) = (if i = 0 then l else Some (fst (arr ! i))) \<and>
   hi (snd (arr ! i)) = (if Suc i = length arr then h else Some (fst (arr ! Suc i)))"
proof (induction lo hi l arr h arbitrary: i rule: kids_ok.induct)
  case (3 lo hi l e e' rest h)
  show ?case
  proof (cases i)
    case 0
    with 3(2) show ?thesis by auto
  next
    case (Suc j)
    from 3(2) have b: "kids_ok lo hi (Some (fst e')) (e' # rest) h" by auto
    from 3(3) Suc have "j < length (e' # rest)" by simp
    from 3(1) [OF b this] Suc show ?thesis by (cases j) auto
  qed
qed auto

lemma kids_ok_lo_head:
  "kids_ok lo hi l arr h \<Longrightarrow> c \<in> snd ` set (tl arr) \<Longrightarrow> \<exists>k. lo c = Some k \<and> lo_lt l k"
proof (induction arr arbitrary: l rule: induct_list012)
  case (3 e e' rest)
  from 3(3) have a: "lo_lt l (fst e')" "lo (snd e') = Some (fst e')"
    and b: "kids_ok lo hi (Some (fst e')) (e' # rest) h" by (cases rest; auto)+
  show ?case
  proof (cases "c = snd e'")
    case True
    with a show ?thesis by simp
  next
    case False
    with 3(4) have "c \<in> snd ` set (tl (e' # rest))" by auto
    from 3(2) [OF b this] obtain k where "lo c = Some k" "fst e' < k" by auto
    with a(1) show ?thesis by (auto intro: lo_lt_trans)
  qed
qed auto

lemma kids_ok_distinct: "kids_ok lo hi l arr h \<Longrightarrow> distinct (map snd arr)"
proof (induction arr arbitrary: l rule: induct_list012)
  case (3 e e' rest)
  from 3(3) have a: "lo (snd e) = l" and b: "kids_ok lo hi (Some (fst e')) (e' # rest) h"
    by auto
  have "snd e \<notin> snd ` set (e' # rest)"
  proof
    assume "snd e \<in> snd ` set (e' # rest)"
    then have "snd e \<in> snd ` set (tl (e # e' # rest))" by simp
    from kids_ok_lo_head [OF 3(3) this] a show False
      by (auto simp: lo_lt_def split: option.splits)
  qed
  with 3(2) [OF b] show ?case by simp
qed auto

subsection \<open>Putting an entry behind a child\<close>

lemma ins_after_absent [simp]: "p \<notin> snd ` set arr \<Longrightarrow> ins_after p e arr = arr"
  by (induction arr) auto

lemma set_ins_after:
  "p \<in> snd ` set arr \<Longrightarrow> set (ins_after p e arr) = insert e (set arr)"
  by (induction arr) auto

lemma length_ins_after:
  "p \<in> snd ` set arr \<Longrightarrow> length (ins_after p e arr) = Suc (length arr)"
  by (induction arr) auto

lemma ins_after_nth:
  "distinct (map snd arr) \<Longrightarrow> i < length arr \<Longrightarrow> snd (arr ! i) = p \<Longrightarrow>
   ins_after p e arr = take (Suc i) arr @ e # drop (Suc i) arr"
proof (induction arr arbitrary: i)
  case Nil
  then show ?case by simp
next
  case (Cons x xs)
  show ?case
  proof (cases i)
    case 0
    with Cons.prems show ?thesis by simp
  next
    case (Suc j)
    with Cons.prems have "snd (xs ! j) \<in> snd ` set xs" by (intro imageI nth_mem) simp
    with Cons.prems Suc have "snd x \<noteq> p" by auto
    with Cons.IH [of j] Cons.prems Suc show ?thesis by simp
  qed
qed

lemma set_ins_after_subset: "set (ins_after p e arr) \<subseteq> insert e (set arr)"
  by (induction arr) auto

lemma distinct_ins_after:
  "distinct (map snd arr) \<Longrightarrow> snd e \<notin> snd ` set arr \<Longrightarrow> distinct (map snd (ins_after p e arr))"
proof (induction arr)
  case Nil
  then show ?case by simp
next
  case (Cons x xs)
  from set_ins_after_subset [of p e xs] have "snd ` set (ins_after p e xs) \<subseteq> insert (snd e) (snd ` set xs)"
    by auto
  with Cons show ?case by auto
qed

lemma ins_after_nonempty: "xs \<noteq> [] \<Longrightarrow> ins_after p e xs \<noteq> [] \<and> hd (ins_after p e xs) = hd xs"
  by (cases xs) auto

lemma kids_ok_ins_after:
  assumes lo': "lo' = lo(q := Some m)" and hi': "hi' = hi(p := Some m, q := hi p)"
    and m: "lo_lt (lo p) m" "lt_hi m (hi p)"
  shows "kids_ok lo hi l arr h \<Longrightarrow> distinct (map snd arr) \<Longrightarrow> p \<in> snd ` set arr \<Longrightarrow>
         q \<notin> snd ` set arr \<Longrightarrow> kids_ok lo' hi' l (ins_after p (m, q) arr) h"
proof (induction arr arbitrary: l rule: induct_list012)
  case 1
  then show ?case by simp
next
  case (2 e)
  then have "snd e = p" "q \<noteq> p" by auto
  with 2 m show ?case by (auto simp: lo' hi')
next
  case (3 e e' rest)
  from 3(3) have b: "kids_ok lo hi (Some (fst e')) (e' # rest) h" by auto
  show ?case
  proof (cases "snd e = p")
    case True
    with 3(4) have "p \<notin> snd ` set (e' # rest)" by auto
    moreover from 3(6) have "q \<notin> snd ` set (e' # rest)" by auto
    ultimately have "kids_ok lo' hi' (Some (fst e')) (e' # rest) h
        = kids_ok lo hi (Some (fst e')) (e' # rest) h"
      unfolding lo' hi' by (intro kids_ok_cong) auto
    with b have c: "kids_ok lo' hi' (Some (fst e')) (e' # rest) h" by simp
    from True 3(6) have qp: "q \<noteq> p" by auto
    from 3(3) True have "hi p = Some (fst e')" "lo p = l" by auto
    with m have "lo_lt l m" "m < fst e'" by auto
    moreover have "lo' p = lo p" "hi' p = Some m" "lo' q = Some m" "hi' q = hi p"
      using qp by (auto simp: lo' hi')
    ultimately show ?thesis using True c \<open>hi p = Some (fst e')\<close> \<open>lo p = l\<close> by simp
  next
    case False
    with 3(5) have p: "p \<in> snd ` set (e' # rest)" by auto
    from 3(4) have d: "distinct (map snd (e' # rest))" by simp
    from 3(6) have q: "q \<notin> snd ` set (e' # rest)" "q \<noteq> snd e" by auto
    note ih = 3(2) [OF b d p q(1)]
    from ins_after_nonempty [of "e' # rest" p "(m, q)"]
    have ne: "ins_after p (m, q) (e' # rest) \<noteq> []" "hd (ins_after p (m, q) (e' # rest)) = e'"
      by simp_all
    have "lo' (snd e) = lo (snd e)" "hi' (snd e) = hi (snd e)"
      using False q(2) by (auto simp: lo' hi')
    moreover have "ins_after p (m, q) (e # e' # rest) = e # ins_after p (m, q) (e' # rest)"
      using False by simp
    ultimately show ?thesis using ih 3(3) ne by (simp only: kids_ok_Cons [OF ne(1)]) simp
  qed
qed

subsection \<open>The chain of leaves\<close>

lemma chain_ins_absent [simp]: "p \<notin> set c \<Longrightarrow> chain_ins p q c = c"
  by (induction c) auto

lemma set_chain_ins: "p \<in> set c \<Longrightarrow> set (chain_ins p q c) = insert q (set c)"
  by (induction c) auto

lemma set_chain_ins_subset: "set (chain_ins p q c) \<subseteq> insert q (set c)"
  by (induction c) auto

lemma distinct_chain_ins: "distinct c \<Longrightarrow> q \<notin> set c \<Longrightarrow> distinct (chain_ins p q c)"
proof (induction c)
  case Nil
  then show ?case by simp
next
  case (Cons x xs)
  with set_chain_ins_subset [of p q xs] show ?case by auto
qed

lemma hd_chain_ins: "c \<noteq> [] \<Longrightarrow> hd (chain_ins p q c) = hd c"
  by (cases c) auto

subsection \<open>The binary search\<close>

lemma comparator_le [simp]: "(comparator a b \<noteq> 1) = (a \<le> b)"
  by (auto simp: comparator_def)

lemma comparator_eq [simp]: "(comparator a b = 0) = (a = b)"
  by (auto simp: comparator_def)

lemma comparator_less [simp]: "(comparator a b = - 1) = (a < b)"
  by (auto simp: comparator_def)

lemma KeyAt_Some:
  "i < GetSize page \<Longrightarrow> GetSize page \<le> GetMaxSize page \<Longrightarrow>
   KeyAt page (int i) = Some (keys_of page ! i)"
  by (simp add: KeyAt_def in_range_def)

lemma GetPos_loop_spec:
  shows "GetSize page \<le> GetMaxSize page \<Longrightarrow> l \<le> r \<Longrightarrow> r \<le> GetSize page \<Longrightarrow>
         (\<forall>i j. l \<le> i \<and> i \<le> j \<and> j < r \<longrightarrow> keys_of page ! i \<le> keys_of page ! j) \<Longrightarrow>
         \<exists>p. GetPos_loop page key l r = Some p \<and> l \<le> p \<and> p \<le> r \<and>
             (\<forall>i. l \<le> i \<and> i < p \<longrightarrow> keys_of page ! i \<le> key) \<and>
             (\<forall>i. p \<le> i \<and> i < r \<longrightarrow> key < keys_of page ! i)"
proof (induction page key l r rule: GetPos_loop.induct)
  case (1 page key l r)
  note sz = 1(3) and lr = 1(4) and rs = 1(5) and srt = 1(6)
  show ?case
  proof (cases "l < r")
    case False
    with lr show ?thesis by (subst GetPos_loop.simps) auto
  next
    case True
    define mid where "mid = (l + r) div 2"
    from True have mid: "l \<le> mid" "mid < r" by (auto simp: mid_def)
    with rs have "mid < GetSize page" by simp
    from KeyAt_Some [OF this sz] have k: "KeyAt page (int mid) = Some (keys_of page ! mid)" .
    show ?thesis
    proof (cases "keys_of page ! mid \<le> key")
      case le: True
      have s: "\<forall>i j. mid + 1 \<le> i \<and> i \<le> j \<and> j < r \<longrightarrow> keys_of page ! i \<le> keys_of page ! j"
        using srt mid by auto
      have c: "comparator (keys_of page ! mid) key \<noteq> 1" using le by simp
      from mid have "mid + 1 \<le> r" by simp
      from 1(1) [OF True k [unfolded mid_def] c [unfolded mid_def] sz this [unfolded mid_def] rs
          s [unfolded mid_def]]
      obtain p where p: "GetPos_loop page key (mid + 1) r = Some p" "mid + 1 \<le> p" "p \<le> r"
        "\<forall>i. mid + 1 \<le> i \<and> i < p \<longrightarrow> keys_of page ! i \<le> key"
        "\<forall>i. p \<le> i \<and> i < r \<longrightarrow> key < keys_of page ! i"
        by (auto simp: mid_def)
      have "keys_of page ! i \<le> key" if "l \<le> i" "i < p" for i
      proof (cases "i \<le> mid")
        case True
        with srt that mid have "keys_of page ! i \<le> keys_of page ! mid" by auto
        with le show ?thesis by simp
      next
        case False
        with p(4) that show ?thesis by auto
      qed
      moreover have "GetPos_loop page key l r = Some p"
        using True k le p(1) by (subst GetPos_loop.simps) (simp add: mid_def)
      ultimately show ?thesis using p mid by auto
    next
      case gt: False
      have s: "\<forall>i j. l \<le> i \<and> i \<le> j \<and> j < mid \<longrightarrow> keys_of page ! i \<le> keys_of page ! j"
        using srt mid by auto
      have c: "\<not> comparator (keys_of page ! mid) key \<noteq> 1" using gt by simp
      from mid rs have "mid \<le> GetSize page" by simp
      from 1(2) [OF True k [unfolded mid_def] c [unfolded mid_def] sz mid(1) [unfolded mid_def]
          this [unfolded mid_def] s [unfolded mid_def]]
      obtain p where p: "GetPos_loop page key l mid = Some p" "l \<le> p" "p \<le> mid"
        "\<forall>i. l \<le> i \<and> i < p \<longrightarrow> keys_of page ! i \<le> key"
        "\<forall>i. p \<le> i \<and> i < mid \<longrightarrow> key < keys_of page ! i"
        by (auto simp: mid_def)
      have "key < keys_of page ! i" if "p \<le> i" "i < r" for i
      proof (cases "i < mid")
        case True
        with p(5) that show ?thesis by auto
      next
        case False
        with srt that mid have "keys_of page ! mid \<le> keys_of page ! i" by auto
        with gt show ?thesis by simp
      qed
      moreover have "GetPos_loop page key l r = Some p"
        using True k gt p(1) by (subst GetPos_loop.simps) (simp add: mid_def)
      ultimately show ?thesis using p mid by auto
    qed
  qed
qed

lemma sorted_tl_nth:
  assumes "sorted_wrt (<) (map fst (tl arr))" and "1 \<le> i" "i < j" "j < length arr"
  shows "fst (arr ! i) < fst (arr ! j)"
proof -
  from assms obtain x xs where arr: "arr = x # xs" by (cases arr) auto
  with assms have "sorted_wrt (<) (map fst xs)" "i - 1 < j - 1" "j - 1 < length xs" by auto
  from sorted_wrt_nth_less [OF this(1), of "i - 1" "j - 1"] this(2,3)
  have "map fst xs ! (i - 1) < map fst xs ! (j - 1)" by simp
  with assms arr show ?thesis by (cases i; cases j) auto
qed

lemma slot_of_unique:
  assumes s: "sorted_wrt (<) (map fst (tl arr))" and i: "slot_of arr key i" and j: "slot_of arr key j"
  shows "i = j"
proof -
  have aux: False if a: "slot_of arr key a" and b: "slot_of arr key b" and lt: "a < b" for a b
  proof -
    from b lt have kb: "fst (arr ! b) \<le> key" and bl: "b < length arr" by (auto simp: slot_of_def)
    from a lt bl have ka: "key < fst (arr ! Suc a)" by (auto simp: slot_of_def)
    show False
    proof (cases "Suc a = b")
      case True
      with ka kb show False by simp
    next
      case False
      with lt have "Suc a < b" by simp
      from sorted_tl_nth [OF s _ this bl] ka kb show False by simp
    qed
  qed
  from aux [OF i j] aux [OF j i] show ?thesis by (cases i j rule: linorder_cases) auto
qed

lemma GetPosOnInternalPage_slot:
  assumes "length arr \<le> mx" "1 \<le> length arr" "sorted_wrt (<) (map fst (tl arr))"
  shows "\<exists>i. GetPosOnInternalPage (InternalPage pid par mx arr) key = Some (int i) \<and>
             slot_of arr key i"
proof -
  let ?page = "InternalPage pid par mx arr :: ('a, 'b) BPlusTreePage"
  have sz: "GetSize ?page \<le> GetMaxSize ?page" using assms by simp
  have srt: "\<forall>i j. 1 \<le> i \<and> i \<le> j \<and> j < GetSize ?page \<longrightarrow> keys_of ?page ! i \<le> keys_of ?page ! j"
  proof (intro allI impI)
    fix i j assume a: "1 \<le> i \<and> i \<le> j \<and> j < GetSize ?page"
    show "keys_of ?page ! i \<le> keys_of ?page ! j"
    proof (cases "i = j")
      case True
      then show ?thesis by simp
    next
      case False
      with a sorted_tl_nth [OF assms(3), of i j] show ?thesis by (auto simp: less_imp_le)
    qed
  qed
  from GetPos_loop_spec [OF sz _ _ srt, of key] assms(2)
  obtain p where p: "GetPos_loop ?page key 1 (GetSize ?page) = Some p" "1 \<le> p" "p \<le> length arr"
    "\<forall>i. 1 \<le> i \<and> i < p \<longrightarrow> keys_of ?page ! i \<le> key"
    "\<forall>i. p \<le> i \<and> i < GetSize ?page \<longrightarrow> key < keys_of ?page ! i"
    by auto
  have "GetPosOnInternalPage ?page key = Some (int (p - 1))"
    using p(1,2) by (simp add: GetPosOnInternalPage_def of_nat_diff)
  moreover have "slot_of arr key (p - 1)"
  proof -
    have "p - 1 = 0 \<or> fst (arr ! (p - 1)) \<le> key"
    proof (cases "p - 1 = 0")
      case False
      with p(3) p(4) [rule_format, of "p - 1"] show ?thesis by auto
    qed simp
    moreover have "Suc (p - 1) = length arr \<or> key < fst (arr ! Suc (p - 1))"
    proof (cases "p = length arr")
      case False
      with p(2,3) p(5) [rule_format, of p] show ?thesis by auto
    qed (use p(2) in arith)
    ultimately show ?thesis using p(2,3) by (auto simp: slot_of_def)
  qed
  ultimately show ?thesis by blast
qed

text \<open>The position of a key in a leaf page.\<close>

lemma GetPosOnLeafPage_spec:
  assumes "length arr \<le> mx" "sorted_wrt (<) (map fst arr)"
  shows "\<exists>p. GetPosOnLeafPage (LeafPage pid par mx nx arr) key = Some (int p - 1) \<and>
             p \<le> length arr \<and> (\<forall>i < p. fst (arr ! i) \<le> key) \<and>
             (\<forall>i. p \<le> i \<and> i < length arr \<longrightarrow> key < fst (arr ! i))"
proof -
  let ?page = "LeafPage pid par mx nx arr :: ('a, 'b) BPlusTreePage"
  have sz: "GetSize ?page \<le> GetMaxSize ?page" using assms by simp
  have srt: "\<forall>i j. 0 \<le> i \<and> i \<le> j \<and> j < GetSize ?page \<longrightarrow> keys_of ?page ! i \<le> keys_of ?page ! j"
  proof (intro allI impI)
    fix i j assume a: "0 \<le> i \<and> i \<le> j \<and> j < GetSize ?page"
    show "keys_of ?page ! i \<le> keys_of ?page ! j"
    proof (cases "i = j")
      case True
      then show ?thesis by simp
    next
      case False
      with a have "i < j" "j < length (map fst arr)" by auto
      with sorted_wrt_nth_less [OF assms(2)] have "map fst arr ! i < map fst arr ! j" by blast
      then show ?thesis by simp
    qed
  qed
  from GetPos_loop_spec [OF sz _ _ srt, of key]
  obtain p where p: "GetPos_loop ?page key 0 (GetSize ?page) = Some p" "p \<le> GetSize ?page"
    "\<forall>i. 0 \<le> i \<and> i < p \<longrightarrow> keys_of ?page ! i \<le> key"
    "\<forall>i. p \<le> i \<and> i < GetSize ?page \<longrightarrow> key < keys_of ?page ! i"
    by auto
  have "GetPosOnLeafPage ?page key = Some (int p - 1)"
    using p(1) by (simp add: GetPosOnLeafPage_def)
  moreover have "\<forall>i < p. fst (arr ! i) \<le> key" using p(2,3) by auto
  moreover have "\<forall>i. p \<le> i \<and> i < length arr \<longrightarrow> key < fst (arr ! i)" using p(4) by auto
  ultimately show ?thesis using p(2) by auto
qed

lemma array_Insert_sorted:
  assumes "sorted_wrt (<) (map fst arr)" "p \<le> length arr"
    and "\<forall>i < p. fst (arr ! i) < (key :: 'k :: linorder)"
    and "\<forall>i. p \<le> i \<and> i < length arr \<longrightarrow> key < fst (arr ! i)"
  shows "sorted_wrt (<) (map fst (array_Insert p (key, v) arr))"
proof -
  have a: "\<forall>x \<in> set (take p arr). fst x < key"
  proof
    fix x assume "x \<in> set (take p arr)"
    then obtain i where "i < length (take p arr)" "x = take p arr ! i"
      by (auto simp: in_set_conv_nth)
    with assms(2,3) show "fst x < key" by auto
  qed
  have b: "\<forall>x \<in> set (drop p arr). key < fst x"
  proof
    fix x assume "x \<in> set (drop p arr)"
    then obtain i where "i < length (drop p arr)" "x = drop p arr ! i"
      by (auto simp: in_set_conv_nth)
    with assms(2,4) show "key < fst x" by auto
  qed
  from assms(1) have "sorted_wrt (<) (map fst (take p arr @ drop p arr))" by simp
  then have c: "sorted_wrt (<) (map fst (take p arr))" "sorted_wrt (<) (map fst (drop p arr))"
    unfolding map_append sorted_wrt_append by auto
  have "fst x < fst y" if "x \<in> set (take p arr)" "y \<in> set (drop p arr)" for x y
  proof -
    from a b that have "fst x < key" "key < fst y" by auto
    then show ?thesis by simp
  qed
  then have "\<forall>x \<in> set (take p arr). \<forall>y \<in> set (drop p arr). fst x < fst y" by blast
  with a b c show ?thesis
    by (auto simp: array_Insert_def sorted_wrt_append)
qed

lemma set_array_Insert [simp]:
  "p \<le> length arr \<Longrightarrow> set (array_Insert p e arr) = insert e (set arr)"
proof -
  have "set (take p arr) \<union> set (drop p arr) = set arr"
    by (metis append_take_drop_id set_append)
  then show ?thesis unfolding array_Insert_def by auto
qed

lemma length_array_Insert [simp]: "p \<le> length arr \<Longrightarrow> length (array_Insert p e arr) = Suc (length arr)"
  by (simp add: array_Insert_def)

subsection \<open>Reading the invariant\<close>

lemma page_ok_leaf:
  "page_ok t G V p (LeafPage pid par mx nx arr) =
     (pid = p \<and> mx = leaf_max_size t \<and> arr \<noteq> [] \<and>
      length arr < mx \<and> sorted_wrt (<) (map fst arr) \<and>
      (\<forall>k \<in> fst ` set arr. lo_le (g_lo G p) k \<and> lt_hi k (g_hi G p)) \<and> g_ht G p = 0)"
  by (simp add: page_ok_def)

lemma page_ok_internal:
  "page_ok t G V p (InternalPage pid par mx arr) =
     (pid = p \<and> mx = internal_max_size t \<and> 2 \<le> length arr \<and> length arr \<le> mx \<and>
      kids_ok (g_lo G) (g_hi G) (g_lo G p) (V p arr) (g_hi G p) \<and>
      (\<forall>c \<in> snd ` set (V p arr).
         \<exists>cn. tree_pages t c = Some cn \<and> GetParentPageId cn = p \<and> Suc (g_ht G c) = g_ht G p))"
  by (simp add: page_ok_def)

lemma inv_page: "inv_gen t G V E \<Longrightarrow> tree_pages t p = Some n \<Longrightarrow> page_ok t G V p n"
  by (simp add: inv_gen_def)

lemma inv_link: "inv_gen t G V E \<Longrightarrow> tree_pages t p = Some n \<Longrightarrow> p \<notin> E \<Longrightarrow> link_ok t G V p n"
  by (simp add: inv_gen_def)

lemma inv_chain: "inv_gen t G V E \<Longrightarrow> leaf_chain_ok t G"
  by (simp add: inv_gen_def)

lemma leaf_height: "page_ok t G V p n \<Longrightarrow> IsLeafPage n = (g_ht G p = 0)"
proof (cases n)
  case (LeafPage pid par mx nx arr)
  then show "page_ok t G V p n \<Longrightarrow> ?thesis" by (simp add: page_ok_leaf)
next
  case (InternalPage pid par mx arr)
  assume ok: "page_ok t G V p n"
  with InternalPage have k: "kids_ok (g_lo G) (g_hi G) (g_lo G p) (V p arr) (g_hi G p)"
    and c: "\<forall>c \<in> snd ` set (V p arr). Suc (g_ht G c) = g_ht G p"
    by (auto simp: page_ok_internal)
  from kids_ok_nonempty [OF k] obtain e where "e \<in> set (V p arr)" by (cases "V p arr") auto
  with c have "g_ht G p \<noteq> 0" by force
  with InternalPage show ?thesis by simp
qed

subsection \<open>The descent to a leaf\<close>

lemma Internal_ValueAt_nth:
  "i < length arr \<Longrightarrow> length arr \<le> mx \<Longrightarrow>
   Internal_ValueAt (InternalPage pid par mx arr) (int i) = Some (snd (arr ! i))"
  by (simp add: Internal_ValueAt_def in_range_def)

lemma FindLeaf_loop_ok:
  assumes inv: "tree_inv t G"
  shows "tree_pages t p = Some n \<Longrightarrow> lo_le (g_lo G p) key \<Longrightarrow> lt_hi key (g_hi G p) \<Longrightarrow>
         \<exists>l ln. FindLeaf_loop t key p = Some l \<and> tree_pages t l = Some ln \<and> IsLeafPage ln \<and>
                lo_le (g_lo G l) key \<and> lt_hi key (g_hi G l)"
proof (induction "g_ht G p" arbitrary: p n)
  case 0
  from inv 0(2) have ok: "page_ok t G (\<lambda>p arr. arr) p n" by (simp add: tree_inv_def inv_page)
  from leaf_height [OF ok] 0(1) have "IsLeafPage n" by simp
  with 0 show ?case by (subst FindLeaf_loop.simps) (simp add: FetchPage_def)
next
  case (Suc h)
  from inv Suc(3) have ok: "page_ok t G (\<lambda>p arr. arr) p n" by (simp add: tree_inv_def inv_page)
  from leaf_height [OF ok] Suc(2) have nl: "\<not> IsLeafPage n" by simp
  then obtain pid par mx arr where n: "n = InternalPage pid par mx arr" by (cases n) auto
  from ok n have len: "2 \<le> length arr" "length arr \<le> mx"
    and k: "kids_ok (g_lo G) (g_hi G) (g_lo G p) arr (g_hi G p)"
    and c: "\<forall>c \<in> snd ` set arr. \<exists>cn. tree_pages t c = Some cn \<and> Suc (g_ht G c) = g_ht G p"
    by (auto simp: page_ok_internal)
  from GetPosOnInternalPage_slot [OF len(2) _ kids_ok_sorted [OF k], of pid par key] len(1)
  obtain i where i: "GetPosOnInternalPage n key = Some (int i)" "slot_of arr key i"
    by (auto simp: n)
  then have il: "i < length arr" by (simp add: slot_of_def)
  define ch where "ch = snd (arr ! i)"
  from il have "ch \<in> snd ` set arr" by (auto simp: ch_def)
  with c Suc(2) obtain cn where cn: "tree_pages t ch = Some cn" "h = g_ht G ch" by force
  from kids_ok_nth [OF k il]
  have r: "g_lo G ch = (if i = 0 then g_lo G p else Some (fst (arr ! i)))"
    "g_hi G ch = (if Suc i = length arr then g_hi G p else Some (fst (arr ! Suc i)))"
    by (simp_all add: ch_def)
  from i(2) Suc(4,5) r have "lo_le (g_lo G ch) key" "lt_hi key (g_hi G ch)"
    by (auto simp: slot_of_def)
  from Suc(1) [OF cn(2) cn(1) this]
  obtain l ln where l: "FindLeaf_loop t key ch = Some l" "tree_pages t l = Some ln" "IsLeafPage ln"
    "lo_le (g_lo G l) key" "lt_hi key (g_hi G l)" by blast
  have "FindLeaf_loop t key p = Some l"
    using Suc(3) n i(1) il len(2) l(1)
    by (subst FindLeaf_loop.simps) (simp add: FetchPage_def Internal_ValueAt_nth ch_def)
  with l show ?case by blast
qed

lemma inv_root:
  assumes inv: "tree_inv t G"
  shows "\<exists>n. tree_pages t (root_page_id t) = Some n \<and> g_lo G (root_page_id t) = None \<and>
             g_hi G (root_page_id t) = None \<and> GetParentPageId n = INVALID_PAGE_ID"
proof -
  from inv obtain n where n: "tree_pages t (root_page_id t) = Some n"
    by (auto simp: tree_inv_def inv_gen_def)
  from inv n have "link_ok t G (\<lambda>p arr. arr) (root_page_id t) n"
    by (simp add: tree_inv_def inv_link)
  with n show ?thesis by (auto simp: link_ok_def)
qed

lemma FindLeaf_ok:
  assumes inv: "tree_inv t G"
  shows "\<exists>l ln. FindLeaf key t = Some l \<and> tree_pages t l = Some ln \<and> IsLeafPage ln \<and>
                lo_le (g_lo G l) key \<and> lt_hi key (g_hi G l)"
proof -
  from inv_root [OF inv] obtain n where "tree_pages t (root_page_id t) = Some n"
    "g_lo G (root_page_id t) = None" "g_hi G (root_page_id t) = None" by blast
  with FindLeaf_loop_ok [OF inv this(1), of key] show ?thesis by (simp add: FindLeaf_def)
qed

subsection \<open>The scan\<close>

lemma Begin_loop_ok:
  assumes inv: "tree_inv t G"
  shows "tree_pages t p = Some n \<Longrightarrow> g_lo G p = None \<Longrightarrow>
         \<exists>l ln. Begin_loop t p = Some l \<and> tree_pages t l = Some ln \<and> IsLeafPage ln \<and>
                g_lo G l = None"
proof (induction "g_ht G p" arbitrary: p n)
  case 0
  from inv 0(2) have ok: "page_ok t G (\<lambda>p arr. arr) p n" by (simp add: tree_inv_def inv_page)
  from leaf_height [OF ok] 0(1) have "IsLeafPage n" by simp
  with 0 show ?case by (subst Begin_loop.simps) (simp add: FetchPage_def)
next
  case (Suc h)
  from inv Suc(3) have ok: "page_ok t G (\<lambda>p arr. arr) p n" by (simp add: tree_inv_def inv_page)
  from leaf_height [OF ok] Suc(2) have nl: "\<not> IsLeafPage n" by simp
  then obtain pid par mx arr where n: "n = InternalPage pid par mx arr" by (cases n) auto
  from ok n have len: "2 \<le> length arr" "length arr \<le> mx"
    and k: "kids_ok (g_lo G) (g_hi G) (g_lo G p) arr (g_hi G p)"
    and c: "\<forall>c \<in> snd ` set arr. \<exists>cn. tree_pages t c = Some cn \<and> Suc (g_ht G c) = g_ht G p"
    by (auto simp: page_ok_internal)
  define ch where "ch = snd (arr ! 0)"
  from len have il: "0 < length arr" by linarith
  then have "ch \<in> snd ` set arr" by (auto simp: ch_def)
  with c Suc(2) obtain cn where cn: "tree_pages t ch = Some cn" "h = g_ht G ch" by force
  from kids_ok_nth [OF k il] Suc(4) have "g_lo G ch = None" by (simp add: ch_def)
  from Suc(1) [OF cn(2) cn(1) this]
  obtain l ln where l: "Begin_loop t ch = Some l" "tree_pages t l = Some ln" "IsLeafPage ln"
    "g_lo G l = None" by blast
  from len have "0 < mx" by linarith
  then have v: "Internal_ValueAt n 0 = Some ch"
    using il by (simp add: n Internal_ValueAt_def in_range_def ch_def)
  have "Begin_loop t p = Some l"
    using Suc(3) nl il v l(1)
    by (subst Begin_loop.simps) (simp add: FetchPage_def n)
  with l show ?case by blast
qed

lemma chain_from_lo: "chain_from t G (p # rest) \<Longrightarrow> x \<in> set rest \<Longrightarrow> g_lo G x \<noteq> None"
proof (induction rest arbitrary: p)
  case Nil
  then show ?case by simp
next
  case (Cons p' rest)
  then show ?case by (cases "x = p'") auto
qed

lemma Begin_ok:
  assumes inv: "tree_inv t G"
  shows "BPlusTree_Begin t = Some (Some (hd (g_chain G)), 0)"
proof -
  from inv_root [OF inv] obtain n where n: "tree_pages t (root_page_id t) = Some n"
    "g_lo G (root_page_id t) = None" "GetParentPageId n = INVALID_PAGE_ID" by blast
  from inv have "page_ok t G (\<lambda>p arr. arr) (root_page_id t) n"
    using n(1) by (simp add: tree_inv_def inv_page)
  then have "GetPageId n = root_page_id t" by (simp add: page_ok_def)
  from inv have "\<forall>p \<in> dom (tree_pages t). 0 \<le> p" by (auto simp: tree_inv_def inv_gen_def)
  moreover from n(1) have "root_page_id t \<in> dom (tree_pages t)" by blast
  ultimately have "0 \<le> root_page_id t" by blast
  then have ne: "\<not> IsEmpty t" by (auto simp: IsEmpty_def INVALID_PAGE_ID_def)
  from Begin_loop_ok [OF inv n(1,2)]
  obtain l ln where l: "Begin_loop t (root_page_id t) = Some l" "tree_pages t l = Some ln"
    "IsLeafPage ln" "g_lo G l = None" by blast
  from inv have ch: "leaf_chain_ok t G" by (simp add: tree_inv_def inv_chain)
  with l have "l \<in> set (g_chain G)" by (auto simp: leaf_chain_ok_def)
  moreover from ch have "chain_from t G (g_chain G)" by (simp add: leaf_chain_ok_def)
  ultimately have "l = hd (g_chain G)"
    using chain_from_lo [of t G "hd (g_chain G)" "tl (g_chain G)" l] l(4)
    by (cases "g_chain G") auto
  with l(1) ne show ?thesis by (simp add: BPlusTree_Begin_def)
qed

lemma scan_leaf:
  assumes p: "tree_pages t p = Some (LeafPage pid par mx nx arr)" and len: "length arr < mx"
    and nx: "nx \<noteq> INVALID_PAGE_ID \<longrightarrow> tree_pages t nx \<noteq> None"
  shows "i < length arr \<Longrightarrow>
         scan_loop t (Some p, int i) acc =
           scan_loop t (if nx = INVALID_PAGE_ID then (None, 0) else (Some nx, 0)) (acc @ drop i arr)"
proof (induction "length arr - i" arbitrary: i acc)
  case 0
  then show ?case by simp
next
  case (Suc d)
  have d: "deref t (Some p, int i) = Some (arr ! i)"
    using p len Suc(3) by (simp add: deref_def FetchPage_def KeyAt_def Leaf_ValueAt_def in_range_def)
  show ?case
  proof (cases "Suc i < length arr")
    case True
    have inc: "increment t (Some p, int i) = Some (Some p, int (Suc i))"
      using p True by (simp add: increment_def FetchPage_def)
    from Suc(2) have "d = length arr - Suc i" by simp
    from Suc(1) [OF this True, of "acc @ [arr ! i]"] d inc Suc(3)
    show ?thesis by (subst scan_loop.simps) (simp add: IsEnd_def Cons_nth_drop_Suc)
  next
    case False
    with Suc(3) have last: "drop i arr = [arr ! i]"
      by (metis Cons_nth_drop_Suc drop_all not_less)
    have inc: "increment t (Some p, int i) = Some (if nx = INVALID_PAGE_ID then (None, 0) else (Some nx, 0))"
      using p False nx by (auto simp: increment_def FetchPage_def)
    from d inc last show ?thesis by (subst scan_loop.simps) (simp add: IsEnd_def)
  qed
qed

lemma scan_chain:
  assumes ok: "\<forall>p n. tree_pages t p = Some n \<longrightarrow> page_ok t G V p n"
    and dom: "\<forall>p \<in> dom (tree_pages t). 0 \<le> p"
  shows "chain_from t G (p # rest) \<Longrightarrow>
         scan_loop t (Some p, 0) acc = Some (acc @ concat (map (entries_of t) (p # rest)))"
proof (induction rest arbitrary: p acc)
  case Nil
  then obtain n where n: "tree_pages t p = Some n" "IsLeafPage n" "GetNextPageId n = INVALID_PAGE_ID"
    by auto
  then obtain pid par mx arr where nn: "n = LeafPage pid par mx INVALID_PAGE_ID arr"
    by (cases n) auto
  from ok n(1) have "page_ok t G V p n" by blast
  with nn have a: "arr \<noteq> []" "length arr < mx" by (simp_all add: page_ok_leaf)
  from scan_leaf [OF n(1) [unfolded nn] a(2), of 0 acc] a(1)
  have "scan_loop t (Some p, 0) acc = scan_loop t (None, 0) (acc @ arr)" by simp
  also have "\<dots> = Some (acc @ arr)" by (subst scan_loop.simps) (simp add: IsEnd_def)
  finally show ?case using n(1) nn by (simp add: entries_of_def)
next
  case (Cons p' rest)
  then obtain n where n: "tree_pages t p = Some n" "IsLeafPage n" "GetNextPageId n = p'"
    and c: "chain_from t G (p' # rest)" by auto
  then obtain pid par mx arr where nn: "n = LeafPage pid par mx p' arr"
    by (cases n) auto
  from ok n(1) have "page_ok t G V p n" by blast
  with nn have a: "arr \<noteq> []" "length arr < mx" by (simp_all add: page_ok_leaf)
  from c obtain n' where n': "tree_pages t p' = Some n'" by (cases rest) auto
  then have "p' \<in> dom (tree_pages t)" by blast
  with dom have "0 \<le> p'" by blast
  then have False: "p' \<noteq> INVALID_PAGE_ID" by (simp add: INVALID_PAGE_ID_def)
  from scan_leaf [OF n(1) [unfolded nn] a(2), of 0 acc] a(1) n' False
  have "scan_loop t (Some p, 0) acc = scan_loop t (Some p', 0) (acc @ arr)" by simp
  with Cons.IH [OF c, of "acc @ arr"] n(1) nn show ?case by (simp add: entries_of_def)
qed

lemma chain_sorted:
  assumes ok: "\<forall>p n. tree_pages t p = Some n \<longrightarrow> page_ok t G V p n"
  shows "chain_from t G (p # rest) \<Longrightarrow>
         sorted_wrt (<) (map fst (concat (map (entries_of t) (p # rest)))) \<and>
         (\<forall>k \<in> fst ` set (concat (map (entries_of t) (p # rest))). lo_le (g_lo G p) k)"
proof (induction rest arbitrary: p)
  case Nil
  then obtain n where n: "tree_pages t p = Some n" "IsLeafPage n" by auto
  then obtain pid par mx nx arr where nn: "n = LeafPage pid par mx nx arr" by (cases n) auto
  from ok n(1) have "page_ok t G V p n" by blast
  with nn n(1) show ?case by (auto simp: page_ok_leaf entries_of_def)
next
  case (Cons p' rest)
  then obtain n where n: "tree_pages t p = Some n" "IsLeafPage n"
    and h: "g_hi G p \<noteq> None" "g_hi G p = g_lo G p'"
    and c: "chain_from t G (p' # rest)" by auto
  then obtain pid par mx nx arr where nn: "n = LeafPage pid par mx nx arr" by (cases n) auto
  from ok n(1) have "page_ok t G V p n" by blast
  with nn have a: "sorted_wrt (<) (map fst arr)"
    "\<forall>k \<in> fst ` set arr. lo_le (g_lo G p) k \<and> lt_hi k (g_hi G p)" "arr \<noteq> []"
    by (simp_all add: page_ok_leaf)
  from h obtain b where b: "g_hi G p = Some b" "g_lo G p' = Some b" by auto
  note ih = Cons.IH [OF c]
  let ?rest = "concat (map (entries_of t) (p' # rest))"
  from ih b have r: "sorted_wrt (<) (map fst ?rest)" "\<forall>k \<in> fst ` set ?rest. b \<le> k" by auto
  from a(2) b have l: "\<forall>k \<in> fst ` set arr. k < b" by auto
  have e: "entries_of t p = arr" using n(1) nn by (simp add: entries_of_def)
  have "\<forall>x \<in> fst ` set arr. \<forall>y \<in> fst ` set ?rest. x < y"
    using l r(2) by (meson le_less_trans not_le order.strict_trans2)
  then have s: "sorted_wrt (<) (map fst (arr @ ?rest))"
    using a(1) r(1) unfolding map_append sorted_wrt_append by auto
  have "lo_le (g_lo G p) k" if "k \<in> fst ` set (arr @ ?rest)" for k
  proof (cases "k \<in> fst ` set arr")
    case True
    with a(2) show ?thesis by blast
  next
    case False
    with that have "k \<in> fst ` set ?rest" by auto
    with r(2) have bk: "b \<le> k" by blast
    from a(3) obtain x where "x \<in> set arr" by (cases arr) auto
    with a(2) l have "lo_le (g_lo G p) (fst x)" "fst x < b" by auto
    with bk show ?thesis by (auto intro: lo_le_trans)
  qed
  with s e show ?case by simp
qed

theorem scan_ok:
  assumes inv: "tree_inv t G"
  shows "\<exists>es. scan t = Some es \<and> sorted_wrt (<) (map fst es) \<and> fst ` set es = tree_keys t"
proof -
  from inv have ok: "\<forall>p n. tree_pages t p = Some n \<longrightarrow> page_ok t G (\<lambda>p arr. arr) p n"
    and dom: "\<forall>p \<in> dom (tree_pages t). 0 \<le> p"
    and ch: "leaf_chain_ok t G"
    by (auto simp: tree_inv_def inv_gen_def)
  from ch have cf: "chain_from t G (g_chain G)"
    and cs: "set (g_chain G) = {p. \<exists>n. tree_pages t p = Some n \<and> IsLeafPage n}"
    by (auto simp: leaf_chain_ok_def)
  from cf obtain p rest where c: "g_chain G = p # rest" by (cases "g_chain G") auto
  let ?es = "concat (map (entries_of t) (g_chain G))"
  from scan_chain [OF ok dom cf [unfolded c], of "[]"] Begin_ok [OF inv] c
  have "scan t = Some ?es" by (simp add: scan_def)
  moreover from chain_sorted [OF ok cf [unfolded c]] c have "sorted_wrt (<) (map fst ?es)" by simp
  moreover have "fst ` set ?es = tree_keys t"
  proof -
    have "fst ` set (entries_of t q) = {k. \<exists>n. tree_pages t q = Some n \<and> IsLeafPage n \<and> k \<in> set (keys_of n)}"
      for q
    proof (cases "tree_pages t q")
      case None
      then show ?thesis by (simp add: entries_of_def)
    next
      case (Some n)
      then show ?thesis by (cases n) (auto simp: entries_of_def)
    qed
    then have "fst ` set ?es = (\<Union>q \<in> set (g_chain G). {k. \<exists>n. tree_pages t q = Some n \<and> IsLeafPage n \<and> k \<in> set (keys_of n)})"
      by (simp add: image_UN)
    also have "\<dots> = tree_keys t" unfolding cs tree_keys_def by auto
    finally show ?thesis .
  qed
  ultimately show ?thesis by blast
qed

subsection \<open>Pages and the store\<close>

lemma SetParentPageId_simps [simp]:
  "GetParentPageId (SetParentPageId x n) = x"
  "GetPageId (SetParentPageId x n) = GetPageId n"
  "GetMaxSize (SetParentPageId x n) = GetMaxSize n"
  "GetSize (SetParentPageId x n) = GetSize n"
  "IsLeafPage (SetParentPageId x n) = IsLeafPage n"
  "keys_of (SetParentPageId x n) = keys_of n"
  by (cases n; simp)+

lemma SetParentPageId_leaf [simp]:
  "IsLeafPage n \<Longrightarrow> GetNextPageId (SetParentPageId x n) = GetNextPageId n"
  "IsLeafPage n \<Longrightarrow> leaf_array (SetParentPageId x n) = leaf_array n"
  "\<not> IsLeafPage n \<Longrightarrow> internal_array (SetParentPageId x n) = internal_array n"
  by (cases n; simp)+

lemma page_ok_SetParentPageId [simp]:
  "page_ok t G V p (SetParentPageId x n) = page_ok t G V p n"
  by (cases n) (simp_all add: page_ok_def)

lemma store_simps [simp]:
  "tree_pages (put_page p n t) = (tree_pages t)(p \<mapsto> n)"
  "root_page_id (put_page p n t) = root_page_id t"
  "leaf_max_size (put_page p n t) = leaf_max_size t"
  "internal_max_size (put_page p n t) = internal_max_size t"
  "tree_next_page_id (put_page p n t) = tree_next_page_id t"
  by (simp_all add: put_page_def)

lemma NewPage_simp [simp]:
  "NewPage t = (tree_next_page_id t, t\<lparr>tree_next_page_id := tree_next_page_id t + 1\<rparr>)"
  by (simp add: NewPage_def)

lemma IsLeafPage_cases:
  "IsLeafPage n \<Longrightarrow> \<exists>pid par mx nx arr. n = LeafPage pid par mx nx arr"
  "\<not> IsLeafPage n \<Longrightarrow> \<exists>pid par mx arr. n = InternalPage pid par mx arr"
  by (cases n; simp)+

text \<open>A page stays in order when nothing that it refers to changes.\<close>

lemma page_ok_frame:
  assumes ok: "page_ok t G V p n"
    and mx: "leaf_max_size t' = leaf_max_size t" "internal_max_size t' = internal_max_size t"
    and own: "g_lo G' p = g_lo G p" "g_hi G' p = g_hi G p" "g_ht G' p = g_ht G p"
    and V: "\<not> IsLeafPage n \<Longrightarrow> V' p (internal_array n) = V p (internal_array n)"
    and kids: "\<And>c cn. \<not> IsLeafPage n \<Longrightarrow> c \<in> snd ` set (V p (internal_array n)) \<Longrightarrow>
        tree_pages t c = Some cn \<Longrightarrow> GetParentPageId cn = p \<Longrightarrow>
        g_lo G' c = g_lo G c \<and> g_hi G' c = g_hi G c \<and> g_ht G' c = g_ht G c \<and>
        (\<exists>cn'. tree_pages t' c = Some cn' \<and> GetParentPageId cn' = p)"
  shows "page_ok t' G' V' p n"
proof (cases n)
  case (LeafPage pid par mx nx arr)
  with ok mx own show ?thesis by (simp add: page_ok_leaf)
next
  case (InternalPage pid par mx arr)
  with ok have k: "kids_ok (g_lo G) (g_hi G) (g_lo G p) (V p arr) (g_hi G p)"
    and c: "\<forall>c \<in> snd ` set (V p arr).
         \<exists>cn. tree_pages t c = Some cn \<and> GetParentPageId cn = p \<and> Suc (g_ht G c) = g_ht G p"
    and r: "pid = p" "mx = internal_max_size t" "2 \<le> length arr" "length arr \<le> mx"
    by (simp_all add: page_ok_internal)
  from V InternalPage have V': "V' p arr = V p arr" by simp
  have same: "g_lo G' c = g_lo G c \<and> g_hi G' c = g_hi G c \<and> g_ht G' c = g_ht G c \<and>
        (\<exists>cn'. tree_pages t' c = Some cn' \<and> GetParentPageId cn' = p)"
    if "c \<in> snd ` set (V p arr)" for c
  proof -
    from c that obtain cn where "tree_pages t c = Some cn" "GetParentPageId cn = p" by blast
    from kids [OF _ _ this] that InternalPage show ?thesis by simp
  qed
  have "kids_ok (g_lo G') (g_hi G') (g_lo G p) (V p arr) (g_hi G p) =
        kids_ok (g_lo G) (g_hi G) (g_lo G p) (V p arr) (g_hi G p)"
    by (rule kids_ok_cong) (use same in auto)
  with k have "kids_ok (g_lo G') (g_hi G') (g_lo G' p) (V' p arr) (g_hi G' p)"
    by (simp add: own V')
  moreover have "\<forall>c \<in> snd ` set (V' p arr).
         \<exists>cn. tree_pages t' c = Some cn \<and> GetParentPageId cn = p \<and> Suc (g_ht G' c) = g_ht G' p"
    unfolding V'
  proof
    fix c assume cc: "c \<in> snd ` set (V p arr)"
    from same [OF cc] c cc own show "\<exists>cn. tree_pages t' c = Some cn \<and> GetParentPageId cn = p \<and>
        Suc (g_ht G' c) = g_ht G' p" by force
  qed
  ultimately show ?thesis using r mx InternalPage by (simp add: page_ok_internal)
qed

lemma link_ok_frame:
  assumes ok: "link_ok t G V p n"
    and par: "GetParentPageId n' = GetParentPageId n"
    and root: "(p = root_page_id t') = (p = root_page_id t)"
    and own: "g_lo G' p = g_lo G p" "g_hi G' p = g_hi G p"
    and up: "\<And>gn. p \<noteq> root_page_id t \<Longrightarrow> tree_pages t (GetParentPageId n) = Some gn \<Longrightarrow>
        \<not> IsLeafPage gn \<Longrightarrow> p \<in> snd ` set (V (GetParentPageId n) (internal_array gn)) \<Longrightarrow>
        \<exists>gn'. tree_pages t' (GetParentPageId n) = Some gn' \<and> \<not> IsLeafPage gn' \<and>
              p \<in> snd ` set (V' (GetParentPageId n) (internal_array gn'))"
  shows "link_ok t' G' V' p n'"
proof (cases "p = root_page_id t")
  case True
  with ok par root own show ?thesis by (simp add: link_ok_def)
next
  case False
  with ok obtain gn where "GetParentPageId n \<noteq> INVALID_PAGE_ID"
    "tree_pages t (GetParentPageId n) = Some gn" "\<not> IsLeafPage gn"
    "p \<in> snd ` set (V (GetParentPageId n) (internal_array gn))"
    by (auto simp: link_ok_def)
  with up [OF False this(2-4)] False root par show ?thesis by (auto simp: link_ok_def)
qed

lemma tree_keys_cong:
  assumes "\<And>p. (\<exists>n. tree_pages t' p = Some n \<and> IsLeafPage n \<and> k \<in> set (keys_of n)) =
               (\<exists>n. tree_pages t p = Some n \<and> IsLeafPage n \<and> k \<in> set (keys_of n))"
  shows "(k \<in> tree_keys t') = (k \<in> tree_keys t)"
  using assms by (auto simp: tree_keys_def)

text \<open>The chain of leaves depends on the leaves and their ranges only.\<close>

lemma chain_from_frame:
  assumes "\<And>p n. p \<in> set c \<Longrightarrow> tree_pages t p = Some n \<Longrightarrow> IsLeafPage n \<Longrightarrow>
      g_lo G' p = g_lo G p \<and> g_hi G' p = g_hi G p \<and>
      (\<exists>n'. tree_pages t' p = Some n' \<and> IsLeafPage n' \<and> GetNextPageId n' = GetNextPageId n)"
  shows "chain_from t G c \<Longrightarrow> chain_from t' G' c"
  using assms
proof (induction c rule: induct_list012)
  case 1
  then show ?case by simp
next
  case (2 p)
  from 2(1) obtain n where n: "tree_pages t p = Some n" "IsLeafPage n"
    "GetNextPageId n = INVALID_PAGE_ID" "g_hi G p = None" by auto
  from 2(2) [OF _ n(1,2)] n show ?case by auto
next
  case (3 p p' rest)
  from 3(3) obtain n where n: "tree_pages t p = Some n" "IsLeafPage n" "GetNextPageId n = p'"
    and h: "g_hi G p \<noteq> None" "g_hi G p = g_lo G p'" and c: "chain_from t G (p' # rest)" by auto
  from c obtain n' where n': "tree_pages t p' = Some n'" "IsLeafPage n'" by (cases rest) auto
  from 3(4) [OF _ n(1,2)] 3(4) [OF _ n'] n h
  have "g_hi G' p \<noteq> None" "g_hi G' p = g_lo G' p'"
    "\<exists>n. tree_pages t' p = Some n \<and> IsLeafPage n \<and> GetNextPageId n = p'" by auto
  moreover have "chain_from t' G' (p' # rest)"
    by (rule 3(2) [OF c]) (use 3(4) in auto)
  ultimately show ?case by simp
qed

subsection \<open>Insert without a split\<close>

lemma Insert_empty:
  assumes e: "empty_ok t"
  shows "\<exists>t' G'. BPlusTree_Insert key v t = Some (True, t') \<and> tree_inv t' G' \<and> tree_keys t' = {key}"
proof -
  define r where "r = tree_next_page_id t"
  define leaf where "leaf = (LeafPage r INVALID_PAGE_ID (leaf_max_size t) INVALID_PAGE_ID [(key, v)]
    :: ('a, 'b) BPlusTreePage)"
  define t' where "t' = put_page r leaf (t\<lparr>tree_next_page_id := r + 1, root_page_id := r\<rparr>)"
  define G' :: "'a ghost" where
    "G' = \<lparr>g_lo = (\<lambda>_. None), g_hi = (\<lambda>_. None), g_ht = (\<lambda>_. 0), g_chain = [r]\<rparr>"
  from e have lm: "2 \<le> leaf_max_size t" and r0: "0 \<le> r" and emp: "tree_pages t = Map.empty"
    and ie: "IsEmpty t" and im: "3 \<le> internal_max_size t"
    by (simp_all add: empty_ok_def r_def)
  have ins: "BPlusTree_Insert key v t = Some (True, t')"
    using ie lm
    by (simp add: BPlusTree_Insert_def Leaf_Init_def t'_def leaf_def r_def array_Insert_def)
  have pages: "tree_pages t' = [r \<mapsto> leaf]" by (simp add: t'_def emp)
  have "tree_inv t' G'"
    unfolding tree_inv_def inv_gen_def
  proof (intro conjI allI impI ballI)
    fix p n assume "tree_pages t' p = Some n"
    with pages have pn: "p = r" "n = leaf" by (auto split: if_splits)
    show "page_ok t' G' (\<lambda>p arr. arr) p n"
      using lm by (simp add: pn leaf_def page_ok_leaf t'_def G'_def)
    show "link_ok t' G' (\<lambda>p arr. arr) p n"
      by (simp add: pn leaf_def link_ok_def t'_def G'_def)
    show "g_ht G' p \<le> g_ht G' (root_page_id t')" by (simp add: G'_def)
  next
    show "leaf_chain_ok t' G'"
      by (auto simp: leaf_chain_ok_def G'_def pages leaf_def split: if_splits)
  qed (use lm im r0 in \<open>auto simp: t'_def emp split: if_splits\<close>)
  moreover have "tree_keys t' = {key}"
    by (auto simp: tree_keys_def pages leaf_def split: if_splits)
  ultimately show ?thesis using ins by blast
qed

text \<open>The leaf that takes the key, and the place of the key in it.\<close>

lemma Insert_find:
  assumes inv: "tree_inv t G" and new: "key \<notin> tree_keys t"
  shows "\<exists>l par nx arr p.
           FindLeaf key t = Some l \<and>
           tree_pages t l = Some (LeafPage l par (leaf_max_size t) nx arr) \<and>
           lo_le (g_lo G l) key \<and> lt_hi key (g_hi G l) \<and>
           GetPosOnLeafPage (LeafPage l par (leaf_max_size t) nx arr) key = Some (int p - 1) \<and>
           p \<le> length arr \<and> (\<forall>i < p. fst (arr ! i) < key) \<and>
           (\<forall>i. p \<le> i \<and> i < length arr \<longrightarrow> key < fst (arr ! i)) \<and>
           (if int p - 1 \<noteq> - 1
            then map_option (\<lambda>k. comparator key k = 0)
                   (KeyAt (LeafPage l par (leaf_max_size t) nx arr) (int p - 1))
            else Some False) = Some False"
proof -
  from FindLeaf_ok [OF inv, of key]
  obtain l ln where l: "FindLeaf key t = Some l" "tree_pages t l = Some ln" "IsLeafPage ln"
    "lo_le (g_lo G l) key" "lt_hi key (g_hi G l)" by blast
  from IsLeafPage_cases(1) [OF l(3)] obtain pid par mx nx arr where
    ln: "ln = LeafPage pid par mx nx arr" by blast
  from inv l(2) have "page_ok t G (\<lambda>p arr. arr) l ln" by (simp add: tree_inv_def inv_page)
  with ln have ok: "pid = l" "mx = leaf_max_size t" "length arr < mx" "sorted_wrt (<) (map fst arr)"
    by (simp_all add: page_ok_leaf)
  from GetPosOnLeafPage_spec [OF _ ok(4), of mx pid par nx key] ok(3)
  obtain p where p: "GetPosOnLeafPage ln key = Some (int p - 1)" "p \<le> length arr"
    "\<forall>i < p. fst (arr ! i) \<le> key" "\<forall>i. p \<le> i \<and> i < length arr \<longrightarrow> key < fst (arr ! i)"
    by (auto simp: ln)
  from new l(2,3) have nk: "key \<notin> set (keys_of ln)" by (auto simp: tree_keys_def)
  have strict: "\<forall>i < p. fst (arr ! i) < key"
  proof (intro allI impI)
    fix i assume i: "i < p"
    with p(2) have "fst (arr ! i) \<in> set (keys_of ln)" by (simp add: ln)
    with nk have "fst (arr ! i) \<noteq> key" by auto
    with p(3) i show "fst (arr ! i) < key" by (simp add: less_le)
  qed
  have pres: "(if int p - 1 \<noteq> - 1
            then map_option (\<lambda>k. comparator key k = 0) (KeyAt ln (int p - 1))
            else Some False) = Some False"
  proof (cases p)
    case 0
    then show ?thesis by simp
  next
    case (Suc j)
    with p(2) ok(3) have "KeyAt ln (int p - 1) = Some (fst (arr ! j))"
      by (simp add: KeyAt_def in_range_def ln)
    moreover from strict Suc have "fst (arr ! j) \<noteq> key" by auto
    ultimately show ?thesis using Suc by auto
  qed
  from l p strict pres show ?thesis unfolding ln ok(1,2) by blast
qed

lemma Insert_nosplit:
  assumes inv: "tree_inv t G"
    and l: "tree_pages t l = Some (LeafPage l par (leaf_max_size t) nx arr)"
    and r: "lo_le (g_lo G l) key" "lt_hi key (g_hi G l)"
    and p: "p \<le> length arr" "\<forall>i < p. fst (arr ! i) < key"
      "\<forall>i. p \<le> i \<and> i < length arr \<longrightarrow> key < fst (arr ! i)"
    and sz: "Suc (length arr) < leaf_max_size t"
  shows "tree_inv (put_page l (LeafPage l par (leaf_max_size t) nx (array_Insert p (key, v) arr)) t) G"
proof -
  define leaf1 where "leaf1 = (LeafPage l par (leaf_max_size t) nx (array_Insert p (key, v) arr)
    :: ('a, 'b) BPlusTreePage)"
  define ln where "ln = (LeafPage l par (leaf_max_size t) nx arr :: ('a, 'b) BPlusTreePage)"
  define t1 where "t1 = put_page l leaf1 t"
  note inv' = inv [unfolded tree_inv_def]
  from inv_page [OF inv' l] have okl: "page_ok t G (\<lambda>p arr. arr) l ln" by (simp add: ln_def)
  have pg: "tree_pages t1 x = (if x = l then Some leaf1 else tree_pages t x)" for x
    by (simp add: t1_def)
  have "inv_gen t1 G (\<lambda>p arr. arr) {}"
    unfolding inv_gen_def
  proof (intro conjI allI impI ballI)
    fix x n assume xn: "tree_pages t1 x = Some n"
    show "g_ht G x \<le> g_ht G (root_page_id t1)"
    proof (cases "x = l")
      case True
      with inv' l show ?thesis by (auto simp: inv_gen_def t1_def)
    next
      case False
      with inv' xn pg show ?thesis by (auto simp: inv_gen_def t1_def)
    qed
    show "page_ok t1 G (\<lambda>p arr. arr) x n"
    proof (cases "x = l")
      case True
      with xn pg have n: "n = leaf1" by simp
      from okl have o: "sorted_wrt (<) (map fst arr)"
        "\<forall>k \<in> fst ` set arr. lo_le (g_lo G l) k \<and> lt_hi k (g_hi G l)" "g_ht G l = 0"
        by (simp_all add: page_ok_leaf ln_def)
      have "array_Insert p (key, v) arr \<noteq> []" by (simp add: array_Insert_def)
      with array_Insert_sorted [OF o(1) p(1,2,3), of v] o(2,3) r p(1) sz
      show ?thesis by (simp add: True n leaf1_def page_ok_leaf t1_def)
    next
      case False
      with xn pg have n: "tree_pages t x = Some n" by simp
      from inv_page [OF inv' n] show ?thesis
      proof (rule page_ok_frame)
        fix c cn assume "tree_pages t c = Some cn" "GetParentPageId cn = x"
        then show "g_lo G c = g_lo G c \<and> g_hi G c = g_hi G c \<and> g_ht G c = g_ht G c \<and>
            (\<exists>cn'. tree_pages t1 c = Some cn' \<and> GetParentPageId cn' = x)"
          using l by (auto simp: pg leaf1_def)
      qed (simp_all add: t1_def)
    qed
    show "link_ok t1 G (\<lambda>p arr. arr) x n" if "x \<notin> {}"
    proof -
      obtain n0 where n0: "tree_pages t x = Some n0" "GetParentPageId n = GetParentPageId n0"
        using xn pg l by (cases "x = l") (auto simp: leaf1_def)
      from inv_link [OF inv' n0(1)] show ?thesis
      proof (rule link_ok_frame)
        fix gn assume "tree_pages t (GetParentPageId n0) = Some gn" "\<not> IsLeafPage gn"
          "x \<in> snd ` set (internal_array gn)"
        moreover from this l have "GetParentPageId n0 \<noteq> l" by auto
        ultimately show "\<exists>gn'. tree_pages t1 (GetParentPageId n0) = Some gn' \<and> \<not> IsLeafPage gn' \<and>
            x \<in> snd ` set (internal_array gn')" by (auto simp: pg)
      qed (simp_all add: n0 t1_def)
    qed
  next
    from inv' have c: "leaf_chain_ok t G" by (simp add: inv_gen_def)
    have "chain_from t1 G (g_chain G)"
    proof (rule chain_from_frame)
      show "chain_from t G (g_chain G)" using c by (simp add: leaf_chain_ok_def)
    next
      fix p n assume "tree_pages t p = Some n" "IsLeafPage n"
      then show "g_lo G p = g_lo G p \<and> g_hi G p = g_hi G p \<and>
          (\<exists>n'. tree_pages t1 p = Some n' \<and> IsLeafPage n' \<and> GetNextPageId n' = GetNextPageId n)"
        using l by (auto simp: pg leaf1_def)
    qed
    moreover have "{p. \<exists>n. tree_pages t1 p = Some n \<and> IsLeafPage n} =
        {p. \<exists>n. tree_pages t p = Some n \<and> IsLeafPage n}"
      using l by (auto simp: pg leaf1_def)
    ultimately show "leaf_chain_ok t1 G" using c by (simp add: leaf_chain_ok_def)
  next
    fix x assume "x \<in> dom (tree_pages t1)"
    then have "x \<in> dom (tree_pages t)" using l by (auto simp: pg split: if_splits)
    with inv' show "0 \<le> x" "x < tree_next_page_id t1" by (auto simp: inv_gen_def t1_def)
  next
    from inv' show "root_page_id t1 \<in> dom (tree_pages t1)"
      by (auto simp: inv_gen_def t1_def)
  qed (use inv' in \<open>auto simp: inv_gen_def t1_def\<close>)
  then show ?thesis by (simp add: tree_inv_def t1_def leaf1_def)
qed

subsection \<open>The split of a leaf\<close>

lemma inv_gen_V_cong:
  assumes "\<And>x arr. x \<in> dom (tree_pages t) \<Longrightarrow> V x arr = V' x arr"
  shows "inv_gen t G V E = inv_gen t G V' E"
proof -
  have p: "page_ok t G V x n = page_ok t G V' x n" if "tree_pages t x = Some n" for x n
  proof -
    from that have "x \<in> dom (tree_pages t)" by blast
    with assms show ?thesis by (cases n) (simp_all add: page_ok_def)
  qed
  have l: "link_ok t G V x n = link_ok t G V' x n" for x n
  proof (cases "tree_pages t (GetParentPageId n)")
    case None
    then show ?thesis by (simp add: link_ok_def)
  next
    case (Some gn)
    then have "GetParentPageId n \<in> dom (tree_pages t)" by blast
    from assms [OF this] have "V (GetParentPageId n) = V' (GetParentPageId n)" by blast
    then show ?thesis by (simp add: link_ok_def)
  qed
  show ?thesis unfolding inv_gen_def using p l by (auto cong: conj_cong)
qed

lemma chain_from_split:
  assumes l: "tree_pages t l = Some ln" "IsLeafPage ln"
    and l': "tree_pages t' l = Some ln'" "IsLeafPage ln'" "GetNextPageId ln' = q"
    and q': "tree_pages t' q = Some qn'" "IsLeafPage qn'" "GetNextPageId qn' = GetNextPageId ln"
    and g: "g_hi G' l = Some m" "g_lo G' q = Some m" "g_hi G' q = g_hi G l" "g_lo G' l = g_lo G l"
    and other: "\<And>p. p \<noteq> l \<Longrightarrow> p \<noteq> q \<Longrightarrow>
        tree_pages t' p = tree_pages t p \<and> g_lo G' p = g_lo G p \<and> g_hi G' p = g_hi G p"
  shows "chain_from t G c \<Longrightarrow> distinct c \<Longrightarrow> q \<notin> set c \<Longrightarrow> chain_from t' G' (chain_ins l q c)"
proof (induction c rule: induct_list012)
  case 1
  then show ?case by simp
next
  case (2 p)
  show ?case
  proof (cases "p = l")
    case True
    with 2 l l' q' g show ?thesis by auto
  next
    case False
    with 2 other [of p] show ?thesis by auto
  qed
next
  case (3 p p' rest)
  from 3(3) obtain n where n: "tree_pages t p = Some n" "IsLeafPage n" "GetNextPageId n = p'"
    and h: "g_hi G p \<noteq> None" "g_hi G p = g_lo G p'" and c: "chain_from t G (p' # rest)" by auto
  from 3(4,5) have d: "distinct (p' # rest)" "q \<notin> set (p' # rest)" "p \<noteq> p'" "p' \<noteq> q" "p \<noteq> q"
    "p \<notin> set rest" by auto
  show ?case
  proof (cases "p = l")
    case True
    with d have "l \<notin> set (p' # rest)" by auto
    then have "chain_ins l q (p' # rest) = p' # rest" by (rule chain_ins_absent)
    with 3(2) [OF c d(1,2)] have c': "chain_from t' G' (p' # rest)" by simp
    from True d other [of p'] have p': "g_lo G' p' = g_lo G p'" by auto
    from True n l have "GetNextPageId ln = p'" by simp
    with True l' q' g h p' c' show ?thesis by auto
  next
    case False
    from 3(2) [OF c d(1,2)] have c': "chain_from t' G' (chain_ins l q (p' # rest))" .
    from False d other [of p] n
    have a: "tree_pages t' p = Some n" "g_hi G' p = g_hi G p" by auto
    have b: "g_lo G' p' = g_lo G p'"
    proof (cases "p' = l")
      case True
      with g show ?thesis by simp
    next
      case False
      with d other [of p'] show ?thesis by auto
    qed
    have "hd (chain_ins l q (p' # rest)) = p'" "chain_ins l q (p' # rest) \<noteq> []" by auto
    then obtain rest' where r: "chain_ins l q (p' # rest) = p' # rest'"
      by (cases "chain_ins l q (p' # rest)") auto
    from False have "chain_ins l q (p # p' # rest) = p # chain_ins l q (p' # rest)" by simp
    with r c' a b n h show ?thesis by auto
  qed
qed

lemma leaf_split_pending:
  assumes inv: "tree_inv t G"
    and l: "tree_pages t l = Some (LeafPage l par (leaf_max_size t) nx arr)"
    and srt: "sorted_wrt (<) (map fst arr')" and len: "length arr' = leaf_max_size t"
    and rng: "\<forall>k \<in> fst ` set arr'. lo_le (g_lo G l) k \<and> lt_hi k (g_hi G l)"
    and q: "q = tree_next_page_id t" and h: "h = leaf_max_size t div 2"
    and m: "m = fst (hd (drop h arr'))"
    and t3: "t3 = put_page q (LeafPage q par (leaf_max_size t) nx (drop h arr'))
                   (put_page l (LeafPage l par (leaf_max_size t) q (take h arr'))
                      (t\<lparr>tree_next_page_id := q + 1\<rparr>))"
    and G': "G' = G\<lparr>g_lo := (g_lo G)(q := Some m), g_hi := (g_hi G)(l := Some m, q := g_hi G l),
                    g_ht := (g_ht G)(q := 0), g_chain := chain_ins l q (g_chain G)\<rparr>"
  shows "pending t3 G' l m q"
proof -
  define ln where "ln = (LeafPage l par (leaf_max_size t) nx arr :: ('a, 'b) BPlusTreePage)"
  define leaf2 where "leaf2 = (LeafPage l par (leaf_max_size t) q (take h arr') :: ('a, 'b) BPlusTreePage)"
  define newleaf where "newleaf = (LeafPage q par (leaf_max_size t) nx (drop h arr') :: ('a, 'b) BPlusTreePage)"
  define V' where "V' = (\<lambda>x (a :: ('a \<times> int) list). if x = par then ins_after l (m, q) a else a)"
  define E' where "E' = (if par = INVALID_PAGE_ID then {l, q} else {})"
  note inv' = inv [unfolded tree_inv_def]
  from inv' have lm: "2 \<le> leaf_max_size t" and im: "3 \<le> internal_max_size t"
    and alloc: "\<forall>p \<in> dom (tree_pages t). 0 \<le> p \<and> p < tree_next_page_id t"
    and root: "root_page_id t \<in> dom (tree_pages t)"
    and chain: "leaf_chain_ok t G"
    by (simp_all add: inv_gen_def)
  from alloc q have fresh: "tree_pages t q = None" by (cases "tree_pages t q") (auto simp: dom_def)
  with l have ql: "q \<noteq> l" by auto
  from root fresh have qroot: "q \<noteq> root_page_id t" by auto
  from alloc l q have q0: "0 \<le> q" by (auto simp: dom_def)
  have pg: "tree_pages t3 x = (if x = q then Some newleaf else if x = l then Some leaf2
      else tree_pages t x)" for x
    by (simp add: t3 newleaf_def leaf2_def)
  have t3s: "root_page_id t3 = root_page_id t" "leaf_max_size t3 = leaf_max_size t"
    "internal_max_size t3 = internal_max_size t" "tree_next_page_id t3 = q + 1"
    by (simp_all add: t3)
  have Gs: "g_lo G' x = (if x = q then Some m else g_lo G x)"
    "g_hi G' x = (if x = q then g_hi G l else if x = l then Some m else g_hi G x)"
    "g_ht G' x = (if x = q then 0 else g_ht G x)" for x
    by (simp_all add: G')
  from inv_page [OF inv' l] have okl: "g_ht G l = 0" by (simp add: page_ok_leaf)
  from inv_link [OF inv' l] have linkl: "link_ok t G (\<lambda>p arr. arr) l ln" by (simp add: ln_def)
  text \<open>The two halves.\<close>
  from lm h len have hh: "1 \<le> h" "h < length arr'" by auto
  then have ne: "take h arr' \<noteq> []" "drop h arr' \<noteq> []" by auto
  from hh have mh: "m = fst (arr' ! h)" by (simp add: m hd_drop_conv_nth)
  have low: "k < m" if "k \<in> fst ` set (take h arr')" for k
  proof -
    from that obtain i where i: "i < h" "i < length arr'" "k = fst (arr' ! i)"
      by (auto simp: in_set_conv_nth)
    with sorted_wrt_nth_less [OF srt, of i h] hh show ?thesis by (simp add: mh)
  qed
  have high: "m \<le> k" if "k \<in> fst ` set (drop h arr')" for k
  proof -
    from that obtain x where "x \<in> set (drop h arr')" "k = fst x" by blast
    then obtain i where "i < length (drop h arr')" "x = drop h arr' ! i"
      by (auto simp: in_set_conv_nth)
    with \<open>k = fst x\<close> hh have i: "h + i < length arr'" "k = fst (arr' ! (h + i))" by auto
    show ?thesis
    proof (cases i)
      case 0
      with i show ?thesis by (simp add: mh)
    next
      case (Suc j)
      with sorted_wrt_nth_less [OF srt, of h "h + i"] i show ?thesis by (simp add: mh)
    qed
  qed
  have sub: "set (take h arr') \<subseteq> set arr'" "set (drop h arr') \<subseteq> set arr'"
    by (auto dest: in_set_takeD in_set_dropD)
  from ne(2) have "m \<in> fst ` set arr'" using sub(2) by (cases "drop h arr'") (auto simp: m)
  with rng have mr: "lo_le (g_lo G l) m" "lt_hi m (g_hi G l)" by auto
  from ne(1) obtain k0 where k0: "k0 \<in> fst ` set (take h arr')" by (cases "take h arr'") auto
  with low sub(1) rng have "lo_le (g_lo G l) k0" "k0 < m" by auto
  then have mlo: "lo_lt (g_lo G l) m" by (rule lo_le_less)
  text \<open>The parent.\<close>
  have parent: "\<exists>gpid gpar garr. tree_pages t par = Some (InternalPage gpid gpar (internal_max_size t) garr) \<and>
      l \<in> snd ` set garr \<and> par \<noteq> l \<and> par \<noteq> q \<and> l \<noteq> root_page_id t" if "par \<noteq> INVALID_PAGE_ID"
  proof -
    from linkl that have nr: "l \<noteq> root_page_id t" by (auto simp: link_ok_def ln_def)
    with linkl obtain gn where gn: "tree_pages t par = Some gn" "\<not> IsLeafPage gn"
      "l \<in> snd ` set (internal_array gn)" by (auto simp: link_ok_def ln_def)
    from IsLeafPage_cases(2) [OF gn(2)] obtain gpid gpar gmx garr where
      g: "gn = InternalPage gpid gpar gmx garr" by blast
    from inv_page [OF inv' gn(1)] g have "gmx = internal_max_size t" by (simp add: page_ok_internal)
    moreover from gn(1) l g have "par \<noteq> l" by auto
    moreover from gn(1) fresh have "par \<noteq> q" by auto
    ultimately show ?thesis using gn g nr by auto
  qed
  have rootcase: "l = root_page_id t \<and> g_lo G l = None \<and> g_hi G l = None" if "par = INVALID_PAGE_ID"
    using linkl that by (auto simp: link_ok_def ln_def split: if_splits)
  have "inv_gen t3 G' V' E'"
    unfolding inv_gen_def
  proof (intro conjI allI impI ballI)
    fix x n assume xn: "tree_pages t3 x = Some n"
    show "g_ht G' x \<le> g_ht G' (root_page_id t3)"
    proof (cases "x = q")
      case True
      then show ?thesis by (simp add: Gs)
    next
      case False
      then obtain n0 where "tree_pages t x = Some n0" using xn l by (auto simp: pg split: if_splits)
      with inv' have "g_ht G x \<le> g_ht G (root_page_id t)" by (simp add: inv_gen_def)
      with False qroot show ?thesis by (simp add: Gs t3s)
    qed
    show "page_ok t3 G' V' x n"
    proof -
      consider (q) "x = q" | (l) "x = l" | (par) "x = par" "x \<noteq> q" "x \<noteq> l"
        | (other) "x \<noteq> q" "x \<noteq> l" "x \<noteq> par" by blast
      then show ?thesis
      proof cases
        case q
        with xn have n: "n = newleaf" by (simp add: pg)
        have "\<forall>k \<in> fst ` set (drop h arr'). lo_le (Some m) k \<and> lt_hi k (g_hi G l)"
          using high rng sub(2) by auto
        then show ?thesis using ne(2) hh len srt
          by (simp add: q n newleaf_def page_ok_leaf Gs t3s sorted_wrt_drop drop_map [symmetric]
              del: drop_map)
      next
        case l
        with xn ql have n: "n = leaf2" by (simp add: pg)
        have "\<forall>k \<in> fst ` set (take h arr'). lo_le (g_lo G x) k \<and> lt_hi k (Some m)"
          using low rng sub(1) l by auto
        then show ?thesis using ne(1) hh len srt ql okl
          by (simp add: l n leaf2_def page_ok_leaf Gs t3s sorted_wrt_take take_map [symmetric]
              del: take_map)
      next
        case par
        with xn have n: "tree_pages t par = Some n" by (simp add: pg)
        from n alloc have "par \<noteq> INVALID_PAGE_ID" by (auto simp: dom_def INVALID_PAGE_ID_def)
        from parent [OF this] n obtain gpid gpar garr where
          g: "n = InternalPage gpid gpar (internal_max_size t) garr" "l \<in> snd ` set garr" by auto
        from inv_page [OF inv' n] g have ok: "gpid = par" "2 \<le> length garr"
          "length garr \<le> internal_max_size t"
          "kids_ok (g_lo G) (g_hi G) (g_lo G par) garr (g_hi G par)"
          "\<forall>c \<in> snd ` set garr. \<exists>cn. tree_pages t c = Some cn \<and> GetParentPageId cn = par \<and>
             Suc (g_ht G c) = g_ht G par"
          by (simp_all add: page_ok_internal)
        from ok(5) fresh have qn: "q \<notin> snd ` set garr" by auto
        have k: "kids_ok (g_lo G') (g_hi G') (g_lo G par) (ins_after l (m, q) garr) (g_hi G par)"
          by (rule kids_ok_ins_after [OF _ _ mlo mr(2) ok(4) kids_ok_distinct [OF ok(4)] g(2) qn])
             (simp_all add: G')
        from ok(5) g(2) okl have htp: "g_ht G par = Suc 0" by force
        have "\<exists>cn. tree_pages t3 c = Some cn \<and> GetParentPageId cn = par \<and>
             Suc (g_ht G' c) = g_ht G' par" if "c \<in> snd ` set (ins_after l (m, q) garr)" for c
        proof -
          from that set_ins_after [OF g(2), of "(m, q)"] have "c = q \<or> c \<in> snd ` set garr" by auto
          then show ?thesis
          proof
            assume "c = q"
            with par htp show ?thesis by (simp add: pg Gs newleaf_def)
          next
            assume c: "c \<in> snd ` set garr"
            with qn have cq: "c \<noteq> q" by auto
            from ok(5) c obtain cn where "tree_pages t c = Some cn" "GetParentPageId cn = par"
              "Suc (g_ht G c) = g_ht G par" by blast
            with cq par l show ?thesis by (cases "c = l") (auto simp: pg Gs leaf2_def)
          qed
        qed
        with k ok par show ?thesis
          by (simp add: g page_ok_internal V'_def Gs t3s)
      next
        case other
        with xn have n: "tree_pages t x = Some n" by (simp add: pg)
        from inv_page [OF inv' n] show ?thesis
        proof (rule page_ok_frame)
          fix c cn assume c: "tree_pages t c = Some cn" "GetParentPageId cn = x"
          with fresh have "c \<noteq> q" by auto
          moreover from c l other have "c \<noteq> l" by auto
          ultimately show "g_lo G' c = g_lo G c \<and> g_hi G' c = g_hi G c \<and> g_ht G' c = g_ht G c \<and>
              (\<exists>cn'. tree_pages t3 c = Some cn' \<and> GetParentPageId cn' = x)"
            using c by (simp add: pg Gs)
        qed (use other in \<open>simp_all add: t3s Gs V'_def\<close>)
      qed
    qed
    show "link_ok t3 G' V' x n" if ex: "x \<notin> E'"
    proof -
      consider (ql) "x = q \<or> x = l" | (other) "x \<noteq> q" "x \<noteq> l" by blast
      then show ?thesis
      proof cases
        case ql
        with ex have pi: "par \<noteq> INVALID_PAGE_ID" by (auto simp: E'_def split: if_splits)
        from parent [OF pi] obtain gpid gpar garr where
          g: "tree_pages t par = Some (InternalPage gpid gpar (internal_max_size t) garr)"
          "l \<in> snd ` set garr" "par \<noteq> l" "par \<noteq> q" "l \<noteq> root_page_id t" by blast
        from ql xn \<open>q \<noteq> l\<close> have "GetParentPageId n = par"
          by (auto simp: pg newleaf_def leaf2_def split: if_splits)
        moreover from ql set_ins_after [OF g(2), of "(m, q)"]
        have "x \<in> snd ` set (ins_after l (m, q) garr)" using g(2) by force
        ultimately show ?thesis using ql g qroot pi
          by (auto simp: link_ok_def t3s pg V'_def)
      next
        case other
        with xn have n: "tree_pages t x = Some n" by (simp add: pg)
        from inv_link [OF inv' n] show ?thesis
        proof (rule link_ok_frame)
          fix gn assume gn: "tree_pages t (GetParentPageId n) = Some gn" "\<not> IsLeafPage gn"
            "x \<in> snd ` set (internal_array gn)"
          from gn(1,2) l have "GetParentPageId n \<noteq> l" by auto
          moreover from gn(1) fresh have "GetParentPageId n \<noteq> q" by auto
          moreover have "x \<in> snd ` set (V' (GetParentPageId n) (internal_array gn))"
            using gn(3) set_ins_after_subset [of l "(m, q)" "internal_array gn"]
          proof (cases "l \<in> snd ` set (internal_array gn)")
            case True
            from set_ins_after [OF True, of "(m, q)"] gn(3) show ?thesis by (auto simp: V'_def)
          next
            case False
            with gn(3) show ?thesis by (simp add: V'_def)
          qed
          ultimately show "\<exists>gn'. tree_pages t3 (GetParentPageId n) = Some gn' \<and> \<not> IsLeafPage gn' \<and>
              x \<in> snd ` set (V' (GetParentPageId n) (internal_array gn'))"
            using gn by (auto simp: pg)
        qed (use other in \<open>simp_all add: t3s Gs\<close>)
      qed
    qed
  next
    from chain have c: "distinct (g_chain G)" "chain_from t G (g_chain G)"
      "set (g_chain G) = {p. \<exists>n. tree_pages t p = Some n \<and> IsLeafPage n}"
      "g_lo G (hd (g_chain G)) = None"
      by (simp_all add: leaf_chain_ok_def)
    from c(3) l have lc: "l \<in> set (g_chain G)" by auto
    from c(3) fresh have qc: "q \<notin> set (g_chain G)" by auto
    have gc: "g_chain G' = chain_ins l q (g_chain G)" by (simp add: G')
    have "chain_from t3 G' (chain_ins l q (g_chain G))"
      by (rule chain_from_split [where t = t and G = G and ln = ln and ln' = leaf2 and qn' = newleaf
            and m = m])
         (use ql l c(2,1) qc in \<open>auto simp: pg Gs leaf2_def newleaf_def ln_def\<close>)
    moreover have "distinct (chain_ins l q (g_chain G))"
      by (rule distinct_chain_ins [OF c(1) qc])
    moreover have "set (chain_ins l q (g_chain G)) = {p. \<exists>n. tree_pages t3 p = Some n \<and> IsLeafPage n}"
      unfolding set_chain_ins [OF lc] c(3) using l by (auto simp: pg newleaf_def leaf2_def)
    moreover have "g_lo G' (hd (chain_ins l q (g_chain G))) = None"
    proof -
      from lc have "g_chain G \<noteq> []" by auto
      then have "hd (chain_ins l q (g_chain G)) = hd (g_chain G)" by (rule hd_chain_ins)
      moreover from lc qc \<open>g_chain G \<noteq> []\<close> have "hd (g_chain G) \<noteq> q" by (cases "g_chain G") auto
      ultimately show ?thesis using c(4) by (simp add: Gs)
    qed
    ultimately show "leaf_chain_ok t3 G'" by (simp add: leaf_chain_ok_def gc)
  next
    fix x assume "x \<in> dom (tree_pages t3)"
    then have "x = q \<or> x \<in> dom (tree_pages t)" using l by (auto simp: pg split: if_splits)
    then have "x = q \<or> (0 \<le> x \<and> x < q)" using alloc q by blast
    with q0 show "0 \<le> x" "x < tree_next_page_id t3" by (auto simp: t3s)
  next
    from root qroot show "root_page_id t3 \<in> dom (tree_pages t3)"
      by (auto simp: t3s pg)
  qed (use lm im in \<open>simp_all add: t3s\<close>)
  moreover have "tree_pages t3 l = Some leaf2" "tree_pages t3 q = Some newleaf"
    using ql by (simp_all add: pg)
  moreover have "GetParentPageId newleaf = GetParentPageId leaf2" "GetParentPageId leaf2 = par"
    by (simp_all add: newleaf_def leaf2_def)
  moreover have "inv_gen t3 G' V' E' = inv_gen t3 G' (\<lambda>x arr. arr) {l, q}" if "par = INVALID_PAGE_ID"
  proof -
    have "inv_gen t3 G' V' E' = inv_gen t3 G' (\<lambda>x arr. arr) E'"
    proof (rule inv_gen_V_cong)
      fix x arr assume "x \<in> dom (tree_pages t3)"
      then have "x = q \<or> x \<in> dom (tree_pages t)" using l by (auto simp: pg split: if_splits)
      then have "x = q \<or> (0 \<le> x \<and> x < q)" using alloc q by blast
      with q0 have "0 \<le> x" by auto
      with that show "V' x arr = arr" by (auto simp: V'_def INVALID_PAGE_ID_def)
    qed
    with that show ?thesis by (simp add: E'_def)
  qed
  ultimately show ?thesis
    unfolding pending_def using ql rootcase okl
    by (auto simp: t3s Gs E'_def V'_def)
qed

subsection \<open>A new root\<close>

lemma pending_pages:
  assumes "pending t G p m q"
  shows "\<exists>pn qn V E. tree_pages t p = Some pn \<and> tree_pages t q = Some qn \<and> p \<noteq> q \<and>
           GetParentPageId qn = GetParentPageId pn \<and> inv_gen t G V E \<and>
           page_ok t G V p pn \<and> page_ok t G V q qn"
proof -
  from assms obtain pn qn where a: "tree_pages t p = Some pn" "tree_pages t q = Some qn" "p \<noteq> q"
    "GetParentPageId qn = GetParentPageId pn"
    and b: "if GetParentPageId pn = INVALID_PAGE_ID
         then inv_gen t G (\<lambda>x arr. arr) {p, q} \<and> root_page_id t = p \<and>
              g_lo G p = None \<and> g_hi G p = Some m \<and> g_lo G q = Some m \<and> g_hi G q = None \<and>
              g_ht G q = g_ht G p
         else inv_gen t G (\<lambda>x arr. if x = GetParentPageId pn then ins_after p (m, q) arr else arr) {}"
    unfolding pending_def by blast
  from b obtain V E where "inv_gen t G V E" by (auto split: if_splits)
  with a inv_page [OF this a(1)] inv_page [OF this a(2)] show ?thesis by blast
qed

lemma KeyAt_0:
  assumes "page_ok t G V p n" "2 \<le> leaf_max_size t"
  shows "KeyAt n 0 = Some (hd (keys_of n))"
proof (cases n)
  case (LeafPage pid par mx nx arr)
  with assms show ?thesis
    by (cases arr) (auto simp: page_ok_leaf KeyAt_def in_range_def)
next
  case (InternalPage pid par mx arr)
  with assms show ?thesis
    by (cases arr) (auto simp: page_ok_internal KeyAt_def in_range_def)
qed

lemma reparent_Some:
  "tree_pages t p = Some n \<Longrightarrow> reparent p x t = Some (put_page p (SetParentPageId x n) t)"
  by (simp add: reparent_def FetchPage_def)

lemma InsertIntoParent_root:
  assumes pend: "pending t G p m q" and pn: "tree_pages t p = Some pn"
    and root: "GetParentPageId pn = INVALID_PAGE_ID"
  shows "\<exists>t' G'. InsertIntoParent p m q t = Some t' \<and> tree_inv t' G' \<and> tree_keys t' = tree_keys t"
proof -
  from pend pn root obtain qn where qn: "tree_pages t q = Some qn" and pq: "p \<noteq> q"
    and qpar: "GetParentPageId qn = INVALID_PAGE_ID"
    and inv: "inv_gen t G (\<lambda>x arr. arr) {p, q}" and rt: "root_page_id t = p"
    and g: "g_lo G p = None" "g_hi G p = Some m" "g_lo G q = Some m" "g_hi G q = None"
      "g_ht G q = g_ht G p"
    unfolding pending_def by auto
  define r where "r = tree_next_page_id t"
  from inv have lm: "2 \<le> leaf_max_size t" and im: "3 \<le> internal_max_size t"
    and alloc: "\<forall>p \<in> dom (tree_pages t). 0 \<le> p \<and> p < tree_next_page_id t"
    and chain: "leaf_chain_ok t G"
    by (simp_all add: inv_gen_def)
  from alloc have fresh: "tree_pages t r = None"
    by (cases "tree_pages t r") (auto simp: dom_def r_def)
  with pn qn have rp: "r \<noteq> p" "r \<noteq> q" by auto
  from alloc pn have r0: "0 \<le> r" by (auto simp: dom_def r_def)
  from inv_page [OF inv pn] inv_page [OF inv qn] have ids: "GetPageId pn = p" "GetPageId qn = q"
    by (simp_all add: page_ok_def)
  define k0 where "k0 = hd (keys_of pn)"
  from KeyAt_0 [OF inv_page [OF inv pn] lm] have k0: "KeyAt pn 0 = Some k0" by (simp add: k0_def)
  define newroot where "newroot = (InternalPage r INVALID_PAGE_ID (internal_max_size t) [(k0, p), (m, q)]
    :: ('a, 'b) BPlusTreePage)"
  define t' where "t' = put_page q (SetParentPageId r qn) (put_page p (SetParentPageId r pn)
      (put_page r newroot (t\<lparr>tree_next_page_id := r + 1, root_page_id := r\<rparr>)))"
  define G' where "G' = G\<lparr>g_lo := (g_lo G)(r := None), g_hi := (g_hi G)(r := None),
      g_ht := (g_ht G)(r := Suc (g_ht G p))\<rparr>"
  have res: "InsertIntoParent p m q t = Some t'"
    using pn qn root k0 im ids rp pq
    by (subst InsertIntoParent.simps)
       (simp add: FetchPage_def IsRootPage_def Internal_Init_def array_Insert_def reparent_def
          t'_def newroot_def r_def Let_def)
  have pg: "tree_pages t' x = (if x = q then Some (SetParentPageId r qn)
      else if x = p then Some (SetParentPageId r pn)
      else if x = r then Some newroot else tree_pages t x)" for x
    by (simp add: t'_def)
  have ts: "root_page_id t' = r" "leaf_max_size t' = leaf_max_size t"
    "internal_max_size t' = internal_max_size t" "tree_next_page_id t' = r + 1"
    by (simp_all add: t'_def)
  have Gs: "g_lo G' x = (if x = r then None else g_lo G x)"
    "g_hi G' x = (if x = r then None else g_hi G x)"
    "g_ht G' x = (if x = r then Suc (g_ht G p) else g_ht G x)" "g_chain G' = g_chain G" for x
    by (simp_all add: G'_def)
  text \<open>Pages with a parent in the old tree are not the two halves and not the new root.\<close>
  have child: "c \<noteq> p \<and> c \<noteq> q \<and> c \<noteq> r" if "tree_pages t c = Some cn" "GetParentPageId cn = x"
    "tree_pages t x = Some n" for c cn x n
  proof -
    from that(3) alloc have "0 \<le> x" by (auto simp: dom_def)
    with that(1,2) pn qn root qpar fresh show ?thesis by (auto simp: INVALID_PAGE_ID_def)
  qed
  have "inv_gen t' G' (\<lambda>p arr. arr) {}"
    unfolding inv_gen_def
  proof (intro conjI allI impI ballI)
    fix x n assume xn: "tree_pages t' x = Some n"
    show "g_ht G' x \<le> g_ht G' (root_page_id t')"
    proof (cases "x = r")
      case True
      then show ?thesis by (simp add: Gs ts)
    next
      case False
      then obtain n0 where "tree_pages t x = Some n0" using xn pn qn by (auto simp: pg split: if_splits)
      with inv rt have "g_ht G x \<le> g_ht G p" by (auto simp: inv_gen_def)
      with False show ?thesis by (simp add: Gs ts)
    qed
    show "page_ok t' G' (\<lambda>p arr. arr) x n"
    proof (cases "x = r")
      case True
      with xn rp have n: "n = newroot" by (simp add: pg)
      show ?thesis using im rp pq g
        by (simp add: True n newroot_def page_ok_internal ts Gs pg)
    next
      case False
      then obtain n0 where n0: "tree_pages t x = Some n0" "n = n0 \<or> (\<exists>y. n = SetParentPageId y n0)"
        using xn pn qn by (auto simp: pg split: if_splits)
      have "page_ok t' G' (\<lambda>p arr. arr) x n0"
      proof (rule page_ok_frame [OF inv_page [OF inv n0(1)]])
        fix c cn assume c: "tree_pages t c = Some cn" "GetParentPageId cn = x"
        from child [OF this n0(1)] c
        show "g_lo G' c = g_lo G c \<and> g_hi G' c = g_hi G c \<and> g_ht G' c = g_ht G c \<and>
            (\<exists>cn'. tree_pages t' c = Some cn' \<and> GetParentPageId cn' = x)"
          by (simp add: pg Gs)
      qed (use False in \<open>simp_all add: ts Gs\<close>)
      with n0(2) show ?thesis by auto
    qed
    show "link_ok t' G' (\<lambda>p arr. arr) x n" if "x \<notin> {}"
    proof -
      consider (r) "x = r" | (pq) "x = p \<or> x = q" | (other) "x \<noteq> r" "x \<noteq> p" "x \<noteq> q" by blast
      then show ?thesis
      proof cases
        case r
        with xn rp have n: "n = newroot" by (simp add: pg)
        show ?thesis by (simp add: r n newroot_def link_ok_def ts Gs)
      next
        case pq
        with xn \<open>p \<noteq> q\<close> have "GetParentPageId n = r" by (auto simp: pg split: if_splits)
        with pq rp r0 show ?thesis
          by (auto simp: link_ok_def ts pg newroot_def INVALID_PAGE_ID_def)
      next
        case other
        with xn have n: "tree_pages t x = Some n" by (simp add: pg)
        from other have "x \<notin> {p, q}" by simp
        from inv_link [OF inv n this] show ?thesis
        proof (rule link_ok_frame)
          fix gn assume gn: "tree_pages t (GetParentPageId n) = Some gn" "\<not> IsLeafPage gn"
            "x \<in> snd ` set (internal_array gn)"
          from gn(1) fresh have "GetParentPageId n \<noteq> r" by auto
          with gn pn qn show "\<exists>gn'. tree_pages t' (GetParentPageId n) = Some gn' \<and> \<not> IsLeafPage gn' \<and>
              x \<in> snd ` set (internal_array gn')"
            by (auto simp: pg)
        qed (use other rt in \<open>simp_all add: ts Gs\<close>)
      qed
    qed
  next
    from chain have c: "distinct (g_chain G)" "chain_from t G (g_chain G)"
      "set (g_chain G) = {p. \<exists>n. tree_pages t p = Some n \<and> IsLeafPage n}"
      "g_lo G (hd (g_chain G)) = None"
      by (simp_all add: leaf_chain_ok_def)
    have "chain_from t' G' (g_chain G)"
    proof (rule chain_from_frame [OF _ c(2)])
      fix x n assume "tree_pages t x = Some n" "IsLeafPage n"
      moreover from this fresh have "x \<noteq> r" by auto
      ultimately show "g_lo G' x = g_lo G x \<and> g_hi G' x = g_hi G x \<and>
          (\<exists>n'. tree_pages t' x = Some n' \<and> IsLeafPage n' \<and> GetNextPageId n' = GetNextPageId n)"
        using pn qn by (auto simp: pg Gs)
    qed
    moreover have "{x. \<exists>n. tree_pages t' x = Some n \<and> IsLeafPage n} =
        {x. \<exists>n. tree_pages t x = Some n \<and> IsLeafPage n}"
      using pn qn fresh by (auto simp: pg newroot_def split: if_splits)
    moreover have "g_lo G' (hd (g_chain G)) = None" using c(4) by (simp add: Gs)
    ultimately show "leaf_chain_ok t' G'" using c by (simp add: leaf_chain_ok_def Gs)
  next
    fix x assume "x \<in> dom (tree_pages t')"
    then have "x = r \<or> x \<in> dom (tree_pages t)" using pn qn by (auto simp: pg split: if_splits)
    then have "x = r \<or> (0 \<le> x \<and> x < r)" using alloc by (auto simp: r_def)
    with r0 show "0 \<le> x" "x < tree_next_page_id t'" by (auto simp: ts)
  next
    from rp have "tree_pages t' r = Some newroot" by (simp add: pg)
    then show "root_page_id t' \<in> dom (tree_pages t')" unfolding ts by blast
  qed (use lm im in \<open>simp_all add: ts\<close>)
  moreover have "tree_keys t' = tree_keys t"
  proof (intro set_eqI tree_keys_cong)
    fix k x
    show "(\<exists>n. tree_pages t' x = Some n \<and> IsLeafPage n \<and> k \<in> set (keys_of n)) =
        (\<exists>n. tree_pages t x = Some n \<and> IsLeafPage n \<and> k \<in> set (keys_of n))"
      using pn qn fresh by (auto simp: pg newroot_def)
  qed
  ultimately show ?thesis using res by (auto simp: tree_inv_def)
qed

subsection \<open>The parent of a split page\<close>

lemma ins_after_distinctD:
  "distinct (map snd (ins_after p e arr)) \<Longrightarrow> p \<in> snd ` set arr \<Longrightarrow>
   snd e \<notin> snd ` set arr \<and> distinct (map snd arr)"
proof (induction arr)
  case Nil
  then show ?case by simp
next
  case (Cons x xs)
  show ?case
  proof (cases "snd x = p")
    case True
    with Cons.prems show ?thesis by auto
  next
    case False
    with Cons.prems have p: "p \<in> snd ` set xs" and d: "distinct (map snd (ins_after p e xs))"
      and x: "snd x \<notin> snd ` set (ins_after p e xs)" by auto
    from set_ins_after [OF p, of e] x have "snd x \<noteq> snd e" "snd x \<notin> snd ` set xs" by auto
    with Cons.IH [OF d p] show ?thesis by auto
  qed
qed

lemma virt_keys:
  assumes s: "sorted_wrt (<) (map fst (tl (take (Suc i) arr @ (m :: 'k :: linorder, q) # drop (Suc i) arr)))"
    and i: "i < length arr"
  shows "(1 \<le> i \<longrightarrow> fst (arr ! i) < m) \<and> (Suc i < length arr \<longrightarrow> m < fst (arr ! Suc i)) \<and>
         sorted_wrt (<) (map fst (tl arr))"
proof -
  from i obtain x xs where arr: "arr = x # xs" by (cases arr) auto
  with i have il: "i \<le> length xs" by simp
  from s arr have s': "sorted_wrt (<) (map fst (take i xs) @ m # map fst (drop i xs))"
    by (simp add: take_map drop_map)
  then have a: "\<forall>k \<in> set (map fst (take i xs)). k < m" "\<forall>k \<in> set (map fst (drop i xs)). m < k"
    "sorted_wrt (<) (map fst (take i xs))" "sorted_wrt (<) (map fst (drop i xs))"
    unfolding sorted_wrt_append by simp_all
  have "fst (arr ! i) < m" if "1 \<le> i"
  proof -
    from that il have "i - 1 < length (take i xs)" by simp
    then have "take i xs ! (i - 1) \<in> set (take i xs)" by (rule nth_mem)
    with that have "xs ! (i - 1) \<in> set (take i xs)" by simp
    with a(1) have "fst (xs ! (i - 1)) < m" by simp
    with that arr show ?thesis by (cases i) auto
  qed
  moreover have "m < fst (arr ! Suc i)" if "Suc i < length arr"
  proof -
    from that arr have "i < length xs" by simp
    then have "drop i xs = xs ! i # drop (Suc i) xs" by (simp add: Cons_nth_drop_Suc)
    then have "xs ! i \<in> set (drop i xs)" by simp
    with a(2) have "m < fst (xs ! i)" by simp
    with arr show ?thesis by simp
  qed
  moreover have "k < k'" if "k \<in> set (map fst (take i xs))" "k' \<in> set (map fst (drop i xs))" for k k'
  proof -
    from a(1,2) that have "k < m" "m < k'" by blast+
    then show ?thesis by simp
  qed
  then have "sorted_wrt (<) (map fst (take i xs) @ map fst (drop i xs))"
    using a(3,4) unfolding sorted_wrt_append by blast
  then have "sorted_wrt (<) (map fst (take i xs @ drop i xs))"
    unfolding map_append .
  then have "sorted_wrt (<) (map fst (tl arr))"
    by (simp add: arr)
  ultimately show ?thesis by blast
qed

lemma pending_parent:
  assumes pend: "pending t G p m q" and pn: "tree_pages t p = Some pn"
    and nroot: "GetParentPageId pn \<noteq> INVALID_PAGE_ID"
    and g_def: "g = GetParentPageId pn"
    and V_def: "V = (\<lambda>x arr. if x = g then ins_after p (m, q) arr else arr)"
  obtains qn gpar garr i where
    "inv_gen t G V {}"
    "tree_pages t q = Some qn" "p \<noteq> q" "GetParentPageId qn = g"
    "tree_pages t g = Some (InternalPage g gpar (internal_max_size t) garr)"
    "i < length garr" "snd (garr ! i) = p" "q \<notin> snd ` set garr" "distinct (map snd garr)"
    "ins_after p (m, q) garr = take (Suc i) garr @ (m, q) # drop (Suc i) garr"
    "slot_of garr m i" "sorted_wrt (<) (map fst (tl garr))"
    "2 \<le> length garr" "length garr \<le> internal_max_size t"
    "g \<noteq> p" "g \<noteq> q" "p \<noteq> root_page_id t"
    "g_ht G g = Suc (g_ht G p)"
    "kids_ok (g_lo G) (g_hi G) (g_lo G g) (ins_after p (m, q) garr) (g_hi G g)"
    "\<forall>c \<in> snd ` set (ins_after p (m, q) garr).
       \<exists>cn. tree_pages t c = Some cn \<and> GetParentPageId cn = g \<and> Suc (g_ht G c) = g_ht G g"
    "1 \<le> i \<longrightarrow> fst (garr ! i) < m" "Suc i < length garr \<longrightarrow> m < fst (garr ! Suc i)"
proof -
  from pend pn nroot obtain qn where qn: "tree_pages t q = Some qn" "p \<noteq> q"
    "GetParentPageId qn = g" and inv: "inv_gen t G V {}"
    unfolding pending_def g_def V_def by auto
  from inv_link [OF inv pn] nroot have pr: "p \<noteq> root_page_id t"
    by (auto simp: link_ok_def split: if_splits)
  with inv_link [OF inv pn] obtain gn where gn: "tree_pages t g = Some gn" "\<not> IsLeafPage gn"
    "p \<in> snd ` set (V g (internal_array gn))"
    by (auto simp: link_ok_def g_def)
  from IsLeafPage_cases(2) [OF gn(2)] obtain gpid gpar gmx garr where
    g: "gn = InternalPage gpid gpar gmx garr" by blast
  from inv_page [OF inv gn(1)] g have ok: "gpid = g" "gmx = internal_max_size t" "2 \<le> length garr"
    "length garr \<le> internal_max_size t"
    "kids_ok (g_lo G) (g_hi G) (g_lo G g) (ins_after p (m, q) garr) (g_hi G g)"
    "\<forall>c \<in> snd ` set (ins_after p (m, q) garr).
       \<exists>cn. tree_pages t c = Some cn \<and> GetParentPageId cn = g \<and> Suc (g_ht G c) = g_ht G g"
    by (simp_all add: page_ok_internal V_def)
  have pin: "p \<in> snd ` set garr"
  proof (rule ccontr)
    assume "p \<notin> snd ` set garr"
    with gn(3) g show False by (simp add: V_def)
  qed
  then obtain i where i: "i < length garr" "snd (garr ! i) = p"
    by (auto simp: in_set_conv_nth)
  from ins_after_distinctD [OF kids_ok_distinct [OF ok(5)] pin]
  have d: "q \<notin> snd ` set garr" "distinct (map snd garr)" by simp_all
  from ins_after_nth [OF d(2) i] have av: "ins_after p (m, q) garr =
      take (Suc i) garr @ (m, q) # drop (Suc i) garr" .
  from virt_keys [OF kids_ok_sorted [OF ok(5), unfolded av] i(1)]
  have vk: "1 \<le> i \<longrightarrow> fst (garr ! i) < m" "Suc i < length garr \<longrightarrow> m < fst (garr ! Suc i)"
    "sorted_wrt (<) (map fst (tl garr))" by simp_all
  have slot: "slot_of garr m i"
    unfolding slot_of_def
  proof (intro conjI)
    show "i < length garr" by (rule i(1))
    show "i = 0 \<or> fst (garr ! i) \<le> m" using vk(1) by (cases i) auto
    show "Suc i = length garr \<or> m < fst (garr ! Suc i)" using vk(2) i(1) by linarith
  qed
  from set_ins_after [OF pin, of "(m, q)"] have "p \<in> snd ` set (ins_after p (m, q) garr)"
    using pin by auto
  with ok(6) obtain cn where "tree_pages t p = Some cn" "Suc (g_ht G p) = g_ht G g" by blast
  then have ht: "g_ht G g = Suc (g_ht G p)" by simp
  have gp: "g \<noteq> p"
  proof
    assume "g = p"
    with ht show False by simp
  qed
  have gq: "g \<noteq> q"
  proof
    assume "g = q"
    from set_ins_after [OF pin, of "(m, q)"] have "q \<in> snd ` set (ins_after p (m, q) garr)" by force
    with ok(6) have "Suc (g_ht G q) = g_ht G g" by blast
    with \<open>g = q\<close> show False by simp
  qed
  show ?thesis
    by (rule that [OF inv qn gn(1) [unfolded g ok(1,2)] i d av slot vk(3) ok(3,4) gp gq pr ht ok(5,6)
          vk(1,2)])
qed

lemma InsertIntoParent_insert:
  assumes pend: "pending t G p m q" and pn: "tree_pages t p = Some pn"
    and nroot: "GetParentPageId pn \<noteq> INVALID_PAGE_ID"
    and gn: "tree_pages t (GetParentPageId pn) = Some gn" and room: "GetSize gn < GetMaxSize gn"
  shows "\<exists>t'. InsertIntoParent p m q t = Some t' \<and> tree_inv t' G \<and> tree_keys t' = tree_keys t"
proof -
  define g where "g = GetParentPageId pn"
  define V where "V = (\<lambda>x (arr :: ('a \<times> int) list). if x = g then ins_after p (m, q) arr else arr)"
  obtain qn gpar garr i where
    inv: "inv_gen t G V {}"
    and qn: "tree_pages t q = Some qn" "p \<noteq> q" "GetParentPageId qn = g"
    and g: "tree_pages t g = Some (InternalPage g gpar (internal_max_size t) garr)"
    and i: "i < length garr" "snd (garr ! i) = p" and qfresh: "q \<notin> snd ` set garr"
    and dist: "distinct (map snd garr)"
    and av: "ins_after p (m, q) garr = take (Suc i) garr @ (m, q) # drop (Suc i) garr"
    and slot: "slot_of garr m i" and srt: "sorted_wrt (<) (map fst (tl garr))"
    and len: "2 \<le> length garr" "length garr \<le> internal_max_size t"
    and ne: "g \<noteq> p" "g \<noteq> q" "p \<noteq> root_page_id t"
    and ht: "g_ht G g = Suc (g_ht G p)"
    and kok: "kids_ok (g_lo G) (g_hi G) (g_lo G g) (ins_after p (m, q) garr) (g_hi G g)"
    and kids: "\<forall>c \<in> snd ` set (ins_after p (m, q) garr).
       \<exists>cn. tree_pages t c = Some cn \<and> GetParentPageId cn = g \<and> Suc (g_ht G c) = g_ht G g"
    and strict: "1 \<le> i \<longrightarrow> fst (garr ! i) < m" "Suc i < length garr \<longrightarrow> m < fst (garr ! Suc i)"
    by (rule pending_parent [OF pend pn nroot g_def V_def])
  from gn g have gn': "gn = InternalPage g gpar (internal_max_size t) garr" by (simp add: g_def)
  with room have room': "length garr < internal_max_size t" by simp
  define newg where "newg = (InternalPage g gpar (internal_max_size t) (ins_after p (m, q) garr)
    :: ('a, 'b) BPlusTreePage)"
  define t' where "t' = put_page g newg t"
  from inv_page [OF inv qn(1)] have qid: "GetPageId qn = q" by (simp add: page_ok_def)
  from GetPosOnInternalPage_slot [OF len(2) _ srt, of g gpar m] len(1)
  obtain j where j: "GetPosOnInternalPage gn m = Some (int j)" "slot_of garr m j"
    by (auto simp: gn')
  from slot_of_unique [OF srt j(2) slot] have ji: "j = i" .
  have res: "InsertIntoParent p m q t = Some t'"
    using pn qn(1) nroot g j(1) ji i(1) room' qid av
    by (subst InsertIntoParent.simps)
       (simp add: FetchPage_def IsRootPage_def g_def [symmetric] gn' [symmetric] Let_def,
        simp add: gn' t'_def newg_def array_Insert_def nat_add_distrib)
  have pg: "tree_pages t' x = (if x = g then Some newg else tree_pages t x)" for x
    by (simp add: t'_def)
  have ts: "root_page_id t' = root_page_id t" "leaf_max_size t' = leaf_max_size t"
    "internal_max_size t' = internal_max_size t" "tree_next_page_id t' = tree_next_page_id t"
    by (simp_all add: t'_def)
  from inv have lm: "2 \<le> leaf_max_size t" and im: "3 \<le> internal_max_size t"
    and alloc: "\<forall>p \<in> dom (tree_pages t). 0 \<le> p \<and> p < tree_next_page_id t"
    and chain: "leaf_chain_ok t G" and root: "root_page_id t \<in> dom (tree_pages t)"
    by (simp_all add: inv_gen_def)
  have "inv_gen t' G (\<lambda>p arr. arr) {}"
    unfolding inv_gen_def
  proof (intro conjI allI impI ballI)
    fix x n assume xn: "tree_pages t' x = Some n"
    then obtain n0 where n0: "tree_pages t x = Some n0" using g by (auto simp: pg split: if_splits)
    with inv show "g_ht G x \<le> g_ht G (root_page_id t')" by (simp add: inv_gen_def ts)
    show "page_ok t' G (\<lambda>p arr. arr) x n"
    proof (cases "x = g")
      case True
      with xn have n: "n = newg" by (simp add: pg)
      note ok = kok kids
      have "\<exists>cn. tree_pages t' c = Some cn \<and> GetParentPageId cn = g \<and> Suc (g_ht G c) = g_ht G g"
        if "c \<in> snd ` set (ins_after p (m, q) garr)" for c
      proof -
        from ok(2) that obtain cn where c: "tree_pages t c = Some cn" "GetParentPageId cn = g"
          "Suc (g_ht G c) = g_ht G g" by blast
        then have "c \<noteq> g" by auto
        with c show ?thesis by (simp add: pg)
      qed
      with ok(1) len room' i(1) show ?thesis
        by (simp add: True n newg_def page_ok_internal ts av)
    next
      case False
      with xn have n: "tree_pages t x = Some n" by (simp add: pg)
      from inv_page [OF inv n] show ?thesis
      proof (rule page_ok_frame)
        fix c cn assume c: "tree_pages t c = Some cn" "GetParentPageId cn = x"
        then show "g_lo G c = g_lo G c \<and> g_hi G c = g_hi G c \<and> g_ht G c = g_ht G c \<and>
            (\<exists>cn'. tree_pages t' c = Some cn' \<and> GetParentPageId cn' = x)"
          using g by (auto simp: pg newg_def)
      qed (use False in \<open>simp_all add: ts V_def\<close>)
    qed
    show "link_ok t' G (\<lambda>p arr. arr) x n" if "x \<notin> {}"
    proof -
      have par: "GetParentPageId n = GetParentPageId n0"
        using xn n0 g by (auto simp: pg newg_def split: if_splits)
      from inv_link [OF inv n0] show ?thesis
      proof (rule link_ok_frame)
        fix hn assume h: "tree_pages t (GetParentPageId n0) = Some hn" "\<not> IsLeafPage hn"
          "x \<in> snd ` set (V (GetParentPageId n0) (internal_array hn))"
        show "\<exists>gn'. tree_pages t' (GetParentPageId n0) = Some gn' \<and> \<not> IsLeafPage gn' \<and>
            x \<in> snd ` set (internal_array gn')"
        proof (cases "GetParentPageId n0 = g")
          case True
          with h g have "hn = InternalPage g gpar (internal_max_size t) garr" by simp
          with h True show ?thesis by (simp add: pg newg_def V_def)
        next
          case False
          with h show ?thesis by (simp add: pg V_def)
        qed
      qed (simp_all add: par ts)
    qed
  next
    from chain have c: "distinct (g_chain G)" "chain_from t G (g_chain G)"
      "set (g_chain G) = {p. \<exists>n. tree_pages t p = Some n \<and> IsLeafPage n}"
      "g_lo G (hd (g_chain G)) = None"
      by (simp_all add: leaf_chain_ok_def)
    have "chain_from t' G (g_chain G)"
    proof (rule chain_from_frame [OF _ c(2)])
      fix x n assume "tree_pages t x = Some n" "IsLeafPage n"
      then show "g_lo G x = g_lo G x \<and> g_hi G x = g_hi G x \<and>
          (\<exists>n'. tree_pages t' x = Some n' \<and> IsLeafPage n' \<and> GetNextPageId n' = GetNextPageId n)"
        using g by (auto simp: pg)
    qed
    moreover have "{x. \<exists>n. tree_pages t' x = Some n \<and> IsLeafPage n} =
        {x. \<exists>n. tree_pages t x = Some n \<and> IsLeafPage n}"
      using g by (auto simp: pg newg_def split: if_splits)
    ultimately show "leaf_chain_ok t' G" using c by (simp add: leaf_chain_ok_def)
  next
    fix x assume "x \<in> dom (tree_pages t')"
    then have "x \<in> dom (tree_pages t)" using g by (auto simp: pg split: if_splits)
    with alloc show "0 \<le> x" "x < tree_next_page_id t'" by (auto simp: ts)
  next
    from root show "root_page_id t' \<in> dom (tree_pages t')" by (auto simp: ts pg)
  qed (use lm im in \<open>simp_all add: ts\<close>)
  moreover have "tree_keys t' = tree_keys t"
  proof (intro set_eqI tree_keys_cong)
    fix k x
    show "(\<exists>n. tree_pages t' x = Some n \<and> IsLeafPage n \<and> k \<in> set (keys_of n)) =
        (\<exists>n. tree_pages t x = Some n \<and> IsLeafPage n \<and> k \<in> set (keys_of n))"
      using g by (auto simp: pg newg_def)
  qed
  ultimately show ?thesis using res by (auto simp: tree_inv_def)
qed

subsection \<open>The split of a full parent: the entries\<close>

lemma array_Delete_last: "arr \<noteq> [] \<Longrightarrow> array_Delete (length arr - 1) arr = butlast arr"
  by (simp add: array_Delete_def butlast_conv_take)

lemma sorted_tl_butlast:
  "sorted_wrt (<) (map fst (tl arr)) \<Longrightarrow> sorted_wrt (<) (map fst (tl (butlast arr)))"
proof -
  assume s: "sorted_wrt (<) (map fst (tl arr))"
  have "tl (butlast arr) = butlast (tl arr)" by (cases arr) auto
  also have "\<dots> = take (length (tl arr) - 1) (tl arr)" by (simp add: butlast_conv_take)
  finally show ?thesis using s by (simp add: sorted_wrt_take take_map [symmetric] del: take_map)
qed

lemma full_arrays:
  fixes m :: "'k::linorder"
  assumes srt: "sorted_wrt (<) (map fst (tl garr))" and len: "2 \<le> length garr"
    and i: "i < length garr"
    and lo: "1 \<le> i \<longrightarrow> fst (garr ! i) < m" and hi: "Suc i < length garr \<longrightarrow> m < fst (garr ! Suc i)"
  shows "m < fst (last garr) \<Longrightarrow> slot_of (butlast garr) m j \<Longrightarrow>
         array_Insert (Suc j) (m, q) (butlast garr) @ [last garr] =
           take (Suc i) garr @ (m, q) # drop (Suc i) garr"
    and "\<not> m < fst (last garr) \<Longrightarrow> garr @ [(m, q)] = take (Suc i) garr @ (m, q) # drop (Suc i) garr"
proof -
  from len have ne: "garr \<noteq> []" by auto
  then have last: "last garr = garr ! (length garr - 1)" by (simp add: last_conv_nth)
  {
    assume lt: "m < fst (last garr)" and j: "slot_of (butlast garr) m j"
    have il: "Suc i < length garr"
    proof (rule ccontr)
      assume "\<not> Suc i < length garr"
      with i have e: "i = length garr - 1" by simp
      with len lo have "fst (garr ! i) < m" by auto
      with lt last e show False by simp
    qed
    have "slot_of (butlast garr) m i"
      unfolding slot_of_def
    proof (intro conjI)
      show "i < length (butlast garr)" using il by simp
      show "i = 0 \<or> fst (butlast garr ! i) \<le> m" using lo il by (cases i) (auto simp: nth_butlast)
      show "Suc i = length (butlast garr) \<or> m < fst (butlast garr ! Suc i)"
      proof (cases "Suc i = length (butlast garr)")
        case False
        with il have "Suc i < length (butlast garr)" by simp
        with hi il show ?thesis by (simp add: nth_butlast)
      qed simp
    qed
    from slot_of_unique [OF sorted_tl_butlast [OF srt] j this] have ji: "j = i" .
    have a: "take (Suc i) (butlast garr) = take (Suc i) garr"
      using il by (simp add: butlast_conv_take)
    have b: "drop (Suc i) (butlast garr) @ [last garr] = drop (Suc i) garr"
    proof -
      have "drop (Suc i) garr \<noteq> []" using il by simp
      from append_butlast_last_id [OF this]
      have "butlast (drop (Suc i) garr) @ [last (drop (Suc i) garr)] = drop (Suc i) garr" .
      moreover have "last (drop (Suc i) garr) = last garr" using il by simp
      ultimately have "butlast (drop (Suc i) garr) @ [last garr] = drop (Suc i) garr"
        by (simp only:)
      then show ?thesis by (simp only: drop_butlast)
    qed
    show "array_Insert (Suc j) (m, q) (butlast garr) @ [last garr] =
           take (Suc i) garr @ (m, q) # drop (Suc i) garr"
      using a b by (simp add: array_Insert_def ji)
  }
  {
    assume ge: "\<not> m < fst (last garr)"
    have "Suc i = length garr"
    proof (rule ccontr)
      assume "Suc i \<noteq> length garr"
      with i have il: "Suc i < length garr" by simp
      with hi have mi: "m < fst (garr ! Suc i)" by simp
      have "fst (garr ! Suc i) \<le> fst (last garr)"
      proof (cases "Suc i = length garr - 1")
        case True
        with last show ?thesis by simp
      next
        case False
        with il have "Suc i < length garr - 1" by simp
        moreover from len have "length garr - 1 < length garr" by simp
        ultimately have "fst (garr ! Suc i) < fst (garr ! (length garr - 1))"
          by (intro sorted_tl_nth [OF srt]) simp_all
        with last show ?thesis by simp
      qed
      with mi ge show False by simp
    qed
    then show "garr @ [(m, q)] = take (Suc i) garr @ (m, q) # drop (Suc i) garr" by simp
  }
qed

subsection \<open>Handing children to a new parent\<close>

lemma SetParentPageId_idem [simp]:
  "SetParentPageId x (SetParentPageId y n) = SetParentPageId x n"
  by (cases n) simp_all

lemma reparent_children_ok:
  fixes node :: "('k, 'v) BPlusTreePage" and t :: "('k, 'v) BPlusTree"
  assumes node: "node = InternalPage pid par mx arr" and len: "length arr \<le> mx"
  shows "\<forall>i \<in> set idx. i < length arr \<and> tree_pages t (snd (arr ! i)) \<noteq> None \<Longrightarrow>
         reparent_children node idx x t =
           Some (t\<lparr>tree_pages := (\<lambda>y. if y \<in> (\<lambda>i. snd (arr ! i)) ` set idx
                                        then map_option (SetParentPageId x) (tree_pages t y)
                                        else tree_pages t y)\<rparr>)"
proof (induction idx arbitrary: t)
  case Nil
  then show ?case by simp
next
  case (Cons i idx)
  define c where "c = snd (arr ! i)"
  from Cons.prems obtain cn where cn: "tree_pages t c = Some cn" and il: "i < length arr"
    by (auto simp: c_def)
  have v: "Internal_ValueAt node (int i) = Some c"
    using il len by (simp add: node Internal_ValueAt_def in_range_def c_def)
  define t1 where "t1 = put_page c (SetParentPageId x cn) t"
  have r: "reparent c x t = Some t1" using cn by (simp add: reparent_Some t1_def)
  have "\<forall>i \<in> set idx. i < length arr \<and> tree_pages t1 (snd (arr ! i)) \<noteq> None"
    using Cons.prems by (auto simp: t1_def)
  from Cons.IH [OF this] v r
  have "reparent_children node (i # idx) x t =
      Some (t1\<lparr>tree_pages := (\<lambda>y. if y \<in> (\<lambda>i. snd (arr ! i)) ` set idx
                                        then map_option (SetParentPageId x) (tree_pages t1 y)
                                        else tree_pages t1 y)\<rparr>)"
    by simp
  also have "t1\<lparr>tree_pages := (\<lambda>y. if y \<in> (\<lambda>i. snd (arr ! i)) ` set idx
                                        then map_option (SetParentPageId x) (tree_pages t1 y)
                                        else tree_pages t1 y)\<rparr> =
      t\<lparr>tree_pages := (\<lambda>y. if y \<in> (\<lambda>i. snd (arr ! i)) ` set (i # idx)
                                        then map_option (SetParentPageId x) (tree_pages t y)
                                        else tree_pages t y)\<rparr>"
    using cn by (auto simp: t1_def put_page_def c_def fun_eq_iff)
  finally show ?case .
qed

lemma reparent_children_all:
  fixes node :: "('k, 'v) BPlusTreePage" and t :: "('k, 'v) BPlusTree"
  assumes node: "node = InternalPage pid par mx arr" and len: "length arr \<le> mx"
    and dom: "\<forall>c \<in> snd ` set arr. tree_pages t c \<noteq> None"
  shows "reparent_children node [0 ..< GetSize node] x t =
           Some (t\<lparr>tree_pages := (\<lambda>y. if y \<in> snd ` set arr
                                        then map_option (SetParentPageId x) (tree_pages t y)
                                        else tree_pages t y)\<rparr>)"
proof -
  have "\<forall>i \<in> set [0 ..< length arr]. i < length arr \<and> tree_pages t (snd (arr ! i)) \<noteq> None"
    using dom by auto
  from reparent_children_ok [OF node len this, of x]
  have "reparent_children node [0 ..< length arr] x t =
      Some (t\<lparr>tree_pages := (\<lambda>y. if y \<in> (\<lambda>i. snd (arr ! i)) ` set [0 ..< length arr]
                                        then map_option (SetParentPageId x) (tree_pages t y)
                                        else tree_pages t y)\<rparr>)" .
  moreover have "map (\<lambda>i. snd (arr ! i)) [0 ..< length arr] = map snd arr"
    by (rule nth_equalityI) simp_all
  then have "set (map (\<lambda>i. snd (arr ! i)) [0 ..< length arr]) = set (map snd arr)" by simp
  then have "(\<lambda>i. snd (arr ! i)) ` set [0 ..< length arr] = snd ` set arr"
    unfolding set_map .
  ultimately show ?thesis by (simp add: node)
qed

subsection \<open>The split of a full parent: the call\<close>

lemma InsertIntoParent_split_eq:
  fixes t :: "('k::linorder, 'v) BPlusTree"
  assumes pn: "tree_pages t p = Some pn" and qn: "tree_pages t q = Some qn" and qid: "GetPageId qn = q"
    and nroot: "GetParentPageId pn \<noteq> INVALID_PAGE_ID" and g: "g = GetParentPageId pn"
    and gn: "tree_pages t g = Some (InternalPage g gpar (internal_max_size t) garr)"
    and full: "length garr = internal_max_size t" and im: "3 \<le> internal_max_size t"
    and srt: "sorted_wrt (<) (map fst (tl garr))" and i: "i < length garr"
    and lo: "1 \<le> i \<longrightarrow> fst (garr ! i) < m" and hi: "Suc i < length garr \<longrightarrow> m < fst (garr ! Suc i)"
    and av: "av = take (Suc i) garr @ (m, q) # drop (Suc i) garr"
    and h: "h = internal_max_size t div 2 + 1" and np: "np = tree_next_page_id t"
    and fresh: "np \<noteq> g" "np \<notin> snd ` set (drop h av)" "g \<notin> snd ` set (drop h av)"
    and dom: "\<forall>c \<in> snd ` set (drop h av). tree_pages t c \<noteq> None"
    and t3: "t3 = t\<lparr>tree_next_page_id := np + 1,
        tree_pages := (\<lambda>y. if y \<in> snd ` set (drop h av)
           then map_option (SetParentPageId np) (tree_pages t y)
           else if y = np then Some (InternalPage np gpar (internal_max_size t) (drop h av))
           else if y = g then Some (InternalPage g gpar (internal_max_size t) (take h av))
           else tree_pages t y)\<rparr>"
  shows "InsertIntoParent p m q t = InsertIntoParent g (fst (hd (drop h av))) np t3"
proof -
  define im where "im = internal_max_size t"
  define gnode where "gnode = (InternalPage g gpar im garr :: ('k, 'v) BPlusTreePage)"
  define newg where "newg = (InternalPage g gpar im (take h av) :: ('k, 'v) BPlusTreePage)"
  define newp where "newp = (InternalPage np gpar im (drop h av) :: ('k, 'v) BPlusTreePage)"
  define t1 where "t1 = t\<lparr>tree_next_page_id := np + 1\<rparr>"
  define t2 where "t2 = put_page np newp (put_page g newg t1)"
  from im full have len: "2 \<le> length garr" "garr \<noteq> []" by (auto simp: im_def)
  have hl: "h \<le> length garr" "1 \<le> h" using im full by (auto simp: h)
  have lav: "length av = Suc (length garr)" using i by (simp add: av)
  have last: "KeyAt gnode (int (GetSize gnode) - 1) = Some (fst (last garr))"
    using len full
    by (simp add: gnode_def KeyAt_def in_range_def last_conv_nth im_def nat_diff_distrib' of_nat_diff)
  have lastv: "Internal_ValueAt gnode (int (GetSize gnode) - 1) = Some (snd (last garr))"
    using len full
    by (simp add: gnode_def Internal_ValueAt_def in_range_def last_conv_nth im_def
        nat_diff_distrib' of_nat_diff)
  have del: "Internal_Delete (int (GetSize gnode) - 1) gnode = Some (InternalPage g gpar im (butlast garr))"
    using len array_Delete_last [OF len(2)]
    by (simp add: gnode_def nat_diff_distrib' of_nat_diff)
  text \<open>The entries before the split, in both branches.\<close>
  have branch: "\<exists>ek ev A1.
      (if comparator m (fst (last garr)) = - 1
       then do {
              last_value \<leftarrow> Internal_ValueAt gnode (int (GetSize gnode) - 1);
              p1 \<leftarrow> Internal_Delete (int (GetSize gnode) - 1) gnode;
              pos \<leftarrow> GetPosOnInternalPage p1 m;
              p2 \<leftarrow> Internal_Insert (pos + 1) m (GetPageId qn) p1;
              Some (fst (last garr), last_value, p2)
            }
       else Some (m, GetPageId qn, gnode)) = Some (ek, ev, InternalPage g gpar im A1) \<and>
      A1 @ [(ek, ev)] = av \<and> length A1 = im"
  proof (cases "m < fst (last garr)")
    case True
    have "length (butlast garr) \<le> im" "1 \<le> length (butlast garr)" using len full by (auto simp: im_def)
    from GetPosOnInternalPage_slot [OF this sorted_tl_butlast [OF srt], of g gpar m]
    obtain j where j: "GetPosOnInternalPage
        (InternalPage g gpar im (butlast garr) :: ('k, 'v) BPlusTreePage) m = Some (int j)"
      "slot_of (butlast garr) m j" by blast
    from full_arrays(1) [OF srt len(1) i lo hi True j(2)]
    have a: "array_Insert (Suc j) (m, q) (butlast garr) @ [last garr] = av" by (simp add: av)
    from j(2) have jl: "j < length (butlast garr)" by (simp add: slot_of_def)
    have ins: "Internal_Insert (int j + 1) m q
        (InternalPage g gpar im (butlast garr) :: ('k, 'v) BPlusTreePage) =
        Some (InternalPage g gpar im (array_Insert (Suc j) (m, q) (butlast garr)))"
      using jl len full by (simp add: im_def nat_add_distrib) arith
    have "length (array_Insert (Suc j) (m, q) (butlast garr)) = im"
      using jl len full by (simp add: im_def)
    moreover have "(if comparator m (fst (last garr)) = - 1
       then do {
              last_value \<leftarrow> Internal_ValueAt gnode (int (GetSize gnode) - 1);
              p1 \<leftarrow> Internal_Delete (int (GetSize gnode) - 1) gnode;
              pos \<leftarrow> GetPosOnInternalPage p1 m;
              p2 \<leftarrow> Internal_Insert (pos + 1) m (GetPageId qn) p1;
              Some (fst (last garr), last_value, p2)
            }
       else Some (m, GetPageId qn, gnode)) =
       Some (fst (last garr), snd (last garr),
             InternalPage g gpar im (array_Insert (Suc j) (m, q) (butlast garr)))"
      using True
      by (simp only: comparator_less if_True lastv del j(1) ins qid bind.bind_lunit)
    moreover have "array_Insert (Suc j) (m, q) (butlast garr) @ [(fst (last garr), snd (last garr))] = av"
      using a by simp
    ultimately show ?thesis by blast
  next
    case False
    from full_arrays(2) [OF srt len(1) i lo hi False] have "garr @ [(m, q)] = av" by (simp add: av)
    with False qid full show ?thesis by (simp add: gnode_def im_def)
  qed
  then obtain ek ev A1 where br:
    "(if comparator m (fst (last garr)) = - 1
       then do {
              last_value \<leftarrow> Internal_ValueAt gnode (int (GetSize gnode) - 1);
              p1 \<leftarrow> Internal_Delete (int (GetSize gnode) - 1) gnode;
              pos \<leftarrow> GetPosOnInternalPage p1 m;
              p2 \<leftarrow> Internal_Insert (pos + 1) m (GetPageId qn) p1;
              Some (fst (last garr), last_value, p2)
            }
       else Some (m, GetPageId qn, gnode)) = Some (ek, ev, InternalPage g gpar im A1)"
    and A1: "A1 @ [(ek, ev)] = av" "length A1 = im" by blast
  have hA: "h \<le> length A1" using hl A1(2) full by (simp add: im_def)
  have tk: "take h A1 = take h av" "drop h A1 @ [(ek, ev)] = drop h av"
    using hA A1(1) [symmetric] by simp_all
  have split: "Internal_Split (InternalPage g gpar im A1) (Internal_Init np gpar im) ek ev =
      Some (newg, newp)"
  proof -
    have "length A1 div 2 + 1 \<le> length A1" using A1(2) im by (simp add: im_def)
    moreover have "length A1 div 2 + 1 = h" using A1(2) by (simp add: h im_def)
    moreover have "length (drop h A1) \<noteq> im" using hl A1(2) im by (simp add: im_def)
    moreover have "int (length A1 - length A1 div 2 - 1) = int (length (drop h A1))"
      using A1(2) by (simp add: h im_def)
    ultimately show ?thesis
      using tk by (simp add: Internal_Init_def newg_def newp_def array_Insert_def)
  qed
  have lp: "length (drop h av) \<le> im" using lav full hl by (simp add: im_def)
  have dom2: "\<forall>c \<in> snd ` set (drop h av). tree_pages t2 c \<noteq> None"
    using dom fresh by (auto simp: t2_def t1_def)
  from reparent_children_all [OF newp_def lp dom2, of np]
  have rc: "reparent_children newp [0 ..< GetSize newp] (GetPageId newp) t2 =
      Some (t2\<lparr>tree_pages := (\<lambda>y. if y \<in> snd ` set (drop h av)
                                        then map_option (SetParentPageId np) (tree_pages t2 y)
                                        else tree_pages t2 y)\<rparr>)"
    by (simp add: newp_def)
  have t3': "t2\<lparr>tree_pages := (\<lambda>y. if y \<in> snd ` set (drop h av)
                                        then map_option (SetParentPageId np) (tree_pages t2 y)
                                        else tree_pages t2 y)\<rparr> = t3"
    using fresh by (auto simp: t3 t2_def t1_def put_page_def newp_def newg_def im_def fun_eq_iff)
  have f3: "FetchPage t3 np = Some newp"
    using fresh by (simp add: t3 FetchPage_def newp_def im_def)
  have "drop h av \<noteq> []" using lav hl by simp
  then have k0: "KeyAt newp 0 = Some (fst (hd (drop h av)))"
    using im by (cases "drop h av") (auto simp: newp_def KeyAt_def in_range_def im_def)
  have gfull: "\<not> GetSize gnode < GetMaxSize gnode" "\<not> IsLeafPage gnode"
    "GetParentPageId gnode = gpar"
    using full by (simp_all add: gnode_def im_def)
  have nroot': "g \<noteq> INVALID_PAGE_ID" using nroot g by simp
  have im1: "internal_max_size t1 = im" by (simp add: t1_def im_def)
  show ?thesis
    apply (subst InsertIntoParent.simps)
    apply (simp only: FetchPage_def pn qn option.simps bind.bind_lunit IsRootPage_def nroot if_False
        Let_def g [symmetric] gn im_def [symmetric] gnode_def [symmetric] gfull NewPage_simp
        prod.case np [symmetric] last br split)
    apply (simp add: t1_def [symmetric] nroot' im1 split t2_def [symmetric] rc t3'
        f3 [unfolded FetchPage_def] k0)
    done
qed


subsection \<open>The split of a full parent: the invariant\<close>

lemma InsertIntoParent_split:
  fixes t :: "('k::linorder, 'v) BPlusTree"
  assumes pend: "pending t G p m q" and pn: "tree_pages t p = Some pn"
    and nroot: "GetParentPageId pn \<noteq> INVALID_PAGE_ID"
    and gn: "tree_pages t (GetParentPageId pn) = Some gn" and nroom: "\<not> GetSize gn < GetMaxSize gn"
  shows "\<exists>t3 G' m' np. InsertIntoParent p m q t = InsertIntoParent (GetParentPageId pn) m' np t3 \<and>
      pending t3 G' (GetParentPageId pn) m' np \<and> tree_keys t3 = tree_keys t \<and>
      root_page_id t3 = root_page_id t \<and> g_ht G' (root_page_id t) = g_ht G (root_page_id t) \<and>
      g_ht G' (GetParentPageId pn) = Suc (g_ht G p) \<and> g_ht G p < g_ht G (root_page_id t)"
proof -
  define g where "g = GetParentPageId pn"
  define V where "V = (\<lambda>x (arr :: ('k \<times> int) list). if x = g then ins_after p (m, q) arr else arr)"
  obtain qn gpar garr i where
    inv: "inv_gen t G V {}"
    and qn: "tree_pages t q = Some qn" "p \<noteq> q" "GetParentPageId qn = g"
    and g: "tree_pages t g = Some (InternalPage g gpar (internal_max_size t) garr)"
    and i: "i < length garr" "snd (garr ! i) = p" and qfresh: "q \<notin> snd ` set garr"
    and dist: "distinct (map snd garr)"
    and av: "ins_after p (m, q) garr = take (Suc i) garr @ (m, q) # drop (Suc i) garr"
    and slot: "slot_of garr m i" and srt: "sorted_wrt (<) (map fst (tl garr))"
    and len: "2 \<le> length garr" "length garr \<le> internal_max_size t"
    and ne: "g \<noteq> p" "g \<noteq> q" "p \<noteq> root_page_id t"
    and ht: "g_ht G g = Suc (g_ht G p)"
    and kok: "kids_ok (g_lo G) (g_hi G) (g_lo G g) (ins_after p (m, q) garr) (g_hi G g)"
    and kids: "\<forall>c \<in> snd ` set (ins_after p (m, q) garr).
       \<exists>cn. tree_pages t c = Some cn \<and> GetParentPageId cn = g \<and> Suc (g_ht G c) = g_ht G g"
    and strict: "1 \<le> i \<longrightarrow> fst (garr ! i) < m" "Suc i < length garr \<longrightarrow> m < fst (garr ! Suc i)"
    by (rule pending_parent [OF pend pn nroot g_def V_def])
  from gn g have gn': "gn = InternalPage g gpar (internal_max_size t) garr" by (simp add: g_def)
  with nroom len have full: "length garr = internal_max_size t" by simp
  from inv have lm: "2 \<le> leaf_max_size t" and im: "3 \<le> internal_max_size t"
    and alloc: "\<forall>p \<in> dom (tree_pages t). 0 \<le> p \<and> p < tree_next_page_id t"
    and chain: "leaf_chain_ok t G" and root: "root_page_id t \<in> dom (tree_pages t)"
    and bound: "\<forall>x n. tree_pages t x = Some n \<longrightarrow> g_ht G x \<le> g_ht G (root_page_id t)"
    by (simp_all add: inv_gen_def)
  define np where "np = tree_next_page_id t"
  define h where "h = internal_max_size t div 2 + 1"
  define avv where "avv = ins_after p (m, q) garr"
  define L where "L = take h avv"
  define R where "R = drop h avv"
  define M where "M = snd ` set R"
  define m' where "m' = fst (hd R)"
  define newg where "newg = (InternalPage g gpar (internal_max_size t) L :: ('k, 'v) BPlusTreePage)"
  define newp where "newp = (InternalPage np gpar (internal_max_size t) R :: ('k, 'v) BPlusTreePage)"
  define t3 where "t3 = t\<lparr>tree_next_page_id := np + 1,
        tree_pages := (\<lambda>y. if y \<in> M
           then map_option (SetParentPageId np) (tree_pages t y)
           else if y = np then Some newp
           else if y = g then Some newg
           else tree_pages t y)\<rparr>"
  define G' where "G' = G\<lparr>g_lo := (g_lo G)(np := Some m'),
      g_hi := (g_hi G)(g := Some m', np := g_hi G g),
      g_ht := (g_ht G)(np := g_ht G g)\<rparr>"
  define V2 where "V2 = (\<lambda>x (arr :: ('k \<times> int) list). if x = gpar then ins_after g (m', np) arr else arr)"
  define E2 where "E2 = (if gpar = INVALID_PAGE_ID then {g, np} else {})"
  have avv: "avv = take (Suc i) garr @ (m, q) # drop (Suc i) garr" by (simp add: avv_def av)
  have kok': "kids_ok (g_lo G) (g_hi G) (g_lo G g) avv (g_hi G g)" using kok by (simp add: avv_def)
  have kids': "\<forall>c \<in> snd ` set avv.
       \<exists>cn. tree_pages t c = Some cn \<and> GetParentPageId cn = g \<and> Suc (g_ht G c) = g_ht G g"
    using kids by (simp add: avv_def)
  text \<open>Sizes.\<close>
  have lavv: "length avv = Suc (internal_max_size t)" using i full by (simp add: avv)
  have hb: "2 \<le> h" "h \<le> internal_max_size t" using im by (simp_all add: h_def)
  have lL: "length L = h" using lavv hb by (simp add: L_def)
  have lR: "2 \<le> length R" "length R \<le> internal_max_size t"
    using lavv hb im by (simp_all add: R_def h_def)
  have LR: "avv = L @ R" by (simp add: L_def R_def)
  have Lne: "L \<noteq> []" and Rne: "R \<noteq> []" using lL hb lR by auto
  text \<open>The fresh page and the pages around.\<close>
  have fresh: "tree_pages t np = None"
  proof (rule ccontr)
    assume "tree_pages t np \<noteq> None"
    then have "np \<in> dom (tree_pages t)" by blast
    with alloc show False by (auto simp: np_def)
  qed
  have np0: "0 \<le> np"
  proof -
    from root alloc have "0 \<le> root_page_id t \<and> root_page_id t < tree_next_page_id t" by blast
    then show ?thesis by (simp add: np_def)
  qed
  have dom0: "x \<noteq> INVALID_PAGE_ID" if "tree_pages t x = Some n" for x n
  proof -
    from that have "x \<in> dom (tree_pages t)" by blast
    with alloc have "0 \<le> x" by blast
    then show ?thesis by (simp add: INVALID_PAGE_ID_def)
  qed
  have npi: "np \<noteq> INVALID_PAGE_ID" using np0 by (simp add: INVALID_PAGE_ID_def)
  have gi: "g \<noteq> INVALID_PAGE_ID" using nroot by (simp add: g_def)
  have npg: "np \<noteq> g" using fresh g by auto
  have Msub: "M \<subseteq> snd ` set avv" "snd ` set L \<subseteq> snd ` set avv" by (auto simp: M_def LR)
  have Mkid: "\<exists>cn. tree_pages t c = Some cn \<and> GetParentPageId cn = g \<and> Suc (g_ht G c) = g_ht G g"
    if "c \<in> snd ` set avv" for c using kids' that by blast
  have gM: "g \<notin> snd ` set avv"
  proof
    assume "g \<in> snd ` set avv"
    from Mkid [OF this] show False by auto
  qed
  have npM: "np \<notin> snd ` set avv"
  proof
    assume "np \<in> snd ` set avv"
    from Mkid [OF this] fresh show False by auto
  qed
  from kids_ok_distinct [OF kok'] have "distinct (map snd L @ map snd R)" by (simp add: LR)
  then have disj: "snd ` set L \<inter> M = {}" by (auto simp: M_def)
  have pg: "tree_pages t3 x = (if x \<in> M then map_option (SetParentPageId np) (tree_pages t x)
      else if x = np then Some newp else if x = g then Some newg else tree_pages t x)" for x
    by (simp add: t3_def)
  have ts: "root_page_id t3 = root_page_id t" "leaf_max_size t3 = leaf_max_size t"
    "internal_max_size t3 = internal_max_size t" "tree_next_page_id t3 = np + 1"
    by (simp_all add: t3_def)
  have Gs: "g_lo G' x = (if x = np then Some m' else g_lo G x)"
    "g_hi G' x = (if x = np then g_hi G g else if x = g then Some m' else g_hi G x)"
    "g_ht G' x = (if x = np then g_ht G g else g_ht G x)" "g_chain G' = g_chain G" for x
    by (simp_all add: G'_def)
  text \<open>The call.\<close>
  have call: "InsertIntoParent p m q t = InsertIntoParent g m' np t3"
    unfolding m'_def R_def
  proof (rule InsertIntoParent_split_eq [OF pn qn(1) _ nroot g_def g full im srt i(1) strict avv
        h_def np_def])
    from inv_page [OF inv qn(1)] show "GetPageId qn = q" by (simp add: page_ok_def)
    show "np \<noteq> g" by (rule npg)
    show "np \<notin> snd ` set (drop h avv)" using npM Msub by (auto simp: M_def R_def)
    show "g \<notin> snd ` set (drop h avv)" using gM Msub by (auto simp: M_def R_def)
    show "\<forall>c \<in> snd ` set (drop h avv). tree_pages t c \<noteq> None"
    proof
      fix c assume "c \<in> snd ` set (drop h avv)"
      with Msub have "c \<in> snd ` set avv" by (auto simp: M_def R_def)
      from Mkid [OF this] show "tree_pages t c \<noteq> None" by auto
    qed
    show "t3 = t\<lparr>tree_next_page_id := np + 1,
        tree_pages := (\<lambda>y. if y \<in> snd ` set (drop h avv)
           then map_option (SetParentPageId np) (tree_pages t y)
           else if y = np then Some (InternalPage np gpar (internal_max_size t) (drop h avv))
           else if y = g then Some (InternalPage g gpar (internal_max_size t) (take h avv))
           else tree_pages t y)\<rparr>"
      unfolding t3_def M_def R_def L_def newp_def newg_def by (rule refl)
  qed
  text \<open>The ranges of the two halves.\<close>
  from kok' have kL: "kids_ok (g_lo G) (g_hi G) (g_lo G g) L (Some m')"
    and kR: "kids_ok (g_lo G) (g_hi G) (Some m') R (g_hi G g)"
    using kids_ok_append [OF Lne Rne] by (simp_all add: LR m'_def)
  have "m' \<in> fst ` set (tl avv)"
  proof -
    from Rne have "hd R \<in> set R" by simp
    moreover from Lne have "set R \<subseteq> set (tl avv)" by (cases L) (auto simp: LR)
    ultimately show ?thesis by (auto simp: m'_def)
  qed
  from kids_ok_keys [OF kok' this] have mr: "lo_lt (g_lo G g) m'" "lt_hi m' (g_hi G g)" by simp_all
  have same: "kids_ok (g_lo G') (g_hi G') l arr u = kids_ok (g_lo G) (g_hi G) l arr u"
    if "snd ` set arr \<subseteq> snd ` set avv" for l u arr
  proof (rule kids_ok_cong)
    fix c assume "c \<in> snd ` set arr"
    with that gM npM have "c \<noteq> g" "c \<noteq> np" by auto
    then show "g_lo G' c = g_lo G c \<and> g_hi G' c = g_hi G c" by (simp add: Gs)
  qed
  text \<open>The parent of the parent.\<close>
  have glink: "link_ok t G V g (InternalPage g gpar (internal_max_size t) garr)"
    by (rule inv_link [OF inv g]) simp
  have gpg: "gpar \<noteq> g"
  proof
    assume e: "gpar = g"
    with gi glink have "g \<in> snd ` set (V g garr)" using g
      by (auto simp: link_ok_def split: if_splits)
    with gM show False by (simp add: V_def avv_def)
  qed
  have gpnp: "gpar \<noteq> np"
  proof
    assume e: "gpar = np"
    with npi glink fresh show False by (auto simp: link_ok_def split: if_splits)
  qed
  have groot: "(gpar = INVALID_PAGE_ID) = (g = root_page_id t)"
    using glink by (auto simp: link_ok_def split: if_splits)
  have up: "\<exists>hn harr. tree_pages t gpar = Some hn \<and> hn = InternalPage gpar (GetParentPageId hn)
        (internal_max_size t) harr \<and> g \<in> snd ` set harr \<and> g_ht G gpar = Suc (g_ht G g) \<and>
        \<not> IsLeafPage hn \<and> internal_array hn = harr"
    if "gpar \<noteq> INVALID_PAGE_ID"
  proof -
    from that glink gpg obtain hn where hn: "tree_pages t gpar = Some hn" "\<not> IsLeafPage hn"
      "g \<in> snd ` set (internal_array hn)"
      by (auto simp: link_ok_def V_def split: if_splits)
    from IsLeafPage_cases(2) [OF hn(2)] obtain hid hpar hmx harr where
      h: "hn = InternalPage hid hpar hmx harr" by blast
    from inv_page [OF inv hn(1)] h gpg hn(3) have "hid = gpar" "hmx = internal_max_size t"
      "Suc (g_ht G g) = g_ht G gpar"
      by (auto simp: page_ok_internal V_def)
    with hn h show ?thesis by auto
  qed
  have gpM: "gpar \<notin> snd ` set avv"
  proof
    assume a: "gpar \<in> snd ` set avv"
    from Mkid [OF a] have "gpar \<noteq> INVALID_PAGE_ID" "Suc (g_ht G gpar) = g_ht G g"
      using dom0 by auto
    with up show False by auto
  qed
  text \<open>The pages of the new store.\<close>
  have pg_g: "tree_pages t3 g = Some newg" using gM Msub npg by (auto simp: pg)
  have pg_np: "tree_pages t3 np = Some newp" using npM Msub by (auto simp: pg)
  have pg_M: "tree_pages t3 x = Some (SetParentPageId np cn)"
    if "x \<in> M" "tree_pages t x = Some cn" for x cn using that by (simp add: pg)
  have pg_old: "tree_pages t3 x = tree_pages t x" if "x \<notin> M" "x \<noteq> np" "x \<noteq> g" for x
    using that by (simp add: pg)
  have pg_cases: "\<exists>n0. tree_pages t x = Some n0 \<and> (n = n0 \<or> n = SetParentPageId np n0)"
    if "tree_pages t3 x = Some n" "x \<noteq> g" "x \<noteq> np" for x n
    using that by (auto simp: pg split: if_splits)
  have pg_dom: "\<exists>n. tree_pages t3 x = Some n \<and> IsLeafPage n = IsLeafPage n0 \<and>
      (IsLeafPage n0 \<longrightarrow> GetNextPageId n = GetNextPageId n0 \<and> keys_of n = keys_of n0)"
    if "tree_pages t x = Some n0" for x n0
  proof -
    from fresh that have "x \<noteq> np" by auto
    with that g show ?thesis by (auto simp: pg newg_def)
  qed
  have page_g: "page_ok t3 G' V2 g newg"
  proof -
    have "kids_ok (g_lo G') (g_hi G') (g_lo G g) L (Some m')"
      using kL same [OF Msub(2)] by simp
    moreover have "\<exists>cn. tree_pages t3 c = Some cn \<and> GetParentPageId cn = g \<and> Suc (g_ht G' c) = g_ht G' g"
      if "c \<in> snd ` set L" for c
    proof -
      from that Msub have a: "c \<in> snd ` set avv" by auto
      with gM npM disj that have "c \<noteq> g" "c \<noteq> np" "c \<notin> M" by auto
      with Mkid [OF a] npg show ?thesis by (simp add: pg_old Gs)
    qed
    ultimately show ?thesis
      using lL hb gpg npg by (simp add: newg_def page_ok_internal ts V2_def Gs)
  qed
  have page_np: "page_ok t3 G' V2 np newp"
  proof -
    have "kids_ok (g_lo G') (g_hi G') (Some m') R (g_hi G g)"
      using kR same [of R] Msub(1) by (simp add: M_def)
    moreover have "\<exists>cn. tree_pages t3 c = Some cn \<and> GetParentPageId cn = np \<and> Suc (g_ht G' c) = g_ht G' np"
      if "c \<in> snd ` set R" for c
    proof -
      from that Msub have a: "c \<in> snd ` set avv" and b: "c \<in> M" by (auto simp: M_def)
      with npM have "c \<noteq> np" by auto
      with Mkid [OF a] b show ?thesis by (auto simp: pg Gs)
    qed
    ultimately show ?thesis
      using lR gpnp by (simp add: newp_def page_ok_internal ts V2_def Gs)
  qed
  have page_other: "page_ok t3 G' V2 x n0"
    if x: "tree_pages t x = Some n0" "x \<noteq> g" "x \<noteq> gpar" for x n0
  proof -
    from fresh x have xnp: "x \<noteq> np" by auto
    from inv_page [OF inv x(1)] show ?thesis
    proof (rule page_ok_frame)
      fix c cn assume c: "tree_pages t c = Some cn" "GetParentPageId cn = x"
      with fresh have cnp: "c \<noteq> np" by auto
      from c g x have cg: "c \<noteq> g" by auto
      have cM: "c \<notin> M"
      proof
        assume "c \<in> M"
        with Msub have "c \<in> snd ` set avv" by auto
        from Mkid [OF this] c x show False by auto
      qed
      from c cnp cg cM show "g_lo G' c = g_lo G c \<and> g_hi G' c = g_hi G c \<and> g_ht G' c = g_ht G c \<and>
            (\<exists>cn'. tree_pages t3 c = Some cn' \<and> GetParentPageId cn' = x)"
        by (simp add: Gs pg_old)
    qed (use x xnp in \<open>simp_all add: ts Gs V_def V2_def\<close>)
  qed
  have page_gpar: "page_ok t3 G' V2 gpar hn" if hn: "tree_pages t gpar = Some hn" for hn
  proof -
    from dom0 [OF hn] have gpi: "gpar \<noteq> INVALID_PAGE_ID" .
    from up [OF this] hn obtain harr where
      h: "hn = InternalPage gpar (GetParentPageId hn) (internal_max_size t) harr"
      "g \<in> snd ` set harr" "g_ht G gpar = Suc (g_ht G g)" by auto
    from inv_page [OF inv hn] gpg have ok: "2 \<le> length harr" "length harr \<le> internal_max_size t"
      "kids_ok (g_lo G) (g_hi G) (g_lo G gpar) harr (g_hi G gpar)"
      "\<forall>c \<in> snd ` set harr.
         \<exists>cn. tree_pages t c = Some cn \<and> GetParentPageId cn = gpar \<and> Suc (g_ht G c) = g_ht G gpar"
      by (subst (asm) h(1), simp add: page_ok_internal V_def)+
    have npk: "np \<notin> snd ` set harr"
    proof
      assume "np \<in> snd ` set harr"
      with ok(4) fresh show False by auto
    qed
    have "kids_ok (g_lo G') (g_hi G') (g_lo G gpar) (ins_after g (m', np) harr) (g_hi G gpar)"
      by (rule kids_ok_ins_after [OF _ _ mr ok(3) kids_ok_distinct [OF ok(3)] h(2) npk])
         (simp_all add: G'_def fun_eq_iff)
    moreover have "\<exists>cn. tree_pages t3 c = Some cn \<and> GetParentPageId cn = gpar \<and>
        Suc (g_ht G' c) = g_ht G' gpar"
      if "c \<in> snd ` set (ins_after g (m', np) harr)" for c
    proof -
      from that set_ins_after [OF h(2), of "(m', np)"] have "c = np \<or> c \<in> snd ` set harr" by auto
      then show ?thesis
      proof
        assume "c = np"
        then show ?thesis using h(3) gpnp by (simp add: pg_np newp_def Gs)
      next
        assume a: "c \<in> snd ` set harr"
        with ok(4) obtain cn where cn: "tree_pages t c = Some cn" "GetParentPageId cn = gpar"
          "Suc (g_ht G c) = g_ht G gpar" by blast
        from cn fresh have cnp: "c \<noteq> np" by auto
        have cM: "c \<notin> M"
        proof
          assume "c \<in> M"
          with Msub have "c \<in> snd ` set avv" by auto
          from Mkid [OF this] cn gpg show False by auto
        qed
        show ?thesis
        proof (cases "c = g")
          case True
          with cn gpnp show ?thesis by (simp add: pg_g newg_def Gs)
        next
          case False
          with cn cnp cM gpnp show ?thesis by (simp add: pg_old Gs)
        qed
      qed
    qed
    ultimately have "page_ok t3 G' V2 gpar
        (InternalPage gpar (GetParentPageId hn) (internal_max_size t) harr)"
      using ok(1,2) gpnp gpg by (simp add: page_ok_internal ts V2_def Gs)
    with h(1) show ?thesis by simp
  qed
  have pages: "page_ok t3 G' V2 x n" if xn: "tree_pages t3 x = Some n" for x n
  proof -
    consider "x = g" | "x = np" | "x \<noteq> g" "x \<noteq> np" "x = gpar" | "x \<noteq> g" "x \<noteq> np" "x \<noteq> gpar"
      by blast
    then show ?thesis
    proof cases
      case 1
      with xn pg_g page_g show ?thesis by simp
    next
      case 2
      with xn pg_np page_np show ?thesis by simp
    next
      case 3
      with gpM Msub have "x \<notin> M" by auto
      with xn 3 have "tree_pages t gpar = Some n" by (simp add: pg_old)
      from page_gpar [OF this] 3 show ?thesis by simp
    next
      case 4
      from pg_cases [OF xn 4(1,2)] obtain n0 where n0: "tree_pages t x = Some n0"
        "n = n0 \<or> n = SetParentPageId np n0" by blast
      from page_other [OF n0(1) 4(1,3)] n0(2) show ?thesis by auto
    qed
  qed
  have links: "link_ok t3 G' V2 x n" if xn: "tree_pages t3 x = Some n" and xE: "x \<notin> E2" for x n
  proof -
    consider "x = g" | "x = np" | "x \<in> M" | "x \<noteq> g" "x \<noteq> np" "x \<notin> M" by blast
    then show ?thesis
    proof cases
      case 1
      with xE have gpi: "gpar \<noteq> INVALID_PAGE_ID" by (auto simp: E2_def split: if_splits)
      from up [OF gpi] obtain hn harr where hn: "tree_pages t gpar = Some hn"
        "hn = InternalPage gpar (GetParentPageId hn) (internal_max_size t) harr"
        "g \<in> snd ` set harr" and hl: "\<not> IsLeafPage hn" "internal_array hn = harr" by blast
      from gpM Msub have "gpar \<notin> M" by auto
      with hn(1) gpg gpnp have "tree_pages t3 gpar = Some hn" by (simp add: pg_old)
      moreover note hl
      moreover have "g \<in> snd ` set (ins_after g (m', np) harr)"
        using set_ins_after [OF hn(3), of "(m', np)"] hn(3) by auto
      moreover from 1 xn pg_g have "n = newg" by simp
      ultimately show ?thesis
        using 1 gpi groot by (simp add: link_ok_def ts newg_def V2_def)
    next
      case 2
      with xE have gpi: "gpar \<noteq> INVALID_PAGE_ID" by (auto simp: E2_def split: if_splits)
      from up [OF gpi] obtain hn harr where hn: "tree_pages t gpar = Some hn"
        "hn = InternalPage gpar (GetParentPageId hn) (internal_max_size t) harr"
        "g \<in> snd ` set harr" and hl: "\<not> IsLeafPage hn" "internal_array hn = harr" by blast
      from gpM Msub have "gpar \<notin> M" by auto
      with hn(1) gpg gpnp have "tree_pages t3 gpar = Some hn" by (simp add: pg_old)
      moreover note hl
      moreover have "np \<in> snd ` set (ins_after g (m', np) harr)"
        using set_ins_after [OF hn(3), of "(m', np)"] by force
      moreover have "np \<noteq> root_page_id t" using root fresh by auto
      moreover from 2 xn pg_np have "n = newp" by simp
      ultimately show ?thesis
        using 2 gpi by (simp add: link_ok_def ts newp_def V2_def)
    next
      case 3
      with Msub have "x \<in> snd ` set avv" by auto
      from Mkid [OF this] obtain cn where cn: "tree_pages t x = Some cn" "GetParentPageId cn = g"
        by blast
      from inv_link [OF inv cn(1)] cn(2) gi have "x \<noteq> root_page_id t"
        by (auto simp: link_ok_def split: if_splits)
      moreover from xn 3 cn have "n = SetParentPageId np cn" by (simp add: pg)
      ultimately show ?thesis
        using 3 npi pg_np gpnp by (simp add: link_ok_def ts newp_def V2_def M_def)
    next
      case 4
      with xn have n: "tree_pages t x = Some n" by (simp add: pg_old)
      have "link_ok t G V x n" by (rule inv_link [OF inv n]) simp
      then show ?thesis
      proof (rule link_ok_frame)
        fix hn assume hh: "tree_pages t (GetParentPageId n) = Some hn" "\<not> IsLeafPage hn"
          "x \<in> snd ` set (V (GetParentPageId n) (internal_array hn))"
        show "\<exists>gn'. tree_pages t3 (GetParentPageId n) = Some gn' \<and> \<not> IsLeafPage gn' \<and>
              x \<in> snd ` set (V2 (GetParentPageId n) (internal_array gn'))"
        proof (cases "GetParentPageId n = g")
          case True
          with hh g have "x \<in> snd ` set avv" by (auto simp: V_def avv_def)
          with 4(3) have "x \<in> snd ` set L" by (auto simp: LR M_def)
          with True gpg show ?thesis by (simp add: pg_g newg_def V2_def)
        next
          case False
          from hh(1) fresh have pnp: "GetParentPageId n \<noteq> np" by auto
          from hh(3) False have xin: "x \<in> snd ` set (internal_array hn)" by (simp add: V_def)
          from pg_dom [OF hh(1)] obtain hn' where hn': "tree_pages t3 (GetParentPageId n) = Some hn'"
            "\<not> IsLeafPage hn'" using hh(2) by auto
          from pg_cases [OF hn'(1) False pnp] hh(1) hh(2)
          have "internal_array hn' = internal_array hn" by auto
          moreover have "x \<in> snd ` set (V2 (GetParentPageId n) (internal_array hn))"
          proof (cases "GetParentPageId n = gpar")
            case True
            with dom0 [OF hh(1)] have gpi: "gpar \<noteq> INVALID_PAGE_ID" by simp
            from up [OF gpi] hh(1) True have "g \<in> snd ` set (internal_array hn)" by auto
            from set_ins_after [OF this, of "(m', np)"] xin True show ?thesis
              by (auto simp: V2_def)
          next
            case False
            with xin show ?thesis by (simp add: V2_def)
          qed
          ultimately show ?thesis using hn' by auto
        qed
      qed (use 4 in \<open>simp_all add: ts Gs\<close>)
    qed
  qed
  have heights: "g_ht G' x \<le> g_ht G' (root_page_id t3)" if xn: "tree_pages t3 x = Some n" for x n
  proof -
    have r: "g_ht G' (root_page_id t3) = g_ht G (root_page_id t)"
      using root fresh by (auto simp: ts Gs)
    show ?thesis
    proof (cases "x = np")
      case True
      then have "g_ht G' x = g_ht G g" by (simp add: Gs)
      moreover from bound g have "g_ht G g \<le> g_ht G (root_page_id t)" by blast
      ultimately show ?thesis using r by simp
    next
      case False
      with xn g obtain n0 where "tree_pages t x = Some n0" by (auto simp: pg split: if_splits)
      with bound have "g_ht G x \<le> g_ht G (root_page_id t)" by blast
      moreover from False have "g_ht G' x = g_ht G x" by (simp add: Gs)
      ultimately show ?thesis using r by simp
    qed
  qed
  have chain': "leaf_chain_ok t3 G'"
  proof -
    from chain have c: "distinct (g_chain G)" "chain_from t G (g_chain G)"
      "set (g_chain G) = {p. \<exists>n. tree_pages t p = Some n \<and> IsLeafPage n}"
      "g_lo G (hd (g_chain G)) = None"
      by (simp_all add: leaf_chain_ok_def)
    have leafne: "x \<noteq> np \<and> x \<noteq> g" if "tree_pages t x = Some n" "IsLeafPage n" for x n
      using that fresh g by auto
    have "chain_from t3 G' (g_chain G)"
    proof (rule chain_from_frame [OF _ c(2)])
      fix x n assume a: "tree_pages t x = Some n" "IsLeafPage n"
      from leafne [OF a] pg_dom [OF a(1)] a(2)
      show "g_lo G' x = g_lo G x \<and> g_hi G' x = g_hi G x \<and>
          (\<exists>n'. tree_pages t3 x = Some n' \<and> IsLeafPage n' \<and> GetNextPageId n' = GetNextPageId n)"
        by (auto simp: Gs)
    qed
    moreover have "{x. \<exists>n. tree_pages t3 x = Some n \<and> IsLeafPage n} =
        {x. \<exists>n. tree_pages t x = Some n \<and> IsLeafPage n}"
    proof (intro set_eqI iffI; clarify)
      fix x n assume a: "tree_pages t3 x = Some n" "IsLeafPage n"
      with pg_g pg_np have "x \<noteq> g" "x \<noteq> np" by (auto simp: newg_def newp_def)
      from pg_cases [OF a(1) this] a(2) show "\<exists>n. tree_pages t x = Some n \<and> IsLeafPage n" by auto
    next
      fix x n assume a: "tree_pages t x = Some n" "IsLeafPage n"
      from pg_dom [OF a(1)] a(2) show "\<exists>n. tree_pages t3 x = Some n \<and> IsLeafPage n" by auto
    qed
    moreover have "g_lo G' (hd (g_chain G)) = None"
    proof -
      from c(2) have "g_chain G \<noteq> []" by auto
      then have "hd (g_chain G) \<in> set (g_chain G)" by simp
      with c(3) leafne have "hd (g_chain G) \<noteq> np" by blast
      with c(4) show ?thesis by (simp add: Gs)
    qed
    ultimately show ?thesis using c by (simp add: leaf_chain_ok_def Gs)
  qed
  have inv3: "inv_gen t3 G' V2 E2"
    unfolding inv_gen_def
  proof (intro conjI allI impI ballI)
    fix x assume "x \<in> dom (tree_pages t3)"
    then have "x = np \<or> x \<in> dom (tree_pages t)" using g by (auto simp: pg split: if_splits)
    then have "0 \<le> x \<and> x < np + 1"
    proof
      assume "x = np"
      with np0 show ?thesis by simp
    next
      assume "x \<in> dom (tree_pages t)"
      with alloc have "0 \<le> x \<and> x < tree_next_page_id t" by blast
      then show ?thesis by (simp add: np_def)
    qed
    then show "0 \<le> x" "x < tree_next_page_id t3" by (simp_all add: ts)
  next
    from root obtain rn where "tree_pages t (root_page_id t) = Some rn" by auto
    from pg_dom [OF this] show "root_page_id t3 \<in> dom (tree_pages t3)" by (auto simp: ts)
  qed (use lm im pages links heights chain' in \<open>simp_all add: ts\<close>)
  have par: "GetParentPageId newg = gpar" "GetParentPageId newp = gpar"
    by (simp_all add: newg_def newp_def)
  have pend3: "pending t3 G' g m' np"
  proof (cases "gpar = INVALID_PAGE_ID")
    case True
    have "inv_gen t3 G' V2 E2 = inv_gen t3 G' (\<lambda>x arr. arr) E2"
    proof (rule inv_gen_V_cong)
      fix x and arr :: "('k \<times> int) list" assume "x \<in> dom (tree_pages t3)"
      then have "x = np \<or> x \<in> dom (tree_pages t)" using g by (auto simp: pg split: if_splits)
      with dom0 npi True have "x \<noteq> gpar" by auto
      then show "V2 x arr = arr" by (simp add: V2_def)
    qed
    with inv3 True have a: "inv_gen t3 G' (\<lambda>x arr. arr) {g, np}" by (simp add: E2_def)
    from True groot have gr: "root_page_id t3 = g" by (simp add: ts)
    from True groot glink have "g_lo G g = None" "g_hi G g = None" by (simp_all add: link_ok_def)
    with npg have los: "g_lo G' g = None" "g_hi G' g = Some m'" "g_lo G' np = Some m'"
      "g_hi G' np = None" "g_ht G' np = g_ht G' g" by (simp_all add: Gs)
    show ?thesis
      unfolding pending_def
      apply (rule exI [where x = newg], rule exI [where x = newp])
      using a gr los npg pg_g pg_np par True apply simp
      done
  next
    case False
    with inv3 have "inv_gen t3 G' V2 {}" by (simp add: E2_def)
    then have b: "inv_gen t3 G' (\<lambda>x arr. if x = GetParentPageId newg then ins_after g (m', np) arr else arr) {}"
      by (simp add: V2_def par)
    show ?thesis
      unfolding pending_def
      apply (rule exI [where x = newg], rule exI [where x = newp])
      using b npg pg_g pg_np par False apply simp
      done
  qed
  have keys: "tree_keys t3 = tree_keys t"
  proof (intro set_eqI tree_keys_cong iffI; clarify)
    fix k x n assume a: "tree_pages t3 x = Some n" "IsLeafPage n" "k \<in> set (keys_of n)"
    with pg_g pg_np have "x \<noteq> g" "x \<noteq> np" by (auto simp: newg_def newp_def)
    from pg_cases [OF a(1) this] a(2,3)
    show "\<exists>n. tree_pages t x = Some n \<and> IsLeafPage n \<and> k \<in> set (keys_of n)" by auto
  next
    fix k x n assume a: "tree_pages t x = Some n" "IsLeafPage n" "k \<in> set (keys_of n)"
    from pg_dom [OF a(1)] a(2,3)
    show "\<exists>n. tree_pages t3 x = Some n \<and> IsLeafPage n \<and> k \<in> set (keys_of n)" by auto
  qed
  have "g_ht G' (root_page_id t) = g_ht G (root_page_id t)" using root fresh by (auto simp: Gs)
  moreover have "g_ht G' g = Suc (g_ht G p)" using ht npg by (simp add: Gs)
  moreover from bound g have "g_ht G g \<le> g_ht G (root_page_id t)" by blast
  with ht have "g_ht G p < g_ht G (root_page_id t)" by simp
  ultimately show ?thesis
    using call pend3 keys ts(1) unfolding g_def by blast
qed

subsection \<open>The new entry reaches the parent\<close>

lemma InsertIntoParent_ok:
  fixes t :: "('k::linorder, 'v) BPlusTree"
  shows "pending t G p m q \<Longrightarrow>
    \<exists>t' G'. InsertIntoParent p m q t = Some t' \<and> tree_inv t' G' \<and> tree_keys t' = tree_keys t"
proof (induction "g_ht G (root_page_id t) - g_ht G p" arbitrary: t G p m q rule: less_induct)
  case less
  note pend = less.prems
  from pend obtain pn where pn: "tree_pages t p = Some pn" by (auto simp: pending_def)
  show ?case
  proof (cases "GetParentPageId pn = INVALID_PAGE_ID")
    case True
    from InsertIntoParent_root [OF pend pn True] show ?thesis .
  next
    case False
    obtain gpar garr where
      "tree_pages t (GetParentPageId pn) =
         Some (InternalPage (GetParentPageId pn) gpar (internal_max_size t) garr)"
      by (rule pending_parent [OF pend pn False refl refl])
    then obtain gn where gn: "tree_pages t (GetParentPageId pn) = Some gn" by blast
    show ?thesis
    proof (cases "GetSize gn < GetMaxSize gn")
      case True
      from InsertIntoParent_insert [OF pend pn False gn True] show ?thesis by blast
    next
      case nroom: False
      from InsertIntoParent_split [OF pend pn False gn nroom]
      obtain t3 G' m' np where s:
        "InsertIntoParent p m q t = InsertIntoParent (GetParentPageId pn) m' np t3"
        "pending t3 G' (GetParentPageId pn) m' np" "tree_keys t3 = tree_keys t"
        "root_page_id t3 = root_page_id t" "g_ht G' (root_page_id t) = g_ht G (root_page_id t)"
        "g_ht G' (GetParentPageId pn) = Suc (g_ht G p)" "g_ht G p < g_ht G (root_page_id t)"
        by blast
      have "g_ht G' (root_page_id t3) - g_ht G' (GetParentPageId pn) <
          g_ht G (root_page_id t) - g_ht G p"
        using s(4-7) by simp
      from less.hyps [OF this s(2)] s(1,3) show ?thesis by simp
    qed
  qed
qed

subsection \<open>Insert\<close>

lemma tree_keys_put_leaf:
  assumes l: "tree_pages t l = Some (LeafPage l par mx nx arr)"
    and t': "tree_pages t' = (tree_pages t)(l \<mapsto> LeafPage l par' mx' nx' A)"
    and A: "set A = insert (key, v) (set arr)"
  shows "tree_keys t' = insert key (tree_keys t)"
proof (intro set_eqI iffI)
  fix k assume "k \<in> tree_keys t'"
  then obtain x n where x: "tree_pages t' x = Some n" "IsLeafPage n" "k \<in> set (keys_of n)"
    by (auto simp: tree_keys_def)
  show "k \<in> insert key (tree_keys t)"
  proof (cases "x = l")
    case True
    with x t' A have "k = key \<or> k \<in> fst ` set arr" by auto
    with l show ?thesis by (force simp: tree_keys_def)
  next
    case False
    with x t' show ?thesis by (auto simp: tree_keys_def)
  qed
next
  fix k assume "k \<in> insert key (tree_keys t)"
  then consider "k = key" | x n where "tree_pages t x = Some n" "IsLeafPage n" "k \<in> set (keys_of n)"
    by (auto simp: tree_keys_def)
  then show "k \<in> tree_keys t'"
  proof cases
    case 1
    have "tree_pages t' l = Some (LeafPage l par' mx' nx' A)" by (simp add: t')
    moreover have "key \<in> set (keys_of (LeafPage l par' mx' nx' A))" using A by force
    ultimately show ?thesis unfolding tree_keys_def 1 by force
  next
    case 2
    show ?thesis
    proof (cases "x = l")
      case True
      with 2 l have "k \<in> fst ` set A" using A by auto
      moreover have "tree_pages t' l = Some (LeafPage l par' mx' nx' A)" by (simp add: t')
      ultimately show ?thesis unfolding tree_keys_def by force
    next
      case False
      with 2 have "tree_pages t' x = Some n" by (simp add: t')
      with 2 show ?thesis unfolding tree_keys_def by blast
    qed
  qed
qed

lemma tree_keys_split_leaf:
  assumes l: "tree_pages t l = Some (LeafPage l par mx nx arr)" and q: "tree_pages t q = None"
    and t': "tree_pages t' = (tree_pages t)(l \<mapsto> LeafPage l par' mx' nx' A,
        q \<mapsto> LeafPage q par'' mx'' nx'' B)"
    and A: "set A \<union> set B = insert (key, v) (set arr)"
  shows "tree_keys t' = insert key (tree_keys t)"
proof -
  from l q have ql: "q \<noteq> l" by auto
  have pl: "tree_pages t' l = Some (LeafPage l par' mx' nx' A)"
    and pq: "tree_pages t' q = Some (LeafPage q par'' mx'' nx'' B)"
    using ql by (simp_all add: t')
  have other: "tree_pages t' x = tree_pages t x" if "x \<noteq> l" "x \<noteq> q" for x
    using that by (simp add: t')
  have AB: "fst ` set A \<union> fst ` set B = insert key (fst ` set arr)"
    using A by (metis fst_conv image_Un image_insert)
  show ?thesis
  proof (intro set_eqI iffI)
    fix k assume "k \<in> tree_keys t'"
    then obtain x n where x: "tree_pages t' x = Some n" "IsLeafPage n" "k \<in> set (keys_of n)"
      by (auto simp: tree_keys_def)
    consider "x = l" | "x = q" | "x \<noteq> l" "x \<noteq> q" by blast
    then show "k \<in> insert key (tree_keys t)"
    proof cases
      case 1
      with x pl AB have "k = key \<or> k \<in> fst ` set arr" by auto
      with l show ?thesis by (force simp: tree_keys_def)
    next
      case 2
      with x pq AB have "k = key \<or> k \<in> fst ` set arr" by auto
      with l show ?thesis by (force simp: tree_keys_def)
    next
      case 3
      with x other show ?thesis by (auto simp: tree_keys_def)
    qed
  next
    fix k assume "k \<in> insert key (tree_keys t)"
    then consider "k = key" | x n where "tree_pages t x = Some n" "IsLeafPage n" "k \<in> set (keys_of n)"
      by (auto simp: tree_keys_def)
    then show "k \<in> tree_keys t'"
    proof cases
      case 1
      with AB have "k \<in> fst ` set A \<or> k \<in> fst ` set B" by blast
      with pl pq show ?thesis unfolding tree_keys_def by force
    next
      case 2
      show ?thesis
      proof (cases "x = l")
        case True
        with 2 l AB have "k \<in> fst ` set A \<or> k \<in> fst ` set B" by auto
        with pl pq show ?thesis unfolding tree_keys_def by force
      next
        case False
        with 2 q have "x \<noteq> q" by auto
        with False 2 other have "tree_pages t' x = Some n" by simp
        with 2 show ?thesis unfolding tree_keys_def by blast
      qed
    qed
  qed
qed

lemma Insert_ok:
  fixes t :: "('k::linorder, 'v) BPlusTree"
  assumes good: "empty_ok t \<or> (\<exists>G. tree_inv t G)" and new: "key \<notin> tree_keys t"
  shows "\<exists>t' G'. BPlusTree_Insert key v t = Some (True, t') \<and> tree_inv t' G' \<and>
      tree_keys t' = insert key (tree_keys t)"
  using good
proof
  assume e: "empty_ok t"
  then have "tree_keys t = {}" by (simp add: empty_ok_def tree_keys_def)
  with Insert_empty [OF e, of key v] show ?thesis by simp
next
  assume "\<exists>G. tree_inv t G"
  then obtain G where inv: "tree_inv t G" ..
  note inv' = inv [unfolded tree_inv_def]
  from inv' have lm: "2 \<le> leaf_max_size t"
    and alloc: "\<forall>p \<in> dom (tree_pages t). 0 \<le> p \<and> p < tree_next_page_id t"
    and root: "root_page_id t \<in> dom (tree_pages t)"
    by (simp_all add: inv_gen_def)
  from root alloc have "0 \<le> root_page_id t" by blast
  then have ne: "\<not> IsEmpty t" by (simp add: IsEmpty_def INVALID_PAGE_ID_def)
  from Insert_find [OF inv new] obtain l par nx arr p where
    f: "FindLeaf key t = Some l"
    and l: "tree_pages t l = Some (LeafPage l par (leaf_max_size t) nx arr)"
    and r: "lo_le (g_lo G l) key" "lt_hi key (g_hi G l)"
    and pos: "GetPosOnLeafPage (LeafPage l par (leaf_max_size t) nx arr) key = Some (int p - 1)"
    and p: "p \<le> length arr" "\<forall>i < p. fst (arr ! i) < key"
      "\<forall>i. p \<le> i \<and> i < length arr \<longrightarrow> key < fst (arr ! i)"
    and pres: "(if int p - 1 \<noteq> - 1
            then map_option (\<lambda>k. comparator key k = 0)
                   (KeyAt (LeafPage l par (leaf_max_size t) nx arr) (int p - 1))
            else Some False) = Some False"
    by blast
  define arr' where "arr' = array_Insert p (key, v) arr"
  define leaf1 where "leaf1 = (LeafPage l par (leaf_max_size t) nx arr' :: ('k, 'v) BPlusTreePage)"
  define t1 where "t1 = put_page l leaf1 t"
  from inv_page [OF inv' l] have ok: "length arr < leaf_max_size t" "sorted_wrt (<) (map fst arr)"
    "\<forall>k \<in> fst ` set arr. lo_le (g_lo G l) k \<and> lt_hi k (g_hi G l)"
    by (simp_all add: page_ok_leaf)
  have ins: "Leaf_Insert (int p - 1 + 1) key v (LeafPage l par (leaf_max_size t) nx arr) = Some leaf1"
    using p(1) ok(1) by (simp add: leaf1_def arr'_def)
  have la: "length arr' = Suc (length arr)" using p(1) by (simp add: arr'_def)
  have sa: "set arr' = insert (key, v) (set arr)" using p(1) by (simp add: arr'_def)
  have head: "BPlusTree_Insert key v t =
      (if GetSize leaf1 \<noteq> GetMaxSize leaf1 then Some (True, t1)
       else do {
            let (new_page_id, t2) = NewPage t1;
            let new_leaf = Leaf_Init new_page_id (GetParentPageId leaf1) (leaf_max_size t2);
            (leaf2, new_leaf1) \<leftarrow> Leaf_Split leaf1 new_leaf;
            let t3 = put_page new_page_id new_leaf1 (put_page l leaf2 t2);
            new_key \<leftarrow> KeyAt new_leaf1 0;
            t4 \<leftarrow> InsertIntoParent l new_key new_page_id t3;
            Some (True, t4)
          })"
    unfolding BPlusTree_Insert_def
    by (simp only: ne if_False f l FetchPage_def bind.bind_lunit pos pres ins Let_def
        t1_def [symmetric])
  show ?thesis
  proof (cases "Suc (length arr) = leaf_max_size t")
    case False
    with ok(1) have sz: "Suc (length arr) < leaf_max_size t" by simp
    from Insert_nosplit [OF inv l r p sz, of v] have "tree_inv t1 G"
      by (simp add: t1_def leaf1_def arr'_def)
    moreover have "tree_keys t1 = insert key (tree_keys t)"
      by (rule tree_keys_put_leaf [OF l _ sa]) (simp add: t1_def leaf1_def)
    moreover from head False la have "BPlusTree_Insert key v t = Some (True, t1)"
      by (simp add: leaf1_def)
    ultimately show ?thesis by blast
  next
    case True
    define q where "q = tree_next_page_id t"
    define h where "h = leaf_max_size t div 2"
    define m where "m = fst (hd (drop h arr'))"
    define t3 where "t3 = put_page q (LeafPage q par (leaf_max_size t) nx (drop h arr'))
                   (put_page l (LeafPage l par (leaf_max_size t) q (take h arr'))
                      (t\<lparr>tree_next_page_id := q + 1\<rparr>))"
    define G' where "G' = G\<lparr>g_lo := (g_lo G)(q := Some m),
        g_hi := (g_hi G)(l := Some m, q := g_hi G l),
        g_ht := (g_ht G)(q := 0), g_chain := chain_ins l q (g_chain G)\<rparr>"
    have len: "length arr' = leaf_max_size t" using la True by simp
    have srt: "sorted_wrt (<) (map fst arr')"
      unfolding arr'_def by (rule array_Insert_sorted [OF ok(2) p])
    have rng: "\<forall>k \<in> fst ` set arr'. lo_le (g_lo G l) k \<and> lt_hi k (g_hi G l)"
      using ok(3) r by (auto simp: sa)
    from leaf_split_pending [OF inv l srt len rng q_def h_def m_def t3_def G'_def]
    have pend: "pending t3 G' l m q" .
    from InsertIntoParent_ok [OF pend] obtain t4 G4 where
      t4: "InsertIntoParent l m q t3 = Some t4" "tree_inv t4 G4" "tree_keys t4 = tree_keys t3"
      by blast
    have fresh: "tree_pages t q = None"
    proof (rule ccontr)
      assume "tree_pages t q \<noteq> None"
      then have "q \<in> dom (tree_pages t)" by blast
      with alloc show False by (auto simp: q_def)
    qed
    have k3: "tree_keys t3 = insert key (tree_keys t)"
    proof (rule tree_keys_split_leaf [OF l fresh])
      show "tree_pages t3 = (tree_pages t)(l \<mapsto> LeafPage l par (leaf_max_size t) q (take h arr'),
          q \<mapsto> LeafPage q par (leaf_max_size t) nx (drop h arr'))"
        by (simp add: t3_def)
      have "set (take h arr') \<union> set (drop h arr') = set arr'"
        by (metis append_take_drop_id set_append)
      then show "set (take h arr') \<union> set (drop h arr') = insert (key, v) (set arr)"
        by (simp add: sa)
    qed
    have hl: "h < length arr'" using lm len by (simp add: h_def)
    then have dne: "drop h arr' \<noteq> []" by simp
    have key0: "KeyAt (LeafPage q par (leaf_max_size t) nx (drop h arr')) 0 = Some m"
      using dne lm hl by (cases "drop h arr'") (auto simp: KeyAt_def in_range_def m_def)
    have t3': "put_page q (LeafPage q par (leaf_max_size t) nx (drop h arr'))
        (put_page l (LeafPage l par (leaf_max_size t) q (take h arr'))
           (t1\<lparr>tree_next_page_id := q + 1\<rparr>)) = t3"
      by (simp add: t3_def t1_def put_page_def)
    have t1s: "tree_next_page_id t1 = q" "leaf_max_size t1 = leaf_max_size t"
      by (simp_all add: t1_def q_def)
    have "BPlusTree_Insert key v t = Some (True, t4)"
      unfolding head
      using len t4(1) key0 t3' t1s
      by (simp add: leaf1_def Leaf_Init_def t1_def [symmetric] q_def [symmetric] h_def [symmetric])
    with t4 k3 show ?thesis by auto
  qed
qed

subsection \<open>A sequence of insertions\<close>

lemma insert_all_ok:
  fixes t :: "('k::linorder, 'v) BPlusTree"
  shows "empty_ok t \<or> (\<exists>G. tree_inv t G) \<Longrightarrow> distinct (map fst kvs) \<Longrightarrow>
    fst ` set kvs \<inter> tree_keys t = {} \<Longrightarrow>
    \<exists>t'. insert_all kvs t = Some (replicate (length kvs) True, t') \<and>
         (empty_ok t' \<or> (\<exists>G. tree_inv t' G)) \<and> tree_keys t' = tree_keys t \<union> fst ` set kvs"
proof (induction kvs arbitrary: t)
  case Nil
  then show ?case by simp
next
  case (Cons kv kvs)
  obtain key v where kv: "kv = (key, v)" by (cases kv)
  from Cons.prems(3) kv have new: "key \<notin> tree_keys t" by auto
  from Insert_ok [OF Cons.prems(1) new, of v] obtain t1 G1 where
    t1: "BPlusTree_Insert key v t = Some (True, t1)" "tree_inv t1 G1"
    "tree_keys t1 = insert key (tree_keys t)" by blast
  from t1(2) have g1: "empty_ok t1 \<or> (\<exists>G. tree_inv t1 G)" by blast
  from Cons.prems(2,3) kv have d: "distinct (map fst kvs)" "fst ` set kvs \<inter> tree_keys t1 = {}"
    by (auto simp: t1(3))
  from Cons.IH [OF g1 d] obtain t' where
    t': "insert_all kvs t1 = Some (replicate (length kvs) True, t')"
    "empty_ok t' \<or> (\<exists>G. tree_inv t' G)" "tree_keys t' = tree_keys t1 \<union> fst ` set kvs" by blast
  from t1(1) t'(1) have "insert_all (kv # kvs) t = Some (replicate (length (kv # kvs)) True, t')"
    by (simp add: kv)
  moreover from t'(3) t1(3) have "tree_keys t' = tree_keys t \<union> fst ` set (kv # kvs)"
    by (auto simp: kv)
  ultimately show ?case using t'(2) by blast
qed

lemma scan_good:
  fixes t :: "('k::linorder, 'v) BPlusTree"
  assumes "empty_ok t \<or> (\<exists>G. tree_inv t G)"
  shows "\<exists>es. scan t = Some es \<and> sorted_wrt (<) (map fst es) \<and> fst ` set es = tree_keys t"
  using assms
proof
  assume e: "empty_ok t"
  then have "tree_keys t = {}" "IsEmpty t" by (simp_all add: empty_ok_def tree_keys_def)
  moreover have "scan_loop t (None, 0) [] = Some []"
    by (subst scan_loop.simps) (simp add: IsEnd_def)
  ultimately show ?thesis by (simp add: scan_def BPlusTree_Begin_def)
next
  assume "\<exists>G. tree_inv t G"
  then obtain G where "tree_inv t G" ..
  from scan_ok [OF this] show ?thesis .
qed

lemma BPlusTree_new_empty_ok:
  "BPlusTree_new lm im first = Some t \<Longrightarrow> 0 \<le> first \<Longrightarrow> empty_ok t \<and> tree_keys t = {}"
  by (auto simp: BPlusTree_new_def empty_ok_def IsEmpty_def tree_keys_def split: if_splits)

text \<open>
  Claim C1. Take a tree as the constructor returns it, with page ids handed out from a
  number that is not negative, and any list of entries with pairwise distinct keys, in
  any order. Then every \<^verbatim>\<open>Insert\<close> of the list returns true, and the walk from
  \<^verbatim>\<open>Begin()\<close> with \<^verbatim>\<open>operator++\<close> until \<^verbatim>\<open>IsEnd()\<close> ends, visits as many entries as were
  inserted, in strictly ascending order of their keys, and the keys it visits are the
  inserted keys, each of them once.
\<close>

theorem C1_insert_scan_round_trip:
  fixes t0 :: "('k::linorder, 'v) BPlusTree"
  assumes new: "BPlusTree_new leaf_max internal_max first_page_id = Some t0"
    and first: "0 \<le> first_page_id"
    and dist: "distinct (map fst kvs)"
  shows "\<exists>t es. insert_all kvs t0 = Some (replicate (length kvs) True, t) \<and>
           scan t = Some es \<and> length es = length kvs \<and>
           sorted_wrt (<) (map fst es) \<and> distinct (map fst es) \<and>
           set (map fst es) = set (map fst kvs)"
proof -
  from BPlusTree_new_empty_ok [OF new first] have e: "empty_ok t0" "tree_keys t0 = {}" by simp_all
  from insert_all_ok [of t0 kvs] e dist obtain t where
    t: "insert_all kvs t0 = Some (replicate (length kvs) True, t)"
    "empty_ok t \<or> (\<exists>G. tree_inv t G)" "tree_keys t = fst ` set kvs" by auto
  from scan_good [OF t(2)] obtain es where
    es: "scan t = Some es" "sorted_wrt (<) (map fst es)" "fst ` set es = tree_keys t" by blast
  from es(2) have d: "distinct (map fst es)" by (simp add: strict_sorted_iff)
  from es(3) t(3) have s: "set (map fst es) = set (map fst kvs)" by simp
  from d dist s have "length (map fst es) = length (map fst kvs)"
    by (metis distinct_card)
  with t(1) es(1,2) d s show ?thesis by auto
qed

theorem C1_insert_scan_round_trip_witness:
  "BPlusTree_new 3 3 1 =
     Some (\<lparr>root_page_id = INVALID_PAGE_ID, leaf_max_size = 3, internal_max_size = 3,
            tree_pages = Map.empty, tree_next_page_id = 1\<rparr> :: (int, int) BPlusTree) \<and>
   (\<exists>t es. insert_all [(5, 50), (1, 10), (4, 40), (2, 20), (7, 70), (3, 30), (6 :: int, 60 :: int)]
              \<lparr>root_page_id = INVALID_PAGE_ID, leaf_max_size = 3, internal_max_size = 3,
                tree_pages = Map.empty, tree_next_page_id = 1\<rparr> =
              Some (replicate
                (length [(5, 50), (1, 10), (4, 40), (2, 20), (7, 70), (3, 30), (6 :: int, 60 :: int)])
                True, t) \<and>
            scan t = Some es \<and>
            length es =
              length [(5, 50), (1, 10), (4, 40), (2, 20), (7, 70), (3, 30), (6 :: int, 60 :: int)] \<and>
            sorted_wrt (<) (map fst es) \<and> distinct (map fst es) \<and>
            set (map fst es) =
              set (map fst [(5, 50), (1, 10), (4, 40), (2, 20), (7, 70), (3, 30), (6 :: int, 60 :: int)])) \<and>
   map_option (\<lambda>(oks, t). (oks, scan t))
     (insert_all [(5, 50), (1, 10), (4, 40), (2, 20), (7, 70), (3, 30), (6 :: int, 60 :: int)]
        \<lparr>root_page_id = INVALID_PAGE_ID, leaf_max_size = 3, internal_max_size = 3,
          tree_pages = Map.empty, tree_next_page_id = 1\<rparr>) =
     Some (replicate 7 True,
           Some [(1, 10), (2, 20), (3, 30), (4, 40), (5, 50), (6, 60), (7, 70)])"
proof (intro conjI)
  show a: "BPlusTree_new 3 3 1 =
     Some (\<lparr>root_page_id = INVALID_PAGE_ID, leaf_max_size = 3, internal_max_size = 3,
            tree_pages = Map.empty, tree_next_page_id = 1\<rparr> :: (int, int) BPlusTree)"
    by (simp add: BPlusTree_new_def)
  have b: "distinct (map fst [(5, 50), (1, 10), (4, 40), (2, 20), (7, 70), (3, 30), (6 :: int, 60 :: int)])"
    by simp
  show "\<exists>t es. insert_all [(5, 50), (1, 10), (4, 40), (2, 20), (7, 70), (3, 30), (6 :: int, 60 :: int)]
              \<lparr>root_page_id = INVALID_PAGE_ID, leaf_max_size = 3, internal_max_size = 3,
                tree_pages = Map.empty, tree_next_page_id = 1\<rparr> =
              Some (replicate
                (length [(5, 50), (1, 10), (4, 40), (2, 20), (7, 70), (3, 30), (6 :: int, 60 :: int)])
                True, t) \<and>
            scan t = Some es \<and>
            length es =
              length [(5, 50), (1, 10), (4, 40), (2, 20), (7, 70), (3, 30), (6 :: int, 60 :: int)] \<and>
            sorted_wrt (<) (map fst es) \<and> distinct (map fst es) \<and>
            set (map fst es) =
              set (map fst [(5, 50), (1, 10), (4, 40), (2, 20), (7, 70), (3, 30), (6 :: int, 60 :: int)])"
    by (rule C1_insert_scan_round_trip [OF a _ b]) simp
  show "map_option (\<lambda>(oks, t). (oks, scan t))
     (insert_all [(5, 50), (1, 10), (4, 40), (2, 20), (7, 70), (3, 30), (6 :: int, 60 :: int)]
        \<lparr>root_page_id = INVALID_PAGE_ID, leaf_max_size = 3, internal_max_size = 3,
          tree_pages = Map.empty, tree_next_page_id = 1\<rparr>) =
     Some (replicate 7 True,
           Some [(1, 10), (2, 20), (3, 30), (4, 40), (5, 50), (6, 60), (7, 70)])"
    by code_simp
qed

end
